(* ===== verification/Oxide_Prelude.thy ===== *)
theory Oxide_Prelude
  imports Main "HOL-Library.Word"
begin

text \<open>
  Shared vocabulary of the development: the machine integer types of the Rust sources, results
  with panics, checked vector access, and the generic list lemmas that the component theories use.

  \<^item> \<open>usize\<close> is modelled as \<open>nat\<close>: the values are lengths and positions of allocated vectors.
    Wherever the code itself guards against exhaustion of an integer type (\<open>try_from\<close>,
    \<open>checked_add\<close>, \<open>wrapping_sub\<close>) the model writes the bound or uses the word type.
  \<^item> \<open>Result<A, E>\<close> is the sum \<open>E + A\<close>; a function that can also panic (an index out of
    range, an \<open>expect\<close>) returns \<open>(E fault) + A\<close>, so that panic freedom is a statement about
    values of the model.
\<close>

type_synonym u8 = "8 word"
type_synonym u16 = "16 word"
type_synonym u32 = "32 word"
type_synonym u64 = "64 word"

datatype 'e fault = Panic | Err 'e

type_synonym ('e, 'a) outcome = "'e fault + 'a"

named_theorems outcome_simps

definition and_then :: "'e + 'a \<Rightarrow> ('a \<Rightarrow> 'e + 'b) \<Rightarrow> 'e + 'b" where
  "and_then r f = (case r of Inl e \<Rightarrow> Inl e | Inr x \<Rightarrow> f x)"

definition vec_get :: "'a list \<Rightarrow> nat \<Rightarrow> ('e, 'a) outcome" where
  "vec_get xs i = (if i < length xs then Inr (xs ! i) else Inl Panic)"

definition vec_set :: "'a list \<Rightarrow> nat \<Rightarrow> 'a \<Rightarrow> ('e, 'a list) outcome" where
  "vec_set xs i v = (if i < length xs then Inr (xs[i := v]) else Inl Panic)"

definition vec_get_opt :: "'a list \<Rightarrow> nat \<Rightarrow> 'a option" where
  "vec_get_opt xs i = (if i < length xs then Some (xs ! i) else None)"

definition vec_last :: "'a list \<Rightarrow> 'a option" where
  "vec_last xs = (if xs = [] then None else Some (last xs))"

definition first_index :: "('a \<Rightarrow> bool) \<Rightarrow> 'a list \<Rightarrow> nat option" where
  "first_index P xs =
     (let i = length (takeWhile (\<lambda>x. \<not> P x) xs) in if i < length xs then Some i else None)"

subsection \<open>Sequencing of results\<close>

lemma and_then_Inl [simp, outcome_simps]: "and_then (Inl e) f = Inl e"
  by (simp add: and_then_def)

lemma and_then_Inr [simp, outcome_simps]: "and_then (Inr x) f = f x"
  by (simp add: and_then_def)

lemma and_then_eq_Inr: "and_then r f = Inr y \<longleftrightarrow> (\<exists>x. r = Inr x \<and> f x = Inr y)"
  by (cases r) auto

lemma and_then_eq_Inl: "and_then r f = Inl e \<longleftrightarrow> r = Inl e \<or> (\<exists>x. r = Inr x \<and> f x = Inl e)"
  by (cases r) auto

lemma and_then_assoc: "and_then (and_then r f) g = and_then r (\<lambda>x. and_then (f x) g)"
  by (cases r) auto

lemma and_then_cong [fundef_cong]:
  "r = r' \<Longrightarrow> (\<And>x. r' = Inr x \<Longrightarrow> f x = g x) \<Longrightarrow> and_then r f = and_then r' g"
  by (cases r') auto

subsection \<open>Checked vector access\<close>

lemma vec_get_in [simp]: "i < length xs \<Longrightarrow> vec_get xs i = Inr (xs ! i)"
  by (simp add: vec_get_def)

lemma vec_set_in [simp]: "i < length xs \<Longrightarrow> vec_set xs i v = Inr (xs[i := v])"
  by (simp add: vec_set_def)

lemma vec_get_eq_Inr: "vec_get xs i = Inr x \<longleftrightarrow> i < length xs \<and> x = xs ! i"
  by (auto simp: vec_get_def)

lemma vec_set_eq_Inr: "vec_set xs i v = Inr ys \<longleftrightarrow> i < length xs \<and> ys = xs[i := v]"
  by (auto simp: vec_set_def)

lemma vec_get_opt_eq_Some: "vec_get_opt xs i = Some x \<longleftrightarrow> i < length xs \<and> x = xs ! i"
  by (auto simp: vec_get_opt_def)

lemma vec_get_opt_eq_None: "vec_get_opt xs i = None \<longleftrightarrow> length xs \<le> i"
  by (auto simp: vec_get_opt_def)

lemma vec_last_snoc [simp]: "vec_last (xs @ [x]) = Some x"
  by (simp add: vec_last_def)

lemma vec_last_Nil [simp]: "vec_last [] = None"
  by (simp add: vec_last_def)

lemma vec_last_eq_Some: "vec_last xs = Some x \<longleftrightarrow> (\<exists>ys. xs = ys @ [x])"
  by (cases xs rule: rev_cases) auto

lemma vec_last_eq_None [simp]: "vec_last xs = None \<longleftrightarrow> xs = []"
  by (simp add: vec_last_def)

subsection \<open>Positions in a list\<close>

lemma first_index_append:
  "\<forall>x \<in> set xs. \<not> Q x \<Longrightarrow> Q y \<Longrightarrow> first_index Q (xs @ y # ys) = Some (length xs)"
  by (simp add: first_index_def takeWhile_append2)

lemma first_index_eq_Some:
  "first_index Q xs = Some i \<longleftrightarrow> i < length xs \<and> Q (xs ! i) \<and> (\<forall>j < i. \<not> Q (xs ! j))"
proof
  assume i: "first_index Q xs = Some i"
  then have "i < length xs" "i = length (takeWhile (\<lambda>x. \<not> Q x) xs)"
    by (auto simp: first_index_def Let_def split: if_splits)
  then show "i < length xs \<and> Q (xs ! i) \<and> (\<forall>j < i. \<not> Q (xs ! j))"
    using nth_length_takeWhile [of "\<lambda>x. \<not> Q x" xs] by (metis nth_mem set_takeWhileD takeWhile_nth)
next
  assume i: "i < length xs \<and> Q (xs ! i) \<and> (\<forall>j < i. \<not> Q (xs ! j))"
  then have "xs = take i xs @ xs ! i # drop (Suc i) xs" by (simp add: id_take_nth_drop)
  moreover have "\<forall>x \<in> set (take i xs). \<not> Q x" using i by (auto simp: in_set_conv_nth)
  ultimately show "first_index Q xs = Some i"
    using first_index_append [of "take i xs" Q "xs ! i" "drop (Suc i) xs"] i by simp
qed

lemma first_index_eq_None: "first_index Q xs = None \<longleftrightarrow> (\<forall>x \<in> set xs. \<not> Q x)"
  by (induction xs) (auto simp: first_index_def Let_def split: if_splits)

subsection \<open>Simulation of results\<close>

text \<open>
  \<open>simulates tolerated R c a\<close>: the detailed result \<open>c\<close> is a tolerated failure, or the same failure
  as the abstract result \<open>a\<close>, or a value related by \<open>R\<close> to the abstract value.
\<close>

definition simulates :: "'e set \<Rightarrow> ('a \<Rightarrow> 'b \<Rightarrow> bool) \<Rightarrow> 'e + 'a \<Rightarrow> 'e + 'b \<Rightarrow> bool" where
  "simulates tolerated R c a =
     (case c of Inl e \<Rightarrow> e \<in> tolerated \<or> a = Inl e | Inr x \<Rightarrow> (\<exists>y. a = Inr y \<and> R x y))"

lemma simulates_Inr [simp]: "simulates T R (Inr x) (Inr y) \<longleftrightarrow> R x y"
  by (simp add: simulates_def)

lemma simulates_same_Inl [simp]: "simulates T R (Inl e) (Inl e)"
  by (simp add: simulates_def)

lemma simulates_tolerated: "e \<in> T \<Longrightarrow> simulates T R (Inl e) a"
  by (simp add: simulates_def)

lemma simulates_and_then:
  assumes "simulates T R c a" and "\<And>x y. R x y \<Longrightarrow> simulates T S (f x) (g y)"
  shows "simulates T S (and_then c f) (and_then a g)"
proof (cases c)
  case (Inl e)
  with assms(1) show ?thesis by (auto simp: simulates_def)
next
  case (Inr x)
  with assms(1) obtain y where "a = Inr y" "R x y" by (auto simp: simulates_def)
  with Inr assms(2) show ?thesis by simp
qed

lemma simulates_and_then_same:
  assumes "\<And>x. r = Inr x \<Longrightarrow> simulates T S (f x) (g x)"
  shows "simulates T S (and_then r f) (and_then r g)"
  using assms by (cases r) (auto simp: simulates_def)

lemma simulates_mono: "simulates T R c a \<Longrightarrow> (\<And>x y. R x y \<Longrightarrow> S x y) \<Longrightarrow> simulates T S c a"
  by (cases c) (auto simp: simulates_def)

subsection \<open>Postconditions of results\<close>

text \<open>
  \<open>ensures allowed Q r\<close>: a failure of \<open>r\<close> is an allowed one and a value of \<open>r\<close> satisfies \<open>Q\<close>.
\<close>

definition ensures :: "('e \<Rightarrow> bool) \<Rightarrow> ('a \<Rightarrow> bool) \<Rightarrow> 'e + 'a \<Rightarrow> bool" where
  "ensures allowed Q r = (case r of Inl e \<Rightarrow> allowed e | Inr x \<Rightarrow> Q x)"

lemma ensures_Inl [simp]: "ensures A Q (Inl e) \<longleftrightarrow> A e"
  by (simp add: ensures_def)

lemma ensures_Inr [simp]: "ensures A Q (Inr x) \<longleftrightarrow> Q x"
  by (simp add: ensures_def)

lemma ensures_and_then:
  "ensures A Q r \<Longrightarrow> (\<And>x. Q x \<Longrightarrow> ensures A R (f x)) \<Longrightarrow> ensures A R (and_then r f)"
  by (cases r) auto

lemma ensures_mono: "ensures A Q r \<Longrightarrow> (\<And>x. Q x \<Longrightarrow> R x) \<Longrightarrow> ensures A R r"
  by (cases r) auto

lemma ensures_conj: "ensures A Q r \<Longrightarrow> ensures A R r \<Longrightarrow> ensures A (\<lambda>x. Q x \<and> R x) r"
  by (cases r) auto

lemma ensures_any: "(\<And>x. r = Inr x \<Longrightarrow> Q x) \<Longrightarrow> ensures (\<lambda>_. True) Q r"
  by (cases r) auto

lemma ensures_trivial: "ensures (\<lambda>_. True) (\<lambda>_. True) r"
  by (cases r) auto

subsection \<open>Swap removal\<close>

text \<open>
  \<open>Vec::swap_remove\<close>: the last element takes the place of the removed one; out of range it panics.
\<close>

definition vec_swap_remove :: "'a list \<Rightarrow> nat \<Rightarrow> ('e, 'a \<times> 'a list) outcome" where
  "vec_swap_remove xs i =
     (if i < length xs then Inr (xs ! i, butlast (xs[i := last xs])) else Inl Panic)"

lemma vec_swap_remove_in [simp]:
  "i < length xs \<Longrightarrow> vec_swap_remove xs i = Inr (xs ! i, butlast (xs[i := last xs]))"
  by (simp add: vec_swap_remove_def)

lemma length_swap_remove: "i < length xs \<Longrightarrow> length (butlast (xs[i := last xs])) = length xs - 1"
  by simp

lemma swap_remove_last: "butlast ((xs @ [x])[length xs := x]) = xs"
  by simp

lemma nth_swap_remove:
  "i < length xs \<Longrightarrow> j < length xs - 1 \<Longrightarrow>
     butlast (xs[i := last xs]) ! j = (if j = i then last xs else xs ! j)"
  by (simp add: nth_butlast)

lemma set_swap_remove:
  assumes "i < length xs" "distinct xs"
  shows "set (butlast (xs[i := last xs])) = set xs - {xs ! i}"
    and "distinct (butlast (xs[i := last xs]))"
proof -
  obtain ys y where xs: "xs = ys @ [y]" using assms(1) by (cases xs rule: rev_cases) auto
  have "set (butlast (xs[i := last xs])) = set xs - {xs ! i} \<and> distinct (butlast (xs[i := last xs]))"
  proof (cases "i = length ys")
    case True
    with assms(2) xs show ?thesis by auto
  next
    case False
    then have i: "i < length ys" using assms(1) xs by simp
    then have "butlast (xs[i := last xs]) = ys[i := y]" by (simp add: xs list_update_append)
    moreover have "set (ys[i := y]) = insert y (set ys - {ys ! i})" "distinct (ys[i := y])"
      using assms(2) i xs by (auto simp: set_update_distinct distinct_list_update)
    ultimately show ?thesis using assms(2) i by (auto simp: xs nth_append)
  qed
  then show "set (butlast (xs[i := last xs])) = set xs - {xs ! i}" "distinct (butlast (xs[i := last xs]))"
    by simp_all
qed

end
