(* ===== verification/RegExp_Program.thy ===== *)
theory RegExp_Program
  imports Oxide_Prelude
begin

unbundle bit_operations_syntax

text \<open>
  The compiled form of a regular expression: the flags (\<open>src/regexp/flags.rs\<close>), the instruction
  set (\<open>src/regexp/opcode.rs\<close>), the program record (\<open>src/regexp/compiler.rs\<close>) and the structural
  check every compiled program passes before it is published
  (\<open>validate_program\<close> in \<open>src/regexp/executor.rs\<close>).
\<close>

section \<open>Flags\<close>

type_synonym regexp_flags = u16

definition GLOBAL :: regexp_flags where "GLOBAL = push_bit 0 1"
definition IGNORE_CASE :: regexp_flags where "IGNORE_CASE = push_bit 1 1"
definition MULTILINE :: regexp_flags where "MULTILINE = push_bit 2 1"
definition DOT_ALL :: regexp_flags where "DOT_ALL = push_bit 3 1"
definition UNICODE :: regexp_flags where "UNICODE = push_bit 4 1"
definition STICKY :: regexp_flags where "STICKY = push_bit 5 1"
definition HAS_INDICES :: regexp_flags where "HAS_INDICES = push_bit 6 1"
definition NAMED_GROUPS :: regexp_flags where "NAMED_GROUPS = push_bit 7 1"
definition UNICODE_SETS :: regexp_flags where "UNICODE_SETS = push_bit 8 1"
definition EMPTY_FLAGS :: regexp_flags where "EMPTY_FLAGS = 0"

lemmas flag_defs = GLOBAL_def IGNORE_CASE_def MULTILINE_def DOT_ALL_def UNICODE_def STICKY_def
  HAS_INDICES_def NAMED_GROUPS_def UNICODE_SETS_def EMPTY_FLAGS_def

definition flags_contains :: "regexp_flags \<Rightarrow> regexp_flags \<Rightarrow> bool" where
  "flags_contains flags flag \<longleftrightarrow> (flags AND flag) \<noteq> 0"

definition is_unicode :: "regexp_flags \<Rightarrow> bool" where
  "is_unicode flags \<longleftrightarrow> flags_contains flags UNICODE \<or> flags_contains flags UNICODE_SETS"

definition canonical_order :: "(regexp_flags \<times> u16) list" where
  "canonical_order =
     [(HAS_INDICES, 0x64), (GLOBAL, 0x67), (IGNORE_CASE, 0x69), (MULTILINE, 0x6d),
      (DOT_ALL, 0x73), (UNICODE, 0x75), (UNICODE_SETS, 0x76), (STICKY, 0x79)]"

definition canonical_string :: "regexp_flags \<Rightarrow> u16 list" where
  "canonical_string flags =
     map snd (filter (\<lambda>(flag, _). flags_contains flags flag) canonical_order)"

definition flags_insert :: "regexp_flags \<Rightarrow> regexp_flags \<Rightarrow> regexp_flags \<times> bool" where
  "flags_insert flags flag = (flags OR flag, \<not> flags_contains flags flag)"

datatype flag_parse_error_kind = FlagInvalid | FlagDuplicate | FlagUnicodeConflict

record flag_parse_error =
  fpe_position :: nat
  fpe_kind :: flag_parse_error_kind

definition flag_of_unit :: "u16 \<Rightarrow> regexp_flags option" where
  "flag_of_unit unit =
     (if unit = 0x64 then Some HAS_INDICES
      else if unit = 0x67 then Some GLOBAL
      else if unit = 0x69 then Some IGNORE_CASE
      else if unit = 0x6d then Some MULTILINE
      else if unit = 0x73 then Some DOT_ALL
      else if unit = 0x75 then Some UNICODE
      else if unit = 0x76 then Some UNICODE_SETS
      else if unit = 0x79 then Some STICKY
      else None)"

fun parse_flags_loop :: "nat \<Rightarrow> regexp_flags \<Rightarrow> u16 list \<Rightarrow> flag_parse_error + regexp_flags" where
  "parse_flags_loop position flags [] = Inr flags"
| "parse_flags_loop position flags (unit # units) =
     (case flag_of_unit unit of
        None \<Rightarrow> Inl \<lparr>fpe_position = position, fpe_kind = FlagInvalid\<rparr>
      | Some flag \<Rightarrow>
          (case flags_insert flags flag of
             (flags', inserted) \<Rightarrow>
               if \<not> inserted then Inl \<lparr>fpe_position = position, fpe_kind = FlagDuplicate\<rparr>
               else parse_flags_loop (Suc position) flags' units))"

definition parse_flags :: "u16 list \<Rightarrow> flag_parse_error + regexp_flags" where
  "parse_flags units =
     and_then (parse_flags_loop 0 EMPTY_FLAGS units) (\<lambda>flags.
       if flags_contains flags UNICODE \<and> flags_contains flags UNICODE_SETS
       then Inl \<lparr>fpe_position = (case first_index (\<lambda>unit. unit = 0x76) units of
                                  Some position \<Rightarrow> position | None \<Rightarrow> length units),
                 fpe_kind = FlagUnicodeConflict\<rparr>
       else Inr flags)"

section \<open>Instructions and programs\<close>

record character_range =
  cr_start :: u32
  cr_end :: u32

datatype instruction =
    IChar u32 bool
  | IDot
  | IAny
  | ISpace bool
  | IRange "character_range list" bool bool
  | ILineStart bool
  | ILineEnd bool
  | IWordBoundary bool bool
  | IPrev
  | IBackReference "u8 list" bool
  | IBackwardBackReference "u8 list" bool
  | ILookAhead bool nat
  | ILookAheadEnd bool
  | IJump nat
  | ISplit nat nat
  | IMatch
  | ISaveStart u8
  | ISaveEnd u8
  | IResetCaptures u8 u8
  | ISetRegister u8 u32
  | ILoop u8 nat
  | ISavePosition u8
  | ICheckAdvance u8

record program =
  program_flags :: regexp_flags
  capture_count :: u8
  register_count :: u8
  instructions :: "instruction list"
  group_names :: "u16 list option list option"

datatype program_error =
    EmptyProgram
  | ZeroCaptures
  | ProgramCounter nat
  | BranchTarget nat nat
  | CaptureIndex nat u8
  | CaptureRange nat u8 u8
  | EmptyBackReference nat
  | RegisterIndex nat u8
  | CounterRegisterExpected nat u8
  | PositionRegisterExpected nat u8
  | InvalidCharacter nat u32
  | InvalidCharacterRange nat u32 u32
  | AssertionStructure nat
  | IncompleteCapture u8

datatype exec_error =
    StartOutOfBounds nat nat
  | OutOfMemory
  | Interrupted
  | InvalidProgram program_error

section \<open>Structural validation\<close>

text \<open>
  \<open>validate_program\<close> scans the instructions once, keeping the stack of open assertions (the pc of
  the \<open>LookAhead\<close>, its polarity and its target) and recording for every pc the innermost open
  assertion, then checks in a second pass that no branch leaves its assertion. \<open>None\<close> stands for
  the sentinel \<open>NO_ASSERTION_SCOPE\<close>. The assertion stack has its top at the head of the list.

  The allocator is a parameter: \<open>oom k\<close> says whether the \<open>k\<close>-th \<open>try_reserve\<close> of the call fails.
  The first one reserves the scope table, each further one a place on the assertion stack.
\<close>

type_synonym assertion = "nat \<times> bool \<times> nat"

fun branch_targets :: "instruction \<Rightarrow> nat list" where
  "branch_targets (IJump target) = [target]"
| "branch_targets (ISplit first second) = [first, second]"
| "branch_targets (ILoop register target) = [target]"
| "branch_targets (ILookAhead negative target) = [target]"
| "branch_targets _ = []"

definition scope_of :: "assertion list \<Rightarrow> nat option" where
  "scope_of assertions = (case assertions of [] \<Rightarrow> None | (begin_pc, _, _) # _ \<Rightarrow> Some begin_pc)"

fun push_assertion ::
  "(nat \<Rightarrow> bool) \<Rightarrow> nat \<Rightarrow> instruction \<Rightarrow> nat \<times> assertion list \<Rightarrow> exec_error + nat \<times> assertion list"
where
  "push_assertion oom pc (ILookAhead negative target) (reserved, assertions) =
     (if oom reserved then Inl OutOfMemory
      else Inr (Suc reserved, (pc, negative, target) # assertions))"
| "push_assertion oom pc _ state = Inr state"

definition check_targets :: "nat \<Rightarrow> nat \<Rightarrow> instruction \<Rightarrow> exec_error + unit" where
  "check_targets len pc instruction =
     (case find (\<lambda>target. len \<le> target) (branch_targets instruction) of
        Some target \<Rightarrow> Inl (InvalidProgram (BranchTarget pc target))
      | None \<Rightarrow> Inr ())"

fun check_operands ::
  "u8 \<Rightarrow> u8 \<Rightarrow> nat \<Rightarrow> instruction \<Rightarrow> assertion list \<Rightarrow> program_error + assertion list" where
  "check_operands captures registers pc (IChar value ignore_case) assertions =
     (if 0x10ffff < value then Inl (InvalidCharacter pc value) else Inr assertions)"
| "check_operands captures registers pc (IRange ranges inverted ignore_case) assertions =
     (case find (\<lambda>r. cr_end r < cr_start r \<or> 0x10ffff < cr_end r) ranges of
        Some r \<Rightarrow> Inl (InvalidCharacterRange pc (cr_start r) (cr_end r))
      | None \<Rightarrow> Inr assertions)"
| "check_operands captures registers pc (ISaveStart capture) assertions =
     (if captures \<le> capture then Inl (CaptureIndex pc capture) else Inr assertions)"
| "check_operands captures registers pc (ISaveEnd capture) assertions =
     (if captures \<le> capture then Inl (CaptureIndex pc capture) else Inr assertions)"
| "check_operands captures registers pc (IResetCaptures from to) assertions =
     (if to < from \<or> captures \<le> to then Inl (CaptureRange pc from to) else Inr assertions)"
| "check_operands captures registers pc (IBackReference refs ignore_case) assertions =
     (if refs = [] then Inl (EmptyBackReference pc)
      else case find (\<lambda>capture. captures \<le> capture) refs of
             Some capture \<Rightarrow> Inl (CaptureIndex pc capture) | None \<Rightarrow> Inr assertions)"
| "check_operands captures registers pc (IBackwardBackReference refs ignore_case) assertions =
     (if refs = [] then Inl (EmptyBackReference pc)
      else case find (\<lambda>capture. captures \<le> capture) refs of
             Some capture \<Rightarrow> Inl (CaptureIndex pc capture) | None \<Rightarrow> Inr assertions)"
| "check_operands captures registers pc (ILookAheadEnd negative) assertions =
     (case assertions of
        [] \<Rightarrow> Inl (AssertionStructure pc)
      | (begin_pc, expected_negative, target) # rest \<Rightarrow>
          if expected_negative \<noteq> negative \<or> target \<noteq> pc + 1 \<or> pc \<le> begin_pc
          then Inl (AssertionStructure pc) else Inr rest)"
| "check_operands captures registers pc (ISetRegister register value) assertions =
     (if registers \<le> register then Inl (RegisterIndex pc register) else Inr assertions)"
| "check_operands captures registers pc (ILoop register target) assertions =
     (if registers \<le> register then Inl (RegisterIndex pc register) else Inr assertions)"
| "check_operands captures registers pc (ISavePosition register) assertions =
     (if registers \<le> register then Inl (RegisterIndex pc register) else Inr assertions)"
| "check_operands captures registers pc (ICheckAdvance register) assertions =
     (if registers \<le> register then Inl (RegisterIndex pc register) else Inr assertions)"
| "check_operands captures registers pc _ assertions = Inr assertions"

definition program_error :: "program_error + 'a \<Rightarrow> exec_error + 'a" where
  "program_error r = (case r of Inl e \<Rightarrow> Inl (InvalidProgram e) | Inr x \<Rightarrow> Inr x)"

fun validate_scan ::
  "(nat \<Rightarrow> bool) \<Rightarrow> program \<Rightarrow> nat \<Rightarrow> instruction list \<Rightarrow> nat \<times> assertion list \<Rightarrow>
   exec_error + (nat option list \<times> assertion list)" where
  "validate_scan oom P pc [] (reserved, assertions) = Inr ([], assertions)"
| "validate_scan oom P pc (instruction # rest) (reserved, assertions) =
     and_then (push_assertion oom pc instruction (reserved, assertions)) (\<lambda>(reserved', pushed).
     and_then (check_targets (length (instructions P)) pc instruction) (\<lambda>_.
     and_then (program_error (check_operands (capture_count P) (register_count P) pc instruction
                 pushed)) (\<lambda>assertions'.
     and_then (validate_scan oom P (Suc pc) rest (reserved', assertions')) (\<lambda>(scopes, final).
       Inr (scope_of assertions # scopes, final)))))"

definition check_scope :: "nat option list \<Rightarrow> nat \<Rightarrow> instruction \<Rightarrow> exec_error + unit" where
  "check_scope scopes pc instruction =
     (if (\<exists>target \<in> set (branch_targets instruction). scopes ! target \<noteq> scopes ! pc)
      then Inl (InvalidProgram (AssertionStructure pc))
      else if instruction = IMatch \<and> scopes ! pc \<noteq> None
      then Inl (InvalidProgram (AssertionStructure pc))
      else Inr ())"

fun validate_scopes :: "nat option list \<Rightarrow> nat \<Rightarrow> instruction list \<Rightarrow> exec_error + unit" where
  "validate_scopes scopes pc [] = Inr ()"
| "validate_scopes scopes pc (instruction # rest) =
     and_then (check_scope scopes pc instruction) (\<lambda>_. validate_scopes scopes (Suc pc) rest)"

definition validate_program :: "(nat \<Rightarrow> bool) \<Rightarrow> program \<Rightarrow> exec_error + unit" where
  "validate_program oom P =
     (if instructions P = [] then Inl (InvalidProgram EmptyProgram)
      else if capture_count P = 0 then Inl (InvalidProgram ZeroCaptures)
      else if oom 0 then Inl OutOfMemory
      else and_then (validate_scan oom P 0 (instructions P) (1, [])) (\<lambda>(scopes, assertions).
        case assertions of
          (pc, _, _) # _ \<Rightarrow> Inl (InvalidProgram (AssertionStructure pc))
        | [] \<Rightarrow> validate_scopes scopes 0 (instructions P)))"

end
