(* ===== verification/RegExp_Executor.thy ===== *)
theory RegExp_Executor
  imports RegExp_Program
begin

text \<open>
  The backtracking matcher of \<open>src/regexp/executor.rs\<close>: character access on UTF-16 code units, the
  attempt state with its undo log and control stack, one iteration of \<open>run_attempt\<close>, and the
  search loop \<open>execute_units\<close>.

  A \<open>Vec\<close> is a list whose last element is the top. The environment of a run is explicit:
  \<open>interrupted k\<close> is the answer of the host's interrupt hook to its \<open>k\<close>-th call, \<open>oom k\<close> says
  whether the \<open>k\<close>-th fallible reservation of memory fails (\<open>st_reserved\<close> counts them), and
  \<open>canonicalize\<close> is the table-driven case folding of \<open>src/source/unicode/case.rs\<close>.
\<close>

record exec_env =
  interrupted :: "nat \<Rightarrow> bool"
  oom :: "nat \<Rightarrow> bool"
  canonicalize :: "u32 \<Rightarrow> bool \<Rightarrow> u32"

type_synonym regexp_match = "(nat \<times> nat) option list"

section \<open>Characters\<close>

definition is_high_surrogate :: "u16 \<Rightarrow> bool" where
  "is_high_surrogate unit \<longleftrightarrow> 0xd800 \<le> unit \<and> unit \<le> 0xdbff"

definition is_low_surrogate :: "u16 \<Rightarrow> bool" where
  "is_low_surrogate unit \<longleftrightarrow> 0xdc00 \<le> unit \<and> unit \<le> 0xdfff"

definition is_line_terminator :: "u32 \<Rightarrow> bool" where
  "is_line_terminator character \<longleftrightarrow> character \<in> {0x000a, 0x000d, 0x2028, 0x2029}"

definition is_space :: "u32 \<Rightarrow> bool" where
  "is_space character \<longleftrightarrow>
     0x0009 \<le> character \<and> character \<le> 0x000d \<or> character = 0x0020 \<or> character = 0x00a0
     \<or> character = 0x1680 \<or> 0x2000 \<le> character \<and> character \<le> 0x200a \<or> character = 0x2028
     \<or> character = 0x2029 \<or> character = 0x202f \<or> character = 0x205f \<or> character = 0x3000
     \<or> character = 0xfeff"

definition is_word :: "u32 \<Rightarrow> bool \<Rightarrow> bool" where
  "is_word character ignore_case \<longleftrightarrow>
     character = 0x5f \<or> 0x30 \<le> character \<and> character \<le> 0x39
     \<or> 0x41 \<le> character \<and> character \<le> 0x5a \<or> 0x61 \<le> character \<and> character \<le> 0x7a
     \<or> ignore_case \<and> (character = 0x017f \<or> character = 0x212a)"

definition partition_point :: "('a \<Rightarrow> bool) \<Rightarrow> 'a list \<Rightarrow> nat" where
  "partition_point P xs = length (takeWhile P xs)"

definition range_contains :: "character_range list \<Rightarrow> u32 \<Rightarrow> bool" where
  "range_contains ranges character =
     (let candidate = partition_point (\<lambda>r. cr_start r \<le> character) ranges
      in if candidate = 0 then False
         else case vec_get_opt ranges (candidate - 1) of
                None \<Rightarrow> False | Some r \<Rightarrow> character \<le> cr_end r)"

definition surrogate_code_point :: "u16 \<Rightarrow> u16 \<Rightarrow> u32" where
  "surrogate_code_point first second =
     0x10000 + push_bit 10 (ucast first - 0xd800) + (ucast second - 0xdc00)"

definition read_character :: "u16 list \<Rightarrow> nat \<Rightarrow> bool \<Rightarrow> (u32 \<times> nat) option" where
  "read_character input position unicode =
     (case vec_get_opt input position of
        None \<Rightarrow> None
      | Some first \<Rightarrow>
          (case (if unicode \<and> is_high_surrogate first
                 then vec_get_opt input (position + 1) else None) of
             Some second \<Rightarrow>
               if is_low_surrogate second
               then Some (surrogate_code_point first second, position + 2)
               else Some (ucast first, position + 1)
           | None \<Rightarrow> Some (ucast first, position + 1)))"

definition read_previous_character_bounded ::
  "u16 list \<Rightarrow> nat \<Rightarrow> nat \<Rightarrow> bool \<Rightarrow> (u32 \<times> nat) option" where
  "read_previous_character_bounded input position lower_bound unicode =
     (if position \<le> lower_bound then None
      else case vec_get_opt input (position - 1) of
             None \<Rightarrow> None
           | Some last_unit \<Rightarrow>
               if unicode \<and> is_low_surrogate last_unit \<and> lower_bound + 2 \<le> position
                  \<and> is_high_surrogate (input ! (position - 2))
               then Some (surrogate_code_point (input ! (position - 2)) last_unit, position - 2)
               else Some (ucast last_unit, position - 1))"

definition read_previous_character :: "u16 list \<Rightarrow> nat \<Rightarrow> bool \<Rightarrow> (u32 \<times> nat) option" where
  "read_previous_character input position unicode =
     read_previous_character_bounded input position 0 unicode"

definition previous_character :: "u16 list \<Rightarrow> nat \<Rightarrow> bool \<Rightarrow> u32 option" where
  "previous_character input position unicode =
     map_option fst (read_previous_character input position unicode)"

definition advance_string_index :: "u16 list \<Rightarrow> nat \<Rightarrow> bool \<Rightarrow> nat" where
  "advance_string_index input position unicode =
     (case read_character input position unicode of
        Some (_, next_position) \<Rightarrow> next_position | None \<Rightarrow> length input)"

definition normalize_start :: "u16 list \<Rightarrow> nat \<Rightarrow> bool \<Rightarrow> nat" where
  "normalize_start input start unicode =
     (if unicode \<and> 0 < start \<and> start < length input \<and> is_low_surrogate (input ! start)
         \<and> is_high_surrogate (input ! (start - 1))
      then start - 1 else start)"

lemma read_character_advances:
  "read_character input p unicode = Some (c, q) \<Longrightarrow> p < q \<and> q \<le> length input"
  by (auto simp: read_character_def vec_get_opt_def split: if_splits option.splits)

lemma read_previous_character_bounded_retreats:
  "read_previous_character_bounded input p lo unicode = Some (c, q) \<Longrightarrow> lo \<le> q \<and> q < p"
  by (auto simp: read_previous_character_bounded_def vec_get_opt_def split: if_splits)

section \<open>Back-references\<close>

definition fold_case :: "exec_env \<Rightarrow> bool \<Rightarrow> bool \<Rightarrow> u32 \<Rightarrow> u32" where
  "fold_case env unicode ignore_case character =
     (if ignore_case then canonicalize env character unicode else character)"

function match_back_reference_loop ::
  "exec_env \<Rightarrow> u16 list \<Rightarrow> u16 list \<Rightarrow> nat \<Rightarrow> nat \<Rightarrow> nat \<Rightarrow> bool \<Rightarrow> bool \<Rightarrow> nat option" where
  "match_back_reference_loop env capture_input input capture_position capture_end input_position
     unicode ignore_case =
     (if capture_position < capture_end
      then case read_character capture_input capture_position unicode of
             None \<Rightarrow> None
           | Some (captured, next_capture) \<Rightarrow>
               (case read_character input input_position unicode of
                  None \<Rightarrow> None
                | Some (current, next_input) \<Rightarrow>
                    if fold_case env unicode ignore_case captured
                       \<noteq> fold_case env unicode ignore_case current
                    then None
                    else match_back_reference_loop env capture_input input next_capture capture_end
                           next_input unicode ignore_case)
      else Some input_position)"
  by pat_completeness auto
termination
  by (relation "measure (\<lambda>(env, ci, i, cp, ce, ip, u, ic). ce - cp)")
    (auto dest!: read_character_advances)

definition match_back_reference ::
  "exec_env \<Rightarrow> u16 list \<Rightarrow> nat \<Rightarrow> nat \<Rightarrow> nat \<Rightarrow> bool \<Rightarrow> bool \<Rightarrow> nat option" where
  "match_back_reference env input capture_start capture_end input_start unicode ignore_case =
     (if length input < capture_end then None
      else match_back_reference_loop env (take capture_end input) input capture_start capture_end
             input_start unicode ignore_case)"

function match_backward_back_reference_loop ::
  "exec_env \<Rightarrow> u16 list \<Rightarrow> nat \<Rightarrow> nat \<Rightarrow> nat \<Rightarrow> bool \<Rightarrow> bool \<Rightarrow> nat option" where
  "match_backward_back_reference_loop env input capture_start capture_position input_position
     unicode ignore_case =
     (if capture_start < capture_position
      then case read_previous_character_bounded input capture_position capture_start unicode of
             None \<Rightarrow> None
           | Some (captured, previous_capture) \<Rightarrow>
               (case read_previous_character_bounded input input_position 0 unicode of
                  None \<Rightarrow> None
                | Some (current, previous_input) \<Rightarrow>
                    if fold_case env unicode ignore_case captured
                       \<noteq> fold_case env unicode ignore_case current
                    then None
                    else match_backward_back_reference_loop env input capture_start previous_capture
                           previous_input unicode ignore_case)
      else if capture_position = capture_start then Some input_position else None)"
  by pat_completeness auto
termination
  by (relation "measure (\<lambda>(env, i, cs, cp, ip, u, ic). cp)")
    (auto dest!: read_previous_character_bounded_retreats)

definition match_backward_back_reference ::
  "exec_env \<Rightarrow> u16 list \<Rightarrow> nat \<Rightarrow> nat \<Rightarrow> nat \<Rightarrow> bool \<Rightarrow> bool \<Rightarrow> nat option" where
  "match_backward_back_reference env input capture_start capture_end input_end unicode ignore_case =
     match_backward_back_reference_loop env input capture_start capture_end input_end
       unicode ignore_case"

declare match_back_reference_loop.simps [simp del] match_backward_back_reference_loop.simps [simp del]

section \<open>The attempt state\<close>

datatype register_value = Unset | Counter u32 | Position nat

datatype undo = UndoCapture nat "nat option" | UndoRegister nat register_value

fun same_location :: "undo \<Rightarrow> undo \<Rightarrow> bool" where
  "same_location (UndoCapture left _) (UndoCapture right _) \<longleftrightarrow> left = right"
| "same_location (UndoRegister left _) (UndoRegister right _) \<longleftrightarrow> left = right"
| "same_location _ _ \<longleftrightarrow> False"

datatype control_kind = SplitFrame nat | LookAheadFrame bool nat

record control_frame =
  fr_kind :: control_kind
  fr_position :: nat
  fr_undo_len :: nat

record attempt_state =
  st_pc :: nat
  st_position :: nat
  st_captures :: "nat option list"
  st_registers :: "register_value list"
  st_undo :: "undo list"
  st_controls :: "control_frame list"
  st_reserved :: nat

type_synonym 'a exec = "(exec_error, 'a) outcome"

abbreviation program_fault :: "program_error \<Rightarrow> 'a exec" where
  "program_fault e \<equiv> Inl (Err (InvalidProgram e))"

definition reset :: "nat \<Rightarrow> attempt_state \<Rightarrow> attempt_state" where
  "reset position s = s\<lparr>st_pc := 0, st_position := position,
     st_captures := map (\<lambda>_. None) (st_captures s),
     st_registers := map (\<lambda>_. Unset) (st_registers s),
     st_undo := [], st_controls := []\<rparr>"

definition new_state :: "exec_env \<Rightarrow> u8 \<Rightarrow> u8 \<Rightarrow> nat \<Rightarrow> attempt_state exec" where
  "new_state env captures registers position =
     (if oom env 0 \<or> oom env 1 then Inl (Err OutOfMemory)
      else Inr \<lparr>st_pc = 0, st_position = position,
        st_captures = replicate (unat captures * 2) None,
        st_registers = replicate (unat registers) Unset,
        st_undo = [], st_controls = [], st_reserved = 2\<rparr>)"

definition try_reserve :: "exec_env \<Rightarrow> attempt_state \<Rightarrow> attempt_state exec" where
  "try_reserve env s =
     (if oom env (st_reserved s) then Inl (Err OutOfMemory)
      else Inr (s\<lparr>st_reserved := Suc (st_reserved s)\<rparr>))"

definition push_control :: "exec_env \<Rightarrow> control_kind \<Rightarrow> attempt_state \<Rightarrow> attempt_state exec" where
  "push_control env kind s =
     and_then (try_reserve env s) (\<lambda>s.
       Inr (s\<lparr>st_controls := st_controls s @
         [\<lparr>fr_kind = kind, fr_position = st_position s, fr_undo_len = length (st_undo s)\<rparr>]\<rparr>))"

definition push_backtrack :: "exec_env \<Rightarrow> nat \<Rightarrow> attempt_state \<Rightarrow> attempt_state exec" where
  "push_backtrack env target s = push_control env (SplitFrame target) s"

definition push_lookahead :: "exec_env \<Rightarrow> bool \<Rightarrow> nat \<Rightarrow> attempt_state \<Rightarrow> attempt_state exec" where
  "push_lookahead env negative target s = push_control env (LookAheadFrame negative target) s"

fun undo_entry :: "undo \<Rightarrow> attempt_state \<Rightarrow> attempt_state exec" where
  "undo_entry (UndoCapture slot previous) s =
     and_then (vec_set (st_captures s) slot previous) (\<lambda>captures. Inr (s\<lparr>st_captures := captures\<rparr>))"
| "undo_entry (UndoRegister register previous) s =
     and_then (vec_set (st_registers s) register previous) (\<lambda>registers.
       Inr (s\<lparr>st_registers := registers\<rparr>))"

lemma undo_entry_frame:
  "undo_entry e s = Inr t \<Longrightarrow>
     st_undo t = st_undo s \<and> st_controls t = st_controls s \<and> st_pc t = st_pc s
     \<and> st_position t = st_position s \<and> st_reserved t = st_reserved s"
  by (cases e) (auto simp: and_then_eq_Inr)

function rollback_to :: "nat \<Rightarrow> attempt_state \<Rightarrow> attempt_state exec" where
  "rollback_to undo_len s =
     (if undo_len < length (st_undo s)
      then and_then (undo_entry (last (st_undo s)) (s\<lparr>st_undo := butlast (st_undo s)\<rparr>))
             (\<lambda>t. rollback_to undo_len t)
      else Inr s)"
  by pat_completeness auto
termination
  by (relation "measure (\<lambda>(n, s). length (st_undo s))") (auto dest!: undo_entry_frame)

declare rollback_to.simps [simp del]

lemma rollback_to_frame:
  "rollback_to n s = Inr t \<Longrightarrow>
     st_undo t = take n (st_undo s) \<and> st_controls t = st_controls s \<and> st_pc t = st_pc s
     \<and> st_position t = st_position s \<and> st_reserved t = st_reserved s"
proof (induction n s rule: rollback_to.induct)
  case (1 n s)
  show ?case
  proof (cases "n < length (st_undo s)")
    case True
    with "1.prems" obtain u where u: "undo_entry (last (st_undo s)) (s\<lparr>st_undo := butlast (st_undo s)\<rparr>) = Inr u"
      and t: "rollback_to n u = Inr t"
      by (subst (asm) rollback_to.simps) (auto simp: and_then_eq_Inr)
    from "1.IH" [OF True u t] undo_entry_frame [OF u] True show ?thesis
      by (simp add: take_butlast)
  next
    case False
    with "1.prems" show ?thesis by (subst (asm) rollback_to.simps) simp
  qed
qed

function restore_backtrack :: "attempt_state \<Rightarrow> (bool \<times> attempt_state) exec" where
  "restore_backtrack s =
     (if st_controls s = [] then Inr (False, s)
      else let frame = last (st_controls s) in
        and_then (rollback_to (fr_undo_len frame) (s\<lparr>st_controls := butlast (st_controls s)\<rparr>)) (\<lambda>t.
          let t = t\<lparr>st_position := fr_position frame\<rparr> in
          case fr_kind frame of
            SplitFrame target \<Rightarrow> Inr (True, t\<lparr>st_pc := target\<rparr>)
          | LookAheadFrame negative target \<Rightarrow>
              if negative then Inr (True, t\<lparr>st_pc := target\<rparr>) else restore_backtrack t))"
  by pat_completeness auto
termination
  by (relation "measure (\<lambda>s. length (st_controls s))") (auto dest!: rollback_to_frame)

declare restore_backtrack.simps [simp del]

definition rposition :: "('a \<Rightarrow> bool) \<Rightarrow> 'a list \<Rightarrow> nat option" where
  "rposition P xs =
     (case first_index P (rev xs) of None \<Rightarrow> None | Some i \<Rightarrow> Some (length xs - 1 - i))"

fun is_lookahead_frame :: "control_kind \<Rightarrow> bool" where
  "is_lookahead_frame (LookAheadFrame _ _) = True"
| "is_lookahead_frame (SplitFrame _) = False"

fun compact_undo :: "nat \<Rightarrow> undo list \<Rightarrow> undo list \<Rightarrow> undo list" where
  "compact_undo outer_checkpoint kept [] = kept"
| "compact_undo outer_checkpoint kept (entry # entries) =
     (if (\<exists>existing \<in> set (drop outer_checkpoint kept). same_location existing entry)
      then compact_undo outer_checkpoint kept entries
      else compact_undo outer_checkpoint (kept @ [entry]) entries)"

definition finish_positive_lookahead :: "nat \<Rightarrow> attempt_state \<Rightarrow> attempt_state exec" where
  "finish_positive_lookahead pc s =
     (case rposition (\<lambda>frame. is_lookahead_frame (fr_kind frame)) (st_controls s) of
        None \<Rightarrow> program_fault (AssertionStructure pc)
      | Some index \<Rightarrow>
          let frame = st_controls s ! index in
          if fr_kind frame \<noteq> LookAheadFrame False (pc + 1)
          then program_fault (AssertionStructure pc)
          else
            let outer_controls = take index (st_controls s);
                kept = take (fr_undo_len frame) (st_undo s);
                entries = drop (fr_undo_len frame) (st_undo s);
                s' = s\<lparr>st_controls := outer_controls, st_position := fr_position frame\<rparr>
            in case vec_last outer_controls of
                 Some outer \<Rightarrow>
                   if entries \<noteq> [] \<and> fr_undo_len frame < fr_undo_len outer then Inl Panic
                   else Inr (s'\<lparr>st_undo := compact_undo (fr_undo_len outer) kept entries\<rparr>)
               | None \<Rightarrow> Inr (s'\<lparr>st_undo := kept\<rparr>))"

definition reject_negative_lookahead :: "nat \<Rightarrow> attempt_state \<Rightarrow> attempt_state exec" where
  "reject_negative_lookahead pc s =
     (case rposition (\<lambda>frame. is_lookahead_frame (fr_kind frame)) (st_controls s) of
        None \<Rightarrow> program_fault (AssertionStructure pc)
      | Some index \<Rightarrow>
          let frame = st_controls s ! index in
          if fr_kind frame \<noteq> LookAheadFrame True (pc + 1)
          then program_fault (AssertionStructure pc)
          else and_then (rollback_to (fr_undo_len frame) s) (\<lambda>t.
            Inr (t\<lparr>st_controls := take index (st_controls t), st_position := fr_position frame\<rparr>)))"

fun is_capture_undo :: "nat \<Rightarrow> undo \<Rightarrow> bool" where
  "is_capture_undo slot (UndoCapture found _) \<longleftrightarrow> found = slot"
| "is_capture_undo slot (UndoRegister _ _) \<longleftrightarrow> False"

fun is_register_undo :: "nat \<Rightarrow> undo \<Rightarrow> bool" where
  "is_register_undo register (UndoRegister found _) \<longleftrightarrow> found = register"
| "is_register_undo register (UndoCapture _ _) \<longleftrightarrow> False"

definition record_capture :: "exec_env \<Rightarrow> nat \<Rightarrow> attempt_state \<Rightarrow> attempt_state exec" where
  "record_capture env slot s =
     (case vec_last (st_controls s) of
        None \<Rightarrow> Inr s
      | Some frame \<Rightarrow>
          if length (st_undo s) < fr_undo_len frame then Inl Panic
          else if (\<exists>entry \<in> set (drop (fr_undo_len frame) (st_undo s)). is_capture_undo slot entry)
          then Inr s
          else and_then (try_reserve env s) (\<lambda>s.
               and_then (vec_get (st_captures s) slot) (\<lambda>previous.
                 Inr (s\<lparr>st_undo := st_undo s @ [UndoCapture slot previous]\<rparr>))))"

definition set_capture :: "exec_env \<Rightarrow> nat \<Rightarrow> nat option \<Rightarrow> attempt_state \<Rightarrow> attempt_state exec" where
  "set_capture env slot value s =
     and_then (record_capture env slot s) (\<lambda>s.
     and_then (vec_set (st_captures s) slot value) (\<lambda>captures.
       Inr (s\<lparr>st_captures := captures\<rparr>)))"

definition record_register :: "exec_env \<Rightarrow> nat \<Rightarrow> attempt_state \<Rightarrow> attempt_state exec" where
  "record_register env register s =
     (case vec_last (st_controls s) of
        None \<Rightarrow> Inr s
      | Some frame \<Rightarrow>
          if length (st_undo s) < fr_undo_len frame then Inl Panic
          else if (\<exists>entry \<in> set (drop (fr_undo_len frame) (st_undo s)). is_register_undo register entry)
          then Inr s
          else and_then (try_reserve env s) (\<lambda>s.
               and_then (vec_get (st_registers s) register) (\<lambda>previous.
                 Inr (s\<lparr>st_undo := st_undo s @ [UndoRegister register previous]\<rparr>))))"

definition set_register ::
  "exec_env \<Rightarrow> nat \<Rightarrow> register_value \<Rightarrow> attempt_state \<Rightarrow> attempt_state exec" where
  "set_register env register value s =
     and_then (record_register env register s) (\<lambda>s.
     and_then (vec_set (st_registers s) register value) (\<lambda>registers.
       Inr (s\<lparr>st_registers := registers\<rparr>)))"

fun match_range :: "nat \<Rightarrow> nat option \<Rightarrow> nat option \<Rightarrow> program_error + (nat \<times> nat) option" where
  "match_range capture None None = Inr None"
| "match_range capture (Some start) (Some end_position) =
     (if start \<le> end_position then Inr (Some (start, end_position))
      else Inl (IncompleteCapture (of_nat capture)))"
| "match_range capture _ _ = Inl (IncompleteCapture (of_nat capture))"

fun collect_captures :: "nat option list \<Rightarrow> nat list \<Rightarrow> regexp_match exec" where
  "collect_captures slots [] = Inr []"
| "collect_captures slots (capture # rest) =
     (case match_range capture (slots ! (capture * 2)) (slots ! (capture * 2 + 1)) of
        Inl e \<Rightarrow> program_fault e
      | Inr captured \<Rightarrow> and_then (collect_captures slots rest) (\<lambda>ranges. Inr (captured # ranges)))"

definition finish_match :: "exec_env \<Rightarrow> attempt_state \<Rightarrow> regexp_match exec" where
  "finish_match env s =
     and_then (try_reserve env s) (\<lambda>s.
       collect_captures (st_captures s) [0..<length (st_captures s) div 2])"

section \<open>One iteration of the dispatch loop\<close>

text \<open>
  \<open>exec_instruction\<close> is the body of the \<open>match\<close> of \<open>run_attempt\<close>: the new state, a request for
  \<open>fail_branch!\<close>, or the accepted match. \<open>iteration\<close> adds what surrounds it: the interrupt
  poll, the instruction fetch, the increment of the pc and the expansion of \<open>fail_branch!\<close>.
\<close>

datatype branch = Advance attempt_state | FailBranch attempt_state | Accept regexp_match

fun participating :: "nat option list \<Rightarrow> u8 list \<Rightarrow> (nat \<times> nat) option exec" where
  "participating slots [] = Inr None"
| "participating slots (capture # rest) =
     and_then (vec_get slots (unat capture * 2)) (\<lambda>start.
     and_then (vec_get slots (unat capture * 2 + 1)) (\<lambda>end_position.
       case (start, end_position) of
         (Some a, Some b) \<Rightarrow> Inr (Some (a, b))
       | _ \<Rightarrow> participating slots rest))"

fun reset_captures :: "exec_env \<Rightarrow> nat list \<Rightarrow> attempt_state \<Rightarrow> attempt_state exec" where
  "reset_captures env [] s = Inr s"
| "reset_captures env (capture # rest) s =
     and_then (set_capture env (capture * 2) None s) (\<lambda>s.
     and_then (set_capture env (capture * 2 + 1) None s) (\<lambda>s.
       reset_captures env rest s))"

definition consume :: "attempt_state \<Rightarrow> (u32 \<times> nat) option \<Rightarrow> (u32 \<Rightarrow> bool) \<Rightarrow> branch" where
  "consume s reading accepted =
     (case reading of
        None \<Rightarrow> FailBranch s
      | Some (character, next_position) \<Rightarrow>
          if accepted character then Advance (s\<lparr>st_position := next_position\<rparr>) else FailBranch s)"

definition guard :: "attempt_state \<Rightarrow> bool \<Rightarrow> branch" where
  "guard s passed = (if passed then Advance s else FailBranch s)"

definition move_to :: "attempt_state \<Rightarrow> nat option \<Rightarrow> branch" where
  "move_to s target =
     (case target of None \<Rightarrow> FailBranch s | Some position \<Rightarrow> Advance (s\<lparr>st_position := position\<rparr>))"

definition advancing :: "attempt_state exec \<Rightarrow> branch exec" where
  "advancing r = and_then r (\<lambda>s. Inr (Advance s))"

definition at_line_start :: "u16 list \<Rightarrow> nat \<Rightarrow> bool \<Rightarrow> bool \<Rightarrow> bool" where
  "at_line_start input position unicode multiline \<longleftrightarrow>
     \<not> (position \<noteq> 0 \<and>
        (\<not> multiline \<or>
         (case previous_character input position unicode of
            None \<Rightarrow> True | Some character \<Rightarrow> \<not> is_line_terminator character)))"

definition at_line_end :: "u16 list \<Rightarrow> nat \<Rightarrow> bool \<Rightarrow> bool \<Rightarrow> bool" where
  "at_line_end input position unicode multiline \<longleftrightarrow>
     \<not> (position \<noteq> length input \<and>
        (\<not> multiline \<or>
         (case read_character input position unicode of
            None \<Rightarrow> True | Some (character, _) \<Rightarrow> \<not> is_line_terminator character)))"

definition at_word_boundary :: "u16 list \<Rightarrow> nat \<Rightarrow> bool \<Rightarrow> bool \<Rightarrow> bool" where
  "at_word_boundary input position unicode ignore_case =
     (let previous = (case previous_character input position unicode of
                        None \<Rightarrow> False | Some character \<Rightarrow> is_word character (ignore_case \<and> unicode));
          current = (case read_character input position unicode of
                       None \<Rightarrow> False | Some (character, _) \<Rightarrow> is_word character (ignore_case \<and> unicode))
      in previous \<noteq> current)"

fun exec_instruction ::
  "exec_env \<Rightarrow> u16 list \<Rightarrow> bool \<Rightarrow> nat \<Rightarrow> instruction \<Rightarrow> attempt_state \<Rightarrow> branch exec" where
  "exec_instruction env input unicode pc (IChar value ignore_case) s =
     Inr (consume s (read_character input (st_position s) unicode)
       (\<lambda>character. fold_case env unicode ignore_case character = value))"
| "exec_instruction env input unicode pc IDot s =
     Inr (consume s (read_character input (st_position s) unicode)
       (\<lambda>character. \<not> is_line_terminator character))"
| "exec_instruction env input unicode pc IAny s =
     Inr (consume s (read_character input (st_position s) unicode) (\<lambda>_. True))"
| "exec_instruction env input unicode pc (ISpace inverted) s =
     Inr (consume s (read_character input (st_position s) unicode)
       (\<lambda>character. is_space character \<noteq> inverted))"
| "exec_instruction env input unicode pc (IRange ranges inverted ignore_case) s =
     Inr (consume s (read_character input (st_position s) unicode)
       (\<lambda>character. range_contains ranges (fold_case env unicode ignore_case character) \<noteq> inverted))"
| "exec_instruction env input unicode pc (ILineStart multiline) s =
     Inr (guard s (at_line_start input (st_position s) unicode multiline))"
| "exec_instruction env input unicode pc (ILineEnd multiline) s =
     Inr (guard s (at_line_end input (st_position s) unicode multiline))"
| "exec_instruction env input unicode pc (IWordBoundary inverted ignore_case) s =
     Inr (guard s (at_word_boundary input (st_position s) unicode ignore_case \<noteq> inverted))"
| "exec_instruction env input unicode pc IPrev s =
     Inr (move_to s (map_option snd (read_previous_character input (st_position s) unicode)))"
| "exec_instruction env input unicode pc (IBackReference refs ignore_case) s =
     and_then (participating (st_captures s) refs) (\<lambda>group.
       case group of
         None \<Rightarrow> Inr (Advance s)
       | Some (start, end_position) \<Rightarrow>
           Inr (move_to s (match_back_reference env input start end_position (st_position s)
             unicode ignore_case)))"
| "exec_instruction env input unicode pc (IBackwardBackReference refs ignore_case) s =
     and_then (participating (st_captures s) refs) (\<lambda>group.
       case group of
         None \<Rightarrow> Inr (Advance s)
       | Some (start, end_position) \<Rightarrow>
           Inr (move_to s (match_backward_back_reference env input start end_position (st_position s)
             unicode ignore_case)))"
| "exec_instruction env input unicode pc (ILookAhead negative target) s =
     advancing (push_lookahead env negative target s)"
| "exec_instruction env input unicode pc (ILookAheadEnd negative) s =
     (if negative then and_then (reject_negative_lookahead pc s) (\<lambda>t. Inr (FailBranch t))
      else advancing (finish_positive_lookahead pc s))"
| "exec_instruction env input unicode pc (IJump target) s = Inr (Advance (s\<lparr>st_pc := target\<rparr>))"
| "exec_instruction env input unicode pc (ISplit first second) s =
     and_then (push_backtrack env second s) (\<lambda>t. Inr (Advance (t\<lparr>st_pc := first\<rparr>)))"
| "exec_instruction env input unicode pc IMatch s =
     and_then (finish_match env s) (\<lambda>result. Inr (Accept result))"
| "exec_instruction env input unicode pc (ISaveStart capture) s =
     advancing (set_capture env (unat capture * 2) (Some (st_position s)) s)"
| "exec_instruction env input unicode pc (ISaveEnd capture) s =
     advancing (set_capture env (unat capture * 2 + 1) (Some (st_position s)) s)"
| "exec_instruction env input unicode pc (IResetCaptures from to) s =
     advancing (reset_captures env [unat from..<Suc (unat to)] s)"
| "exec_instruction env input unicode pc (ISetRegister register value) s =
     advancing (set_register env (unat register) (Counter value) s)"
| "exec_instruction env input unicode pc (ILoop register target) s =
     and_then (vec_get (st_registers s) (unat register)) (\<lambda>current.
       case current of
         Counter count \<Rightarrow>
           and_then (set_register env (unat register) (Counter (count - 1)) s) (\<lambda>t.
             Inr (Advance (if count - 1 \<noteq> 0 then t\<lparr>st_pc := target\<rparr> else t)))
       | _ \<Rightarrow> program_fault (CounterRegisterExpected pc register))"
| "exec_instruction env input unicode pc (ISavePosition register) s =
     advancing (set_register env (unat register) (Position (st_position s)) s)"
| "exec_instruction env input unicode pc (ICheckAdvance register) s =
     and_then (vec_get (st_registers s) (unat register)) (\<lambda>current.
       case current of
         Position saved \<Rightarrow> Inr (guard s (saved \<noteq> st_position s))
       | _ \<Rightarrow> program_fault (PositionRegisterExpected pc register))"

record poller =
  remaining :: u32
  polls :: nat

definition INTERRUPT_POLL_INTERVAL :: u32 where
  "INTERRUPT_POLL_INTERVAL = 10000"

definition new_poller :: poller where
  "new_poller = \<lparr>remaining = INTERRUPT_POLL_INTERVAL, polls = 0\<rparr>"

definition poller_step :: "exec_env \<Rightarrow> poller \<Rightarrow> poller exec" where
  "poller_step env p =
     (let p' = p\<lparr>remaining := remaining p - 1\<rparr> in
      if remaining p' = 0
      then if interrupted env (polls p) then Inl (Err Interrupted)
           else Inr \<lparr>remaining = INTERRUPT_POLL_INTERVAL, polls = Suc (polls p)\<rparr>
      else Inr p')"

datatype progress = Running poller attempt_state | Finished "regexp_match option" poller attempt_state

definition fail_branch :: "poller \<Rightarrow> attempt_state \<Rightarrow> progress exec" where
  "fail_branch p s =
     and_then (restore_backtrack s) (\<lambda>(resumed, t).
       Inr (if resumed then Running p t else Finished None p t))"

definition continue_with :: "poller \<Rightarrow> attempt_state \<Rightarrow> branch \<Rightarrow> progress exec" where
  "continue_with p s b =
     (case b of
        Advance t \<Rightarrow> Inr (Running p t)
      | FailBranch t \<Rightarrow> fail_branch p t
      | Accept result \<Rightarrow> Inr (Finished (Some result) p s))"

definition iteration ::
  "exec_env \<Rightarrow> program \<Rightarrow> u16 list \<Rightarrow> bool \<Rightarrow> poller \<Rightarrow> attempt_state \<Rightarrow> progress exec" where
  "iteration env P input unicode p s =
     and_then (poller_step env p) (\<lambda>p.
       case vec_get_opt (instructions P) (st_pc s) of
         None \<Rightarrow> program_fault (ProgramCounter (st_pc s))
       | Some instruction \<Rightarrow>
           let s' = s\<lparr>st_pc := Suc (st_pc s)\<rparr> in
           and_then (exec_instruction env input unicode (st_pc s) instruction s')
             (continue_with p s'))"

section \<open>Attempts and the search loop\<close>

text \<open>
  \<open>run_attempt\<close> may run forever (a program can jump to itself), so it is fuelled: one unit per
  dispatched instruction, \<open>None\<close> when the fuel is used up. \<open>execute_units\<close> gives every attempt
  the same fuel.
\<close>

fun run_attempt ::
  "nat \<Rightarrow> exec_env \<Rightarrow> program \<Rightarrow> u16 list \<Rightarrow> bool \<Rightarrow> poller \<Rightarrow> attempt_state \<Rightarrow>
   (regexp_match option \<times> poller \<times> attempt_state) exec option" where
  "run_attempt 0 env P input unicode p s = None"
| "run_attempt (Suc fuel) env P input unicode p s =
     (case iteration env P input unicode p s of
        Inl e \<Rightarrow> Some (Inl e)
      | Inr (Running p' s') \<Rightarrow> run_attempt fuel env P input unicode p' s'
      | Inr (Finished result p' s') \<Rightarrow> Some (Inr (result, p', s')))"

lemma advance_string_index_advances:
  "position < length input \<Longrightarrow>
     position < advance_string_index input position unicode
     \<and> advance_string_index input position unicode \<le> length input"
  by (auto simp: advance_string_index_def split: option.splits dest: read_character_advances)

function search ::
  "nat \<Rightarrow> exec_env \<Rightarrow> program \<Rightarrow> u16 list \<Rightarrow> bool \<Rightarrow> nat \<Rightarrow> poller \<Rightarrow> attempt_state \<Rightarrow>
   regexp_match option exec option" where
  "search fuel env P input unicode candidate p s =
     (case run_attempt fuel env P input unicode p (reset candidate s) of
        None \<Rightarrow> None
      | Some (Inl e) \<Rightarrow> Some (Inl e)
      | Some (Inr (Some result, _, _)) \<Rightarrow> Some (Inr (Some result))
      | Some (Inr (None, p', s')) \<Rightarrow>
          if flags_contains (program_flags P) STICKY \<or> candidate = length input
          then Some (Inr None)
          else search fuel env P input unicode (advance_string_index input candidate unicode) p' s')"
  by pat_completeness auto
termination
proof (relation "measure (\<lambda>(fuel, env, P, input, unicode, candidate, p, s).
    if candidate \<le> length input then length input - candidate else Suc (length input))", goal_cases)
  case 1
  show ?case by simp
next
  case (2 fuel env P input unicode candidate p s)
  then have "candidate \<noteq> length input" by simp
  then consider "candidate < length input" | "length input < candidate" by linarith
  then show ?case
  proof cases
    case 1
    from advance_string_index_advances [OF this, of unicode] 1 show ?thesis by auto
  next
    case 2
    then have "advance_string_index input candidate unicode = length input"
      by (simp add: advance_string_index_def read_character_def vec_get_opt_def)
    with 2 show ?thesis by simp
  qed
qed

declare search.simps [simp del]

definition execute_units ::
  "nat \<Rightarrow> exec_env \<Rightarrow> program \<Rightarrow> u16 list \<Rightarrow> nat \<Rightarrow> regexp_match option exec option" where
  "execute_units fuel env P input start =
     (if length input < start then Some (Inl (Err (StartOutOfBounds start (length input))))
      else
        let unicode = is_unicode (program_flags P);
            candidate = normalize_start input start unicode
        in case new_state env (capture_count P) (register_count P) candidate of
             Inl e \<Rightarrow> Some (Inl e)
           | Inr s \<Rightarrow> search fuel env P input unicode candidate new_poller s)"

definition execute_with_interrupt ::
  "nat \<Rightarrow> exec_env \<Rightarrow> program \<Rightarrow> u16 list \<Rightarrow> nat \<Rightarrow> regexp_match option exec option" where
  "execute_with_interrupt fuel env P input start = execute_units fuel env P input start"

definition execute ::
  "nat \<Rightarrow> exec_env \<Rightarrow> program \<Rightarrow> u16 list \<Rightarrow> nat \<Rightarrow> regexp_match option exec option" where
  "execute fuel env P input start =
     execute_with_interrupt fuel (env\<lparr>interrupted := \<lambda>_. False\<rparr>) P input start"

definition execute_latin1_with_interrupt ::
  "nat \<Rightarrow> exec_env \<Rightarrow> program \<Rightarrow> u8 list \<Rightarrow> nat \<Rightarrow> regexp_match option exec option" where
  "execute_latin1_with_interrupt fuel env P input start =
     execute_units fuel env P (map ucast input) start"

end
