(* ===== verification/RegExp_Refinement.thy ===== *)
theory RegExp_Refinement
  imports RegExp_Snapshot
begin

text \<open>
  The executor with its undo log implements the reference matcher of
  \<open>RegExp_Snapshot\<close>: the abstraction function rebuilds the copy of each frame by replaying the log,
  every operation commutes with it, and the whole search therefore does.
\<close>

section \<open>The undo log as a store transformer\<close>

fun undo_location :: "undo \<Rightarrow> nat + nat" where
  "undo_location (UndoCapture slot _) = Inl slot"
| "undo_location (UndoRegister register _) = Inr register"

fun replay_entry :: "undo \<Rightarrow> store \<Rightarrow> store" where
  "replay_entry (UndoCapture slot previous) (cs, rs) = (cs[slot := previous], rs)"
| "replay_entry (UndoRegister register previous) (cs, rs) = (cs, rs[register := previous])"

definition unwind :: "undo list \<Rightarrow> store \<Rightarrow> store" where
  "unwind entries st = foldr replay_entry entries st"

lemma unwind_simps [simp]:
  "unwind [] st = st"
  "unwind (e # es) st = replay_entry e (unwind es st)"
  "unwind (es @ fs) st = unwind es (unwind fs st)"
  by (simp_all add: unwind_def)

lemma same_location_iff [simp]: "same_location a b \<longleftrightarrow> undo_location a = undo_location b"
  by (cases a; cases b) auto

lemma is_capture_undo_iff [simp]: "is_capture_undo slot e \<longleftrightarrow> undo_location e = Inl slot"
  by (cases e) auto

lemma is_register_undo_iff [simp]: "is_register_undo register e \<longleftrightarrow> undo_location e = Inr register"
  by (cases e) auto

lemma replay_entry_absorb:
  "undo_location a = undo_location b \<Longrightarrow> replay_entry a (replay_entry b st) = replay_entry a st"
  by (cases a; cases b; cases st) auto

lemma replay_entry_commute:
  "undo_location a \<noteq> undo_location b \<Longrightarrow>
     replay_entry a (replay_entry b st) = replay_entry b (replay_entry a st)"
  by (cases a; cases b; cases st) (auto simp: list_update_swap)

lemma unwind_commute:
  "undo_location e \<notin> undo_location ` set es \<Longrightarrow>
     unwind es (replay_entry e st) = replay_entry e (unwind es st)"
  by (induction es) (auto simp: replay_entry_commute)

text \<open>A write to a location the log restores anyway is invisible after the log is replayed.\<close>

lemma unwind_absorb:
  "undo_location e \<in> undo_location ` set es \<Longrightarrow> unwind es (replay_entry e st) = unwind es st"
proof (induction es)
  case (Cons u es)
  show ?case
  proof (cases "undo_location e \<in> undo_location ` set es")
    case True
    with Cons.IH show ?thesis by simp
  next
    case False
    with Cons.prems have "undo_location u = undo_location e" by simp
    with False show ?thesis by (simp add: unwind_commute replay_entry_absorb)
  qed
qed simp

lemma length_replay_entry [simp]:
  "length (fst (replay_entry e st)) = length (fst st)"
  "length (snd (replay_entry e st)) = length (snd st)"
  by (cases e; cases st; simp)+

lemma length_unwind [simp]:
  "length (fst (unwind es st)) = length (fst st)"
  "length (snd (unwind es st)) = length (snd st)"
  by (induction es) auto

lemma compact_undo_unwind:
  assumes "n \<le> cp" "cp \<le> length kept"
  shows "unwind (drop n (compact_undo cp kept es)) st = unwind (drop n (kept @ es)) st"
  using assms(2)
proof (induction es arbitrary: kept)
  case (Cons e es)
  show ?case
  proof (cases "\<exists>x \<in> set (drop cp kept). same_location x e")
    case True
    then obtain x where "x \<in> set (drop cp kept)" "undo_location e = undo_location x" by auto
    then have "undo_location e \<in> undo_location ` set (drop n kept)"
      using set_drop_subset_set_drop [OF \<open>n \<le> cp\<close>, of kept] by blast
    then have "unwind (drop n (kept @ e # es)) st = unwind (drop n (kept @ es)) st"
      using assms(1) Cons.prems by (simp add: unwind_absorb)
    with True Cons show ?thesis by simp
  next
    case False
    with Cons.IH [of "kept @ [e]"] Cons.prems show ?thesis by simp
  qed
qed simp

lemma compact_undo_prefix: "\<exists>es'. compact_undo cp kept es = kept @ es' \<and> set es' \<subseteq> set es"
proof (induction es arbitrary: kept)
  case (Cons e es)
  show ?case
  proof (cases "\<exists>x \<in> set (drop cp kept). same_location x e")
    case True
    with Cons.IH [of kept] show ?thesis by auto
  next
    case False
    moreover from Cons.IH [of "kept @ [e]"] obtain es' where
      "compact_undo cp (kept @ [e]) es = (kept @ [e]) @ es'" "set es' \<subseteq> set es" by blast
    ultimately show ?thesis by (intro exI [of _ "e # es'"]) auto
  qed
qed simp

section \<open>Well-formed attempt states and their abstraction\<close>

fun undo_in_range :: "attempt_state \<Rightarrow> undo \<Rightarrow> bool" where
  "undo_in_range s (UndoCapture slot _) \<longleftrightarrow> slot < length (st_captures s)"
| "undo_in_range s (UndoRegister register _) \<longleftrightarrow> register < length (st_registers s)"

definition log_wf :: "attempt_state \<Rightarrow> bool" where
  "log_wf s \<longleftrightarrow>
     sorted (map fr_undo_len (st_controls s)) \<and>
     (\<forall>f \<in> set (st_controls s). fr_undo_len f \<le> length (st_undo s)) \<and>
     (\<forall>e \<in> set (st_undo s). undo_in_range s e)"

abbreviation st_store :: "attempt_state \<Rightarrow> store" where
  "st_store s \<equiv> (st_captures s, st_registers s)"

definition abs_frame :: "undo list \<Rightarrow> store \<Rightarrow> control_frame \<Rightarrow> snapshot_frame" where
  "abs_frame log st f = \<lparr>sf_kind = fr_kind f, sf_position = fr_position f,
     sf_store = unwind (drop (fr_undo_len f) log) st\<rparr>"

lemma abs_frame_sel [simp]:
  "sf_kind (abs_frame log st f) = fr_kind f"
  "sf_position (abs_frame log st f) = fr_position f"
  by (simp_all add: abs_frame_def)

definition abs_state :: "attempt_state \<Rightarrow> snapshot_state" where
  "abs_state s = \<lparr>sn_pc = st_pc s, sn_position = st_position s, sn_captures = st_captures s,
     sn_registers = st_registers s,
     sn_frames = map (abs_frame (st_undo s) (st_store s)) (st_controls s)\<rparr>"

definition refines :: "attempt_state \<Rightarrow> snapshot_state \<Rightarrow> bool" where
  "refines s a \<longleftrightarrow> log_wf s \<and> a = abs_state s"

abbreviation sim :: "('a \<Rightarrow> 'b \<Rightarrow> bool) \<Rightarrow> 'a exec \<Rightarrow> 'b exec \<Rightarrow> bool" where
  "sim \<equiv> simulates {Err OutOfMemory}"

lemma abs_state_sel [simp]:
  "sn_pc (abs_state s) = st_pc s"
  "sn_position (abs_state s) = st_position s"
  "sn_captures (abs_state s) = st_captures s"
  "sn_registers (abs_state s) = st_registers s"
  "sn_frames (abs_state s) = map (abs_frame (st_undo s) (st_store s)) (st_controls s)"
  by (simp_all add: abs_state_def)

lemma abs_state_update [simp]:
  "abs_state (s\<lparr>st_pc := n\<rparr>) = (abs_state s)\<lparr>sn_pc := n\<rparr>"
  "abs_state (s\<lparr>st_position := n\<rparr>) = (abs_state s)\<lparr>sn_position := n\<rparr>"
  "abs_state (s\<lparr>st_reserved := n\<rparr>) = abs_state s"
  by (simp_all add: abs_state_def)

lemma undo_in_range_update [simp]:
  "undo_in_range (s\<lparr>st_pc := n\<rparr>) = undo_in_range s"
  "undo_in_range (s\<lparr>st_position := n\<rparr>) = undo_in_range s"
  "undo_in_range (s\<lparr>st_reserved := n\<rparr>) = undo_in_range s"
  "undo_in_range (s\<lparr>st_undo := es\<rparr>) = undo_in_range s"
  "undo_in_range (s\<lparr>st_controls := fs\<rparr>) = undo_in_range s"
proof -
  have *: "undo_in_range s = undo_in_range t" if "length (st_captures s) = length (st_captures t)"
    "length (st_registers s) = length (st_registers t)" for s t
  proof
    fix e show "undo_in_range s e = undo_in_range t e" using that by (cases e) auto
  qed
  show "undo_in_range (s\<lparr>st_pc := n\<rparr>) = undo_in_range s"
    "undo_in_range (s\<lparr>st_position := n\<rparr>) = undo_in_range s"
    "undo_in_range (s\<lparr>st_reserved := n\<rparr>) = undo_in_range s"
    "undo_in_range (s\<lparr>st_undo := es\<rparr>) = undo_in_range s"
    "undo_in_range (s\<lparr>st_controls := fs\<rparr>) = undo_in_range s"
    by (intro *; simp)+
qed

lemma log_wf_update [simp]:
  "log_wf (s\<lparr>st_pc := n\<rparr>) = log_wf s"
  "log_wf (s\<lparr>st_position := n\<rparr>) = log_wf s"
  "log_wf (s\<lparr>st_reserved := n\<rparr>) = log_wf s"
  by (simp_all add: log_wf_def)

lemma log_wf_last:
  assumes "log_wf s" "vec_last (st_controls s) = Some f" "g \<in> set (st_controls s)"
  shows "fr_undo_len g \<le> fr_undo_len f" "fr_undo_len f \<le> length (st_undo s)"
  using assms by (auto simp: log_wf_def vec_last_eq_Some sorted_append)

section \<open>Every operation commutes with the abstraction\<close>

lemma rollback_to_eq:
  assumes "\<forall>e \<in> set (st_undo s). undo_in_range s e"
  shows "rollback_to n s = Inr (s\<lparr>st_captures := fst (unwind (drop n (st_undo s)) (st_store s)),
    st_registers := snd (unwind (drop n (st_undo s)) (st_store s)), st_undo := take n (st_undo s)\<rparr>)"
  using assms
proof (induction n s rule: rollback_to.induct)
  case (1 n s)
  show ?case
  proof (cases "n < length (st_undo s)")
    case False
    then show ?thesis by (simp add: rollback_to.simps [of n s])
  next
    case True
    then obtain es e where es: "st_undo s = es @ [e]" by (cases "st_undo s" rule: rev_cases) auto
    let ?t = "s\<lparr>st_undo := es, st_captures := fst (replay_entry e (st_store s)),
      st_registers := snd (replay_entry e (st_store s))\<rparr>"
    have e: "undo_in_range s e" using "1.prems" es by simp
    have entry: "undo_entry e (s\<lparr>st_undo := es\<rparr>) = Inr ?t"
      using e by (cases e) simp_all
    have "undo_in_range ?t x = undo_in_range s x" for x by (cases x) simp_all
    then have "rollback_to n ?t = Inr (?t\<lparr>st_captures := fst (unwind (drop n es) (st_store ?t)),
      st_registers := snd (unwind (drop n es) (st_store ?t)), st_undo := take n es\<rparr>)"
      using "1.IH" [OF True, of ?t] "1.prems" entry es by simp
    with True es entry show ?thesis by (simp add: rollback_to.simps [of n s])
  qed
qed

lemma sim_try_reserve:
  "refines s a \<Longrightarrow> sim (\<lambda>t b. refines t b \<and> b = a \<and> t = s\<lparr>st_reserved := Suc (st_reserved s)\<rparr>)
     (try_reserve env s) (Inr a)"
  by (auto simp: try_reserve_def simulates_def refines_def)

lemma sim_push_control:
  assumes "refines s a"
  shows "sim refines (push_control env kind s) (Inr (sn_push kind a))"
  using assms
  by (auto simp: push_control_def simulates_def try_reserve_def refines_def log_wf_def sorted_append
      abs_state_def sn_push_def abs_frame_def)

lemma unwind_logged:
  assumes "n \<le> length log" "replay_entry old (replay_entry new st) = st"
  shows "unwind (drop n (log @ [old])) (replay_entry new st) = unwind (drop n log) st"
  using assms by simp

lemma unwind_absorbed:
  assumes "n \<le> m" "undo_location new \<in> undo_location ` set (drop m log)"
  shows "unwind (drop n log) (replay_entry new st) = unwind (drop n log) st"
  using assms set_drop_subset_set_drop [OF assms(1), of log] by (intro unwind_absorb) blast

text \<open>
  A write through the log: nothing is logged without a checkpoint or when the location is already
  logged since the last one, otherwise the old value is appended.
\<close>

lemma abs_state_write:
  assumes wf: "log_wf s" and t: "st_store t = replay_entry new (st_store s)"
    "st_controls t = st_controls s" "st_pc t = st_pc s" "st_position t = st_position s"
    and old: "replay_entry old (replay_entry new (st_store s)) = st_store s"
    and range: "undo_in_range s old" "undo_location old = undo_location new"
    and log: "st_controls s = [] \<and> st_undo t = st_undo s
      \<or> (\<exists>f. vec_last (st_controls s) = Some f
             \<and> undo_location new \<in> undo_location ` set (drop (fr_undo_len f) (st_undo s))
             \<and> st_undo t = st_undo s)
      \<or> st_undo t = st_undo s @ [old]"
  shows "log_wf t" "sn_frames (abs_state t) = sn_frames (abs_state s)"
proof -
  have len: "length (st_captures t) = length (st_captures s)"
    "length (st_registers t) = length (st_registers s)"
    using t(1) length_replay_entry [of new "st_store s"] by (simp_all flip: t(1))
  have in_range: "undo_in_range t e = undo_in_range s e" for e by (cases e) (simp_all add: len)
  show "log_wf t" using wf log t(2) range(1) by (auto simp: log_wf_def in_range)
  have frame: "abs_frame (st_undo t) (st_store t) g = abs_frame (st_undo s) (st_store s) g"
    if g: "g \<in> set (st_controls s)" for g
    using log
  proof (elim disjE exE conjE)
    assume "st_controls s = []"
    with g show ?thesis by simp
  next
    fix f assume f: "vec_last (st_controls s) = Some f" "st_undo t = st_undo s"
      "undo_location new \<in> undo_location ` set (drop (fr_undo_len f) (st_undo s))"
    with log_wf_last [OF wf f(1) g] show ?thesis
      by (simp add: abs_frame_def t(1) unwind_absorbed)
  next
    assume "st_undo t = st_undo s @ [old]"
    moreover have "fr_undo_len g \<le> length (st_undo s)" using wf g by (simp add: log_wf_def)
    ultimately show ?thesis by (simp add: abs_frame_def t(1) old)
  qed
  then show "sn_frames (abs_state t) = sn_frames (abs_state s)" using t(2) by simp
qed

lemma log_wf_undo_capture:
  "log_wf s \<Longrightarrow> e \<in> set (st_undo s) \<Longrightarrow> undo_location e = Inl slot \<Longrightarrow> slot < length (st_captures s)"
  by (cases e) (auto simp: log_wf_def)

lemma log_wf_undo_register:
  "log_wf s \<Longrightarrow> e \<in> set (st_undo s) \<Longrightarrow> undo_location e = Inr r \<Longrightarrow> r < length (st_registers s)"
  by (cases e) (auto simp: log_wf_def)

lemma record_capture_cases:
  assumes "log_wf s"
  obtains (oom) "record_capture env slot s = Inl (Err OutOfMemory)"
  | (skipped) "record_capture env slot s = Inr s" "st_controls s = []"
  | (present) f where "record_capture env slot s = Inr s" "vec_last (st_controls s) = Some f"
      "Inl slot \<in> undo_location ` set (drop (fr_undo_len f) (st_undo s))"
  | (panic) "record_capture env slot s = Inl Panic" "length (st_captures s) \<le> slot"
  | (logged) "record_capture env slot s = Inr (s\<lparr>st_reserved := Suc (st_reserved s),
      st_undo := st_undo s @ [UndoCapture slot (st_captures s ! slot)]\<rparr>)" "slot < length (st_captures s)"
proof (cases "vec_last (st_controls s)")
  case None
  then show ?thesis by (intro skipped) (simp_all add: record_capture_def)
next
  case (Some f)
  then have "fr_undo_len f \<le> length (st_undo s)"
    using assms by (auto simp: log_wf_def vec_last_eq_Some)
  with Some that show ?thesis
    by (cases "\<exists>e \<in> set (drop (fr_undo_len f) (st_undo s)). is_capture_undo slot e")
      (force simp: record_capture_def try_reserve_def vec_get_def split: if_splits)+
qed

lemma record_register_cases:
  assumes "log_wf s"
  obtains (oom) "record_register env r s = Inl (Err OutOfMemory)"
  | (skipped) "record_register env r s = Inr s" "st_controls s = []"
  | (present) f where "record_register env r s = Inr s" "vec_last (st_controls s) = Some f"
      "Inr r \<in> undo_location ` set (drop (fr_undo_len f) (st_undo s))"
  | (panic) "record_register env r s = Inl Panic" "length (st_registers s) \<le> r"
  | (logged) "record_register env r s = Inr (s\<lparr>st_reserved := Suc (st_reserved s),
      st_undo := st_undo s @ [UndoRegister r (st_registers s ! r)]\<rparr>)" "r < length (st_registers s)"
proof (cases "vec_last (st_controls s)")
  case None
  then show ?thesis by (intro skipped) (simp_all add: record_register_def)
next
  case (Some f)
  then have "fr_undo_len f \<le> length (st_undo s)"
    using assms by (auto simp: log_wf_def vec_last_eq_Some)
  with Some that show ?thesis
    by (cases "\<exists>e \<in> set (drop (fr_undo_len f) (st_undo s)). is_register_undo r e")
      (force simp: record_register_def try_reserve_def vec_get_def split: if_splits)+
qed

lemma refines_write_capture:
  assumes "log_wf s" "slot < length (st_captures s)"
    and "st_controls s = [] \<and> log = st_undo s
      \<or> (\<exists>f. vec_last (st_controls s) = Some f
             \<and> Inl slot \<in> undo_location ` set (drop (fr_undo_len f) (st_undo s)) \<and> log = st_undo s)
      \<or> log = st_undo s @ [UndoCapture slot (st_captures s ! slot)]"
  shows "refines (s\<lparr>st_reserved := n, st_undo := log, st_captures := (st_captures s)[slot := v]\<rparr>)
    ((abs_state s)\<lparr>sn_captures := (st_captures s)[slot := v]\<rparr>)"
proof -
  let ?t = "s\<lparr>st_reserved := n, st_undo := log, st_captures := (st_captures s)[slot := v]\<rparr>"
  have "log_wf ?t" "sn_frames (abs_state ?t) = sn_frames (abs_state s)"
    by (rule abs_state_write [OF assms(1), of ?t "UndoCapture slot v"
          "UndoCapture slot (st_captures s ! slot)"]; use assms in simp)+
  then show ?thesis by (simp add: refines_def abs_state_def)
qed

lemma refines_write_register:
  assumes "log_wf s" "r < length (st_registers s)"
    and "st_controls s = [] \<and> log = st_undo s
      \<or> (\<exists>f. vec_last (st_controls s) = Some f
             \<and> Inr r \<in> undo_location ` set (drop (fr_undo_len f) (st_undo s)) \<and> log = st_undo s)
      \<or> log = st_undo s @ [UndoRegister r (st_registers s ! r)]"
  shows "refines (s\<lparr>st_reserved := n, st_undo := log, st_registers := (st_registers s)[r := v]\<rparr>)
    ((abs_state s)\<lparr>sn_registers := (st_registers s)[r := v]\<rparr>)"
proof -
  let ?t = "s\<lparr>st_reserved := n, st_undo := log, st_registers := (st_registers s)[r := v]\<rparr>"
  have "log_wf ?t" "sn_frames (abs_state ?t) = sn_frames (abs_state s)"
    by (rule abs_state_write [OF assms(1), of ?t "UndoRegister r v"
          "UndoRegister r (st_registers s ! r)"]; use assms in simp)+
  then show ?thesis by (simp add: refines_def abs_state_def)
qed

lemma sim_set_capture:
  assumes "refines s a"
  shows "sim refines (set_capture env slot v s) (sn_set_capture slot v a)"
proof -
  from assms have wf: "log_wf s" and a: "a = abs_state s" by (simp_all add: refines_def)
  show ?thesis
  proof (cases "slot < length (st_captures s)")
    case False
    with wf show ?thesis
      by (cases rule: record_capture_cases [OF wf, where slot = slot and env = env])
        (auto simp: set_capture_def sn_set_capture_def a vec_set_def simulates_def
          dest!: in_set_dropD log_wf_undo_capture [OF wf, OF _ sym])
  next
    case True
    then show ?thesis
      using refines_write_capture [OF wf True, where v = v and n = "st_reserved s" and log = "st_undo s"]
        refines_write_capture [OF wf True, where v = v and n = "Suc (st_reserved s)"
          and log = "st_undo s @ [UndoCapture slot (st_captures s ! slot)]"]
      by (cases rule: record_capture_cases [OF wf, where slot = slot and env = env])
        (auto simp: set_capture_def sn_set_capture_def a simulates_tolerated)
  qed
qed

lemma sim_set_register:
  assumes "refines s a"
  shows "sim refines (set_register env r v s) (sn_set_register r v a)"
proof -
  from assms have wf: "log_wf s" and a: "a = abs_state s" by (simp_all add: refines_def)
  show ?thesis
  proof (cases "r < length (st_registers s)")
    case False
    with wf show ?thesis
      by (cases rule: record_register_cases [OF wf, where r = r and env = env])
        (auto simp: set_register_def sn_set_register_def a vec_set_def simulates_def
          dest!: in_set_dropD log_wf_undo_register [OF wf, OF _ sym])
  next
    case True
    then show ?thesis
      using refines_write_register [OF wf True, where v = v and n = "st_reserved s" and log = "st_undo s"]
        refines_write_register [OF wf True, where v = v and n = "Suc (st_reserved s)"
          and log = "st_undo s @ [UndoRegister r (st_registers s ! r)]"]
      by (cases rule: record_register_cases [OF wf, where r = r and env = env])
        (auto simp: set_register_def sn_set_register_def a simulates_tolerated)
  qed
qed

lemma sim_reset_captures:
  "refines s a \<Longrightarrow> sim refines (reset_captures env cs s) (sn_reset_captures cs a)"
proof (induction cs arbitrary: s a)
  case (Cons c cs)
  show ?case
    unfolding reset_captures.simps sn_reset_captures.simps
    by (intro simulates_and_then [OF sim_set_capture] Cons) assumption
qed simp

lemma drop_take_append_drop: "m \<le> n \<Longrightarrow> drop m (take n xs) @ drop n xs = drop m xs"
proof -
  assume "m \<le> n"
  have "drop m xs = drop m (take n xs @ drop n xs)" by simp
  also have "\<dots> = drop m (take n xs) @ drop n xs" using \<open>m \<le> n\<close>
    by (cases "n \<le> length xs") (simp_all only: drop_append, simp_all)
  finally show ?thesis by simp
qed

lemma unwind_resumed:
  "m \<le> n \<Longrightarrow> unwind (drop m (take n log)) (unwind (drop n log) st) = unwind (drop m log) st"
  by (simp flip: unwind_simps(3) add: drop_take_append_drop)

lemma rollback_frame_refines:
  assumes wf: "log_wf s" and fs: "st_controls s = fs @ f # gs"
    and t: "rollback_to (fr_undo_len f) (s\<lparr>st_controls := cs\<rparr>) = Inr t"
  shows "refines (t\<lparr>st_controls := fs, st_position := fr_position f\<rparr>)
    (sn_resume (abs_frame (st_undo s) (st_store s) f) ((abs_state s)\<lparr>sn_frames := take (length fs) (sn_frames (abs_state s))\<rparr>))"
proof -
  let ?n = "fr_undo_len f" and ?st = "unwind (drop (fr_undo_len f) (st_undo s)) (st_store s)"
  have "\<forall>e \<in> set (st_undo s). undo_in_range s e" using wf by (simp add: log_wf_def)
  with t have t: "t = s\<lparr>st_controls := cs, st_captures := fst ?st, st_registers := snd ?st,
      st_undo := take ?n (st_undo s)\<rparr>"
    using rollback_to_eq [of "s\<lparr>st_controls := cs\<rparr>" ?n] by simp
  have le: "fr_undo_len g \<le> ?n" if "g \<in> set fs" for g
    using wf fs that by (auto simp: log_wf_def sorted_append)
  have "undo_in_range (t\<lparr>st_controls := fs, st_position := p\<rparr>) e = undo_in_range s e" for e p
    by (cases e) (simp_all add: t)
  moreover have "?n \<le> length (st_undo s)" using wf fs by (simp add: log_wf_def)
  ultimately have "log_wf (t\<lparr>st_controls := fs, st_position := fr_position f\<rparr>)"
    using wf fs le by (auto simp: log_wf_def sorted_append t dest: in_set_takeD)
  moreover have "map (abs_frame (take ?n (st_undo s)) ?st) fs = map (abs_frame (st_undo s) (st_store s)) fs"
    using le by (auto simp: abs_frame_def unwind_resumed)
  ultimately show ?thesis
    by (simp add: refines_def sn_resume_def abs_state_def fs t) (simp add: abs_frame_def)
qed

lemma sim_restore_backtrack:
  "log_wf s \<Longrightarrow> \<exists>b t. restore_backtrack s = Inr (b, t) \<and> sn_restore (abs_state s) = (b, abs_state t) \<and> log_wf t"
proof (induction s rule: restore_backtrack.induct)
  case (1 s)
  show ?case
  proof (cases "st_controls s" rule: rev_cases)
    case Nil
    then show ?thesis
      using "1.prems"
      by (auto simp: restore_backtrack.simps [of s] sn_restore.simps [of "abs_state s"])
  next
    case (snoc fs f)
    let ?s = "s\<lparr>st_controls := fs\<rparr>"
    obtain t where t: "rollback_to (fr_undo_len f) ?s = Inr t"
      using rollback_to_eq [of ?s "fr_undo_len f"] "1.prems" by (auto simp: log_wf_def)
    let ?t = "t\<lparr>st_position := fr_position f\<rparr>"
    have "t\<lparr>st_controls := fs, st_position := fr_position f\<rparr> = ?t"
      using rollback_to_frame [OF t] by simp
    then have ref: "log_wf ?t" "sn_resume (abs_frame (st_undo s) (st_store s) f)
        ((abs_state s)\<lparr>sn_frames := map (abs_frame (st_undo s) (st_store s)) fs\<rparr>) = abs_state ?t"
      using rollback_frame_refines [OF "1.prems", of fs f "[]" fs t] t snoc by (simp_all add: refines_def)
    have conc: "restore_backtrack s = (case fr_kind f of
            SplitFrame target \<Rightarrow> Inr (True, ?t\<lparr>st_pc := target\<rparr>)
          | LookAheadFrame negative target \<Rightarrow>
              if negative then Inr (True, ?t\<lparr>st_pc := target\<rparr>) else restore_backtrack ?t)"
      using snoc t by (simp add: restore_backtrack.simps [of s] Let_def)
    have abst: "sn_restore (abs_state s) = (case fr_kind f of
            SplitFrame target \<Rightarrow> (True, (abs_state ?t)\<lparr>sn_pc := target\<rparr>)
          | LookAheadFrame negative target \<Rightarrow>
              if negative then (True, (abs_state ?t)\<lparr>sn_pc := target\<rparr>) else sn_restore (abs_state ?t))"
      using snoc ref(2)
      by (simp add: sn_restore.simps [of "abs_state s"] butlast_append Let_def del: abs_state_update
          split: control_kind.split)
    show ?thesis
    proof (cases "fr_kind f")
      case (SplitFrame target)
      with conc abst ref(1) show ?thesis by auto
    next
      case (LookAheadFrame negative target)
      show ?thesis
      proof (cases negative)
        case True
        with LookAheadFrame conc abst ref(1) show ?thesis by auto
      next
        case False
        have "\<exists>b u. restore_backtrack ?t = Inr (b, u) \<and> sn_restore (abs_state ?t) = (b, abs_state u) \<and> log_wf u"
          using "1.IH" [OF _ refl, of t ?t negative target] snoc t LookAheadFrame False ref(1) by simp
        with LookAheadFrame False conc abst show ?thesis by simp
      qed
    qed
  qed
qed

lemma rposition_map: "rposition P (map g xs) = rposition (P \<circ> g) xs"
  by (simp add: rposition_def first_index_def rev_map takeWhile_map comp_def Let_def)

lemma rposition_length: "rposition P xs = Some i \<Longrightarrow> i < length xs"
  by (auto simp: rposition_def first_index_def Let_def split: if_splits option.splits)

lemma sim_reject_negative_lookahead:
  assumes "refines s a"
  shows "sim refines (reject_negative_lookahead pc s) (sn_end_lookahead True pc a)"
proof -
  from assms have wf: "log_wf s" and a: "a = abs_state s" by (simp_all add: refines_def)
  let ?r = "rposition (\<lambda>f. is_lookahead_frame (fr_kind f)) (st_controls s)"
  have r: "rposition (\<lambda>f. is_lookahead_frame (sf_kind f)) (sn_frames a) = ?r"
    by (simp add: a rposition_map comp_def)
  show ?thesis
  proof (cases ?r)
    case None
    with r show ?thesis by (simp add: reject_negative_lookahead_def sn_end_lookahead_def)
  next
    case (Some i)
    let ?f = "st_controls s ! i" and ?fs = "take i (st_controls s)"
    have i: "i < length (st_controls s)" using Some by (rule rposition_length)
    obtain t where t: "rollback_to (fr_undo_len ?f) s = Inr t"
      using rollback_to_eq [of s "fr_undo_len ?f"] wf by (auto simp: log_wf_def)
    have "s\<lparr>st_controls := st_controls s\<rparr> = s" by simp
    with rollback_frame_refines [OF wf id_take_nth_drop [OF i], of "st_controls s" t] t i
    have "refines (t\<lparr>st_controls := ?fs, st_position := fr_position ?f\<rparr>)
      (sn_resume (abs_frame (st_undo s) (st_store s) ?f)
        ((abs_state s)\<lparr>sn_frames := map (abs_frame (st_undo s) (st_store s)) ?fs\<rparr>))"
      by (simp add: take_map)
    then show ?thesis
      using r Some i t rollback_to_frame [OF t]
      by (simp add: reject_negative_lookahead_def sn_end_lookahead_def a Let_def take_map)
  qed
qed

lemma finish_positive_refines:
  assumes wf: "log_wf s" and i: "i < length (st_controls s)"
    and fs: "fs = take i (st_controls s)" and f: "f = st_controls s ! i"
    and log: "log = (case vec_last fs of
        Some outer \<Rightarrow> compact_undo (fr_undo_len outer) (take (fr_undo_len f) (st_undo s))
                        (drop (fr_undo_len f) (st_undo s))
      | None \<Rightarrow> take (fr_undo_len f) (st_undo s))"
  shows "refines (s\<lparr>st_controls := fs, st_position := q, st_undo := log\<rparr>)
    ((abs_state s)\<lparr>sn_frames := map (abs_frame (st_undo s) (st_store s)) fs, sn_position := q\<rparr>)"
proof -
  let ?kept = "take (fr_undo_len f) (st_undo s)" and ?es = "drop (fr_undo_len f) (st_undo s)"
  have split: "st_controls s = fs @ f # drop (Suc i) (st_controls s)"
    using i fs f by (simp add: id_take_nth_drop)
  have "f \<in> set (st_controls s)" using i f by simp
  then have len: "length ?kept = fr_undo_len f" using wf by (simp add: log_wf_def)
  have le: "fr_undo_len g \<le> fr_undo_len f" if "g \<in> set fs" for g
  proof -
    from wf have "sorted (map fr_undo_len (fs @ f # drop (Suc i) (st_controls s)))"
      unfolding log_wf_def using split by metis
    with that show ?thesis by (auto simp: sorted_append)
  qed
  have sorted: "sorted (map fr_undo_len fs)"
    using wf by (simp add: log_wf_def fs sorted_wrt_take flip: take_map)
  have "\<exists>es'. log = ?kept @ es' \<and> set es' \<subseteq> set ?es"
  proof (cases "vec_last fs")
    case None
    with log have "log = ?kept @ []" by simp
    then show ?thesis by (intro exI [of _ "[]"]) simp
  next
    case (Some outer)
    with log show ?thesis using compact_undo_prefix [of "fr_undo_len outer" ?kept ?es] by simp
  qed
  then obtain es' where es': "log = ?kept @ es'" "set es' \<subseteq> set ?es" by blast
  have "set log \<subseteq> set (st_undo s)"
    using es' set_take_subset [of "fr_undo_len f" "st_undo s"]
      set_drop_subset [of "fr_undo_len f" "st_undo s"] by auto
  moreover have "fr_undo_len g \<le> length log" if "g \<in> set fs" for g
    using le [OF that] len es'(1) by simp
  ultimately have "log_wf (s\<lparr>st_controls := fs, st_position := q, st_undo := log\<rparr>)"
    using wf sorted by (auto simp: log_wf_def)
  moreover have "abs_frame log (st_store s) g = abs_frame (st_undo s) (st_store s) g" if g: "g \<in> set fs" for g
  proof -
    from g obtain outer where o: "vec_last fs = Some outer" by (cases "vec_last fs") auto
    then obtain fs' where fs': "fs = fs' @ [outer]" by (auto simp: vec_last_eq_Some)
    have "fr_undo_len g \<le> fr_undo_len outer" using sorted g fs' by (auto simp: sorted_append)
    moreover have "fr_undo_len outer \<le> length ?kept" using le [of outer] fs' len by simp
    ultimately have "unwind (drop (fr_undo_len g) (compact_undo (fr_undo_len outer) ?kept ?es)) (st_store s)
      = unwind (drop (fr_undo_len g) (?kept @ ?es)) (st_store s)"
      by (rule compact_undo_unwind)
    then have "unwind (drop (fr_undo_len g) log) (st_store s)
      = unwind (drop (fr_undo_len g) (st_undo s)) (st_store s)"
      using log o by (simp only: append_take_drop_id option.case)
    then show ?thesis by (simp add: abs_frame_def)
  qed
  ultimately show ?thesis by (simp add: refines_def abs_state_def)
qed

lemma sim_finish_positive_lookahead:
  assumes "refines s a"
  shows "sim refines (finish_positive_lookahead pc s) (sn_end_lookahead False pc a)"
proof -
  from assms have wf: "log_wf s" and a: "a = abs_state s" by (simp_all add: refines_def)
  let ?r = "rposition (\<lambda>f. is_lookahead_frame (fr_kind f)) (st_controls s)"
  have r: "rposition (\<lambda>f. is_lookahead_frame (sf_kind f)) (sn_frames a) = ?r"
    by (simp add: a rposition_map comp_def)
  show ?thesis
  proof (cases ?r)
    case None
    with r show ?thesis by (simp add: finish_positive_lookahead_def sn_end_lookahead_def)
  next
    case (Some i)
    let ?f = "st_controls s ! i" and ?fs = "take i (st_controls s)"
    have i: "i < length (st_controls s)" using Some by (rule rposition_length)
    have "sorted (map fr_undo_len (?fs @ [?f]))"
      using wf i by (simp add: log_wf_def flip: take_Suc_conv_app_nth) (simp add: sorted_wrt_take flip: take_map)
    then have "fr_undo_len outer \<le> fr_undo_len ?f" if "vec_last ?fs = Some outer" for outer
      using that by (auto simp: vec_last_eq_Some sorted_append)
    then show ?thesis
      using finish_positive_refines [OF wf i refl refl refl, of "fr_position ?f"] r Some i
      by (auto simp: finish_positive_lookahead_def sn_end_lookahead_def a Let_def take_map
          split: option.splits)
  qed
qed

section \<open>Steps, attempts and searches\<close>

fun branch_refines :: "branch \<Rightarrow> snapshot_branch \<Rightarrow> bool" where
  "branch_refines (Advance s) (SnAdvance a) \<longleftrightarrow> refines s a"
| "branch_refines (FailBranch s) (SnFailBranch a) \<longleftrightarrow> refines s a"
| "branch_refines (Accept m) (SnAccept m') \<longleftrightarrow> m = m'"
| "branch_refines _ _ \<longleftrightarrow> False"

lemma refines_sel:
  "refines s a \<Longrightarrow> sn_pc a = st_pc s"
  "refines s a \<Longrightarrow> sn_position a = st_position s"
  "refines s a \<Longrightarrow> sn_captures a = st_captures s"
  "refines s a \<Longrightarrow> sn_registers a = st_registers s"
  by (simp_all add: refines_def)

lemma refines_update:
  "refines s a \<Longrightarrow> refines (s\<lparr>st_pc := n\<rparr>) (a\<lparr>sn_pc := n\<rparr>)"
  "refines s a \<Longrightarrow> refines (s\<lparr>st_position := n\<rparr>) (a\<lparr>sn_position := n\<rparr>)"
  by (simp_all add: refines_def)

lemma branch_refines_consume:
  "refines s a \<Longrightarrow> branch_refines (consume s reading accepted) (sn_consume a reading accepted)"
  by (auto simp: consume_def sn_consume_def refines_update split: option.splits)

lemma branch_refines_guard: "refines s a \<Longrightarrow> branch_refines (guard s b) (sn_guard a b)"
  by (simp add: guard_def sn_guard_def)

lemma branch_refines_move_to: "refines s a \<Longrightarrow> branch_refines (move_to s target) (sn_move_to a target)"
  by (auto simp: move_to_def sn_move_to_def refines_update split: option.splits)

lemma sim_advancing: "sim refines r r' \<Longrightarrow> sim branch_refines (advancing r) (sn_advancing r')"
  by (auto simp: advancing_def sn_advancing_def elim: simulates_and_then)

lemma sim_backreference:
  assumes "refines s a"
  shows "sim branch_refines
    (and_then (participating slots refs) (\<lambda>group.
       case group of None \<Rightarrow> Inr (Advance s) | Some (x, y) \<Rightarrow> Inr (move_to s (m x y))))
    (and_then (participating slots refs) (\<lambda>group.
       case group of None \<Rightarrow> Inr (SnAdvance a) | Some (x, y) \<Rightarrow> Inr (sn_move_to a (m x y))))"
  using assms by (auto intro!: simulates_and_then_same branch_refines_move_to split: option.split)

lemma sim_finish_match:
  "refines s a \<Longrightarrow> sim branch_refines (and_then (finish_match env s) (\<lambda>m. Inr (Accept m)))
     (and_then (collect_captures (sn_captures a) [0..<length (sn_captures a) div 2]) (\<lambda>m. Inr (SnAccept m)))"
  by (auto simp: finish_match_def try_reserve_def refines_sel simulates_tolerated
      intro!: simulates_and_then_same)

lemma sim_loop:
  assumes "refines s a"
  shows "sim branch_refines (exec_instruction env input unicode pc (ILoop r target) s)
    (sn_instruction env input unicode pc (ILoop r target) a)"
proof -
  have "sim branch_refines
      (and_then (set_register env (unat r) (Counter n) s) (\<lambda>t. Inr (Advance (if c then t\<lparr>st_pc := target\<rparr> else t))))
      (and_then (sn_set_register (unat r) (Counter n) a) (\<lambda>t. Inr (SnAdvance (if c then t\<lparr>sn_pc := target\<rparr> else t))))" for n c
    by (rule simulates_and_then [OF sim_set_register [OF assms]]) (simp add: refines_update)
  then show ?thesis
    by (auto simp: refines_sel [OF assms] intro!: simulates_and_then_same split: register_value.split)
qed

lemma sim_check_advance:
  assumes "refines s a"
  shows "sim branch_refines (exec_instruction env input unicode pc (ICheckAdvance r) s)
    (sn_instruction env input unicode pc (ICheckAdvance r) a)"
  by (auto simp: refines_sel [OF assms] branch_refines_guard [OF assms] intro!: simulates_and_then_same
      split: register_value.split)

lemma sim_lookahead_end:
  assumes "refines s a"
  shows "sim branch_refines (exec_instruction env input unicode pc (ILookAheadEnd negative) s)
    (sn_instruction env input unicode pc (ILookAheadEnd negative) a)"
  using simulates_and_then [OF sim_reject_negative_lookahead [OF assms], where S = branch_refines]
    sim_finish_positive_lookahead [OF assms, THEN sim_advancing]
  by (cases negative) (simp_all add: sn_advancing_def)

lemma sim_push_instruction:
  assumes "refines s a"
  shows "sim branch_refines (exec_instruction env input unicode pc (ILookAhead negative target) s)
      (sn_instruction env input unicode pc (ILookAhead negative target) a)"
    "sim branch_refines (exec_instruction env input unicode pc (ISplit first second) s)
      (sn_instruction env input unicode pc (ISplit first second) a)"
  using simulates_and_then [OF sim_push_control [OF assms, of env "LookAheadFrame negative target"],
      of branch_refines "\<lambda>t. Inr (Advance t)" "\<lambda>t. Inr (SnAdvance t)"]
    simulates_and_then [OF sim_push_control [OF assms, of env "SplitFrame second"],
      of branch_refines "\<lambda>t. Inr (Advance (t\<lparr>st_pc := first\<rparr>))" "\<lambda>t. Inr (SnAdvance (t\<lparr>sn_pc := first\<rparr>))"]
  by (simp_all add: advancing_def push_lookahead_def push_backtrack_def refines_update)

lemma sim_instruction:
  assumes "refines s a"
  shows "sim branch_refines (exec_instruction env input unicode pc i s)
    (sn_instruction env input unicode pc i a)"
proof (cases i)
  case (IBackReference refs ignore_case)
  then show ?thesis using sim_backreference [OF assms] by (simp add: refines_sel [OF assms])
next
  case (IBackwardBackReference refs ignore_case)
  then show ?thesis using sim_backreference [OF assms] by (simp add: refines_sel [OF assms])
next
  case (ILookAhead negative target)
  then show ?thesis using sim_push_instruction [OF assms] by simp
next
  case (ISplit first second)
  then show ?thesis using sim_push_instruction [OF assms] by simp
next
  case (ILookAheadEnd negative)
  then show ?thesis using sim_lookahead_end [OF assms] by simp
next
  case (ILoop register target)
  then show ?thesis using sim_loop [OF assms] by simp
next
  case (ICheckAdvance register)
  then show ?thesis using sim_check_advance [OF assms] by simp
next
  case IMatch
  then show ?thesis using sim_finish_match [OF assms] by simp
qed (use assms in \<open>simp_all add: refines_sel branch_refines_consume branch_refines_guard
    branch_refines_move_to refines_update sim_advancing sim_set_capture sim_set_register
    sim_reset_captures\<close>)

fun progress_refines :: "progress \<Rightarrow> snapshot_progress \<Rightarrow> bool" where
  "progress_refines (Running p s) (SnRunning p' a) \<longleftrightarrow> p = p' \<and> refines s a"
| "progress_refines (Finished m p s) (SnFinished m' p' a) \<longleftrightarrow> m = m' \<and> p = p' \<and> refines s a"
| "progress_refines _ _ \<longleftrightarrow> False"

lemma sim_continue_with:
  assumes "branch_refines b b'" "refines s a"
  shows "sim progress_refines (continue_with p s b) (Inr (sn_continue_with p a b'))"
proof (cases b)
  case (FailBranch t)
  with assms obtain t' where t': "b' = SnFailBranch t'" "refines t t'" by (cases b') auto
  then obtain r u where "restore_backtrack t = Inr (r, u)" "sn_restore t' = (r, abs_state u)" "log_wf u"
    using sim_restore_backtrack [of t] by (auto simp: refines_def)
  with FailBranch t' show ?thesis
    by (simp add: continue_with_def sn_continue_with_def fail_branch_def refines_def)
qed (use assms in \<open>cases b'; simp add: continue_with_def sn_continue_with_def\<close>)+

lemma sim_iteration:
  assumes "refines s a"
  shows "sim progress_refines (iteration env P input unicode p s) (sn_iteration env P input unicode p a)"
proof -
  have r: "refines (s\<lparr>st_pc := n\<rparr>) (a\<lparr>sn_pc := n\<rparr>)" for n using assms by (rule refines_update)
  have "sim progress_refines
      (and_then (exec_instruction env input unicode pc i (s\<lparr>st_pc := n\<rparr>)) (continue_with q (s\<lparr>st_pc := n\<rparr>)))
      (and_then (sn_instruction env input unicode pc i (a\<lparr>sn_pc := n\<rparr>)) (\<lambda>b. Inr (sn_continue_with q (a\<lparr>sn_pc := n\<rparr>) b)))"
    for pc i n q
    by (intro simulates_and_then [OF sim_instruction [OF r]] sim_continue_with r)
  then show ?thesis
    by (cases "vec_get_opt (instructions P) (st_pc s)")
      (auto simp: iteration_def sn_iteration_def refines_sel [OF assms] Let_def
        intro!: simulates_and_then_same)
qed

text \<open>A run that is still within its memory budget is the reference run, step for step.\<close>

definition run_refines ::
  "(regexp_match option \<times> poller \<times> attempt_state) exec option \<Rightarrow>
   (regexp_match option \<times> poller \<times> snapshot_state) exec option \<Rightarrow> bool" where
  "run_refines r r' =
     (case r of
        None \<Rightarrow> r' = None
      | Some c \<Rightarrow> c = Inl (Err OutOfMemory) \<or>
          (\<exists>a. r' = Some a \<and> sim (\<lambda>(m, p, s) (m', p', t). m = m' \<and> p = p' \<and> refines s t) c a))"

lemma run_refines_intro:
  "sim progress_refines c a \<Longrightarrow> (\<And>p s t. refines s t \<Longrightarrow> run_refines (run p s) (run' p t)) \<Longrightarrow>
   run_refines
     (case c of Inl e \<Rightarrow> Some (Inl e) | Inr (Running p s) \<Rightarrow> run p s
      | Inr (Finished m p s) \<Rightarrow> Some (Inr (m, p, s)))
     (case a of Inl e \<Rightarrow> Some (Inl e) | Inr (SnRunning p s) \<Rightarrow> run' p s
      | Inr (SnFinished m p s) \<Rightarrow> Some (Inr (m, p, s)))"
  by (cases c; cases a)
    (auto simp: simulates_def run_refines_def split: progress.splits snapshot_progress.splits)

lemma run_attempt_refines:
  "refines s a \<Longrightarrow>
     run_refines (run_attempt fuel env P input unicode p s) (sn_run fuel env P input unicode p a)"
proof (induction fuel arbitrary: p s a)
  case 0
  show ?case by (simp add: run_refines_def)
next
  case (Suc fuel)
  show ?case
    unfolding run_attempt.simps sn_run.simps
    by (rule run_refines_intro [OF sim_iteration [OF Suc.prems]]) (rule Suc.IH)
qed

lemma refines_reset:
  assumes "refines s a"
  shows "refines (reset candidate s) (sn_reset candidate a)"
  using assms by (simp add: refines_def log_wf_def reset_def sn_reset_def abs_state_def)

lemma run_refines_cases:
  assumes "run_refines r r'"
  obtains (stop) "r = Some (Inl (Err OutOfMemory))"
    | (none) "r = None" "r' = None" | (error) e where "r = Some (Inl e)" "r' = Some (Inl e)"
    | (result) m q t b where "r = Some (Inr (m, q, t))" "r' = Some (Inr (m, q, b))" "refines t b"
proof (cases r)
  case None
  with assms none show ?thesis by (simp add: run_refines_def)
next
  case (Some c)
  with assms stop error result show ?thesis
    by (cases c) (auto simp: run_refines_def simulates_def)
qed

lemma search_refines:
  assumes "candidate \<le> length input" "refines s a"
  shows "search fuel env P input unicode candidate p s = Some (Inl (Err OutOfMemory))
    \<or> search fuel env P input unicode candidate p s = sn_search fuel env P input unicode candidate p a"
  using assms
proof (induction fuel env P input unicode candidate p a arbitrary: s rule: sn_search.induct)
  case (1 fuel env P input unicode candidate p a)
  let ?r = "run_attempt fuel env P input unicode p (reset candidate s)"
    and ?r' = "sn_run fuel env P input unicode p (sn_reset candidate a)"
  have run: "run_refines ?r ?r'"
    using "1.prems"(2) by (intro run_attempt_refines refines_reset)
  note unfold = search.simps [of fuel env P input unicode candidate p s]
    sn_search.simps [of fuel env P input unicode candidate p a]
  consider (stop) "?r = Some (Inl (Err OutOfMemory))"
    | (none) "?r = None" "?r' = None" | (error) e where "?r = Some (Inl e)" "?r' = Some (Inl e)"
    | (result) m q t b where "?r = Some (Inr (m, q, t))" "?r' = Some (Inr (m, q, b))" "refines t b"
    by (rule run_refines_cases [OF run])
  then show ?case
  proof cases
    case (result m q t b)
    show ?thesis
    proof (cases "m = None \<and> \<not> flags_contains (program_flags P) STICKY \<and> candidate < length input")
      case True
      then have "advance_string_index input candidate unicode \<le> length input"
        using advance_string_index_advances by blast
      with "1.IH" [OF result(2) refl refl _ refl, of t] True result(3)
      show ?thesis by (simp add: unfold result)
    next
      case False
      with "1.prems"(1) show ?thesis by (cases m) (auto simp: unfold result)
    qed
  qed (simp_all add: unfold)
qed

lemma normalize_start_le: "start \<le> length input \<Longrightarrow> normalize_start input start unicode \<le> length input"
  by (auto simp: normalize_start_def)

lemma execute_units_refines:
  "execute_units fuel env P input start = Some (Inl (Err OutOfMemory))
   \<or> execute_units fuel env P input start = sn_execute fuel env P input start"
proof -
  let ?u = "is_unicode (program_flags P)"
  let ?c = "normalize_start input start ?u"
  show ?thesis
  proof (cases "length input < start \<or> oom env 0 \<or> oom env 1")
    case True
    then show ?thesis
      by (auto simp: execute_units_def sn_execute_def new_state_def)
  next
    case False
    then obtain s where s: "new_state env (capture_count P) (register_count P) ?c = Inr s"
      by (simp add: new_state_def)
    then have "refines s \<lparr>sn_pc = 0, sn_position = ?c,
        sn_captures = replicate (unat (capture_count P) * 2) None,
        sn_registers = replicate (unat (register_count P)) Unset, sn_frames = []\<rparr>"
      by (auto simp: new_state_def refines_def log_wf_def abs_state_def split: if_splits)
    then have "search fuel env P input ?u ?c new_poller s = Some (Inl (Err OutOfMemory))
      \<or> search fuel env P input ?u ?c new_poller s = sn_search fuel env P input ?u ?c new_poller
         \<lparr>sn_pc = 0, sn_position = ?c,
          sn_captures = replicate (unat (capture_count P) * 2) None,
          sn_registers = replicate (unat (register_count P)) Unset, sn_frames = []\<rparr>"
      using False by (intro search_refines normalize_start_le) simp
    with False s show ?thesis
      by (simp add: execute_units_def sn_execute_def Let_def)
  qed
qed

text \<open>C1. Correctness of the undo log: on every program, input and start position, and for every
  behaviour of the interrupt hook and the allocator, the executor that restores captures and
  registers from its undo log returns exactly what the reference matcher, which copies them into
  every control frame, returns: the same match, the same failure to match, the same error, and the
  same exhaustion of fuel, unless the executor runs out of memory.\<close>

theorem execute_refines_snapshot:
  "execute_with_interrupt fuel env P input start = Some (Inl (Err OutOfMemory))
   \<or> execute_with_interrupt fuel env P input start = sn_execute fuel env P input start"
  unfolding execute_with_interrupt_def by (rule execute_units_refines)

end
