(* ===== verification/RegExp_Invariant.thy ===== *)
theory RegExp_Invariant
  imports RegExp_Refinement
begin

text \<open>
  Invariants of the matcher. \<open>matcher_invariant\<close> is the interface between a state invariant and the
  search loop: whoever shows that a predicate holds at the start of an attempt and survives one
  iteration of the dispatch loop learns what it gives for every result of \<open>execute\<close>. The first
  interpretation is the one on positions: every position the matcher visits or captures lies in the
  input, and in Unicode mode never between the two halves of a surrogate pair.
\<close>

section \<open>Character boundaries\<close>

definition aligned :: "u16 list \<Rightarrow> bool \<Rightarrow> nat \<Rightarrow> bool" where
  "aligned input unicode p \<longleftrightarrow>
     p \<le> length input \<and>
     \<not> (unicode \<and> 0 < p \<and> p < length input
        \<and> is_high_surrogate (input ! (p - 1)) \<and> is_low_surrogate (input ! p))"

lemma aligned_length [simp]: "aligned input unicode (length input)"
  by (simp add: aligned_def)

lemma surrogates_disjoint: "is_high_surrogate u \<Longrightarrow> \<not> is_low_surrogate u"
  using order_trans [of "0xdc00" u "0xdbff"] by (auto simp: is_high_surrogate_def is_low_surrogate_def)

lemma read_character_aligned:
  "read_character input p unicode = Some (c, q) \<Longrightarrow> aligned input unicode q"
  by (auto simp: read_character_def aligned_def vec_get_opt_def
      split: if_splits option.splits dest: surrogates_disjoint)

lemma read_previous_character_aligned:
  assumes "read_previous_character_bounded input p 0 unicode = Some (c, q)"
  shows "aligned input unicode q"
  using assms
  by (auto simp: read_previous_character_bounded_def aligned_def vec_get_opt_def numeral_2_eq_2
      split: if_splits dest: surrogates_disjoint)

lemma normalize_start_aligned:
  "start \<le> length input \<Longrightarrow> aligned input unicode (normalize_start input start unicode)"
  by (auto simp: normalize_start_def aligned_def dest: surrogates_disjoint)

lemma advance_string_index_aligned:
  "p \<le> length input \<Longrightarrow> aligned input unicode (advance_string_index input p unicode)"
  by (auto simp: advance_string_index_def split: option.splits intro: read_character_aligned)

lemma match_back_reference_loop_aligned:
  assumes "match_back_reference_loop env ci input cp ce ip unicode ic = Some q" "aligned input unicode ip"
  shows "aligned input unicode q"
  using assms
proof (induction env ci input cp ce ip unicode ic rule: match_back_reference_loop.induct)
  case (1 env ci input cp ce ip unicode ic)
  show ?case
  proof (cases "cp < ce")
    case True
    with "1.prems"(1) obtain a cp' b ip' where
      reads: "read_character ci cp unicode = Some (a, cp')" "read_character input ip unicode = Some (b, ip')"
      and same: "\<not> fold_case env unicode ic a \<noteq> fold_case env unicode ic b"
      and rest: "match_back_reference_loop env ci input cp' ce ip' unicode ic = Some q"
      by (subst (asm) match_back_reference_loop.simps) (auto split: if_splits option.splits)
    show ?thesis
      by (rule "1.IH" [OF True reads(1) refl reads(2) refl same rest read_character_aligned [OF reads(2)]])
  next
    case False
    with "1.prems" show ?thesis by (subst (asm) match_back_reference_loop.simps) simp
  qed
qed

lemma match_backward_back_reference_loop_aligned:
  assumes "match_backward_back_reference_loop env input cs cp ip unicode ic = Some q"
    "aligned input unicode ip"
  shows "aligned input unicode q"
  using assms
proof (induction env input cs cp ip unicode ic rule: match_backward_back_reference_loop.induct)
  case (1 env input cs cp ip unicode ic)
  show ?case
  proof (cases "cs < cp")
    case True
    with "1.prems"(1) obtain a cp' b ip' where
      reads: "read_previous_character_bounded input cp cs unicode = Some (a, cp')"
        "read_previous_character_bounded input ip 0 unicode = Some (b, ip')"
      and same: "\<not> fold_case env unicode ic a \<noteq> fold_case env unicode ic b"
      and rest: "match_backward_back_reference_loop env input cs cp' ip' unicode ic = Some q"
      by (subst (asm) match_backward_back_reference_loop.simps) (auto split: if_splits option.splits)
    show ?thesis
      by (rule "1.IH" [OF True reads(1) refl reads(2) refl same rest
            read_previous_character_aligned [OF reads(2)]])
  next
    case False
    with "1.prems" show ?thesis
      by (subst (asm) match_backward_back_reference_loop.simps) (simp split: if_splits)
  qed
qed

section \<open>The interface\<close>

definition sized :: "program \<Rightarrow> store \<Rightarrow> bool" where
  "sized P m \<longleftrightarrow>
     length (fst m) = unat (capture_count P) * 2 \<and> length (snd m) = unat (register_count P)"

definition sn_store :: "snapshot_state \<Rightarrow> store" where
  "sn_store s = (sn_captures s, sn_registers s)"

fun progress_ok ::
  "program \<Rightarrow> (snapshot_state \<Rightarrow> bool) \<Rightarrow> (regexp_match \<Rightarrow> bool) \<Rightarrow> snapshot_progress \<Rightarrow> bool" where
  "progress_ok P Q good (SnRunning p s) \<longleftrightarrow> Q s"
| "progress_ok P Q good (SnFinished None p s) \<longleftrightarrow> sized P (sn_store s)"
| "progress_ok P Q good (SnFinished (Some m) p s) \<longleftrightarrow> good m"

locale matcher_invariant =
  fixes admissible :: "program \<Rightarrow> bool"
    and Inv :: "program \<Rightarrow> u16 list \<Rightarrow> snapshot_state \<Rightarrow> bool"
    and allowed :: "program \<Rightarrow> exec_error fault \<Rightarrow> bool"
    and good :: "program \<Rightarrow> u16 list \<Rightarrow> regexp_match \<Rightarrow> bool"
  assumes entry: "admissible P \<Longrightarrow> sized P (sn_store s)
      \<Longrightarrow> aligned input (is_unicode (program_flags P)) c \<Longrightarrow> Inv P input (sn_reset c s)"
    and step: "admissible P \<Longrightarrow> Inv P input s
      \<Longrightarrow> ensures (allowed P) (progress_ok P (Inv P input) (good P input))
            (sn_iteration env P input (is_unicode (program_flags P)) p s)"
    and out_of_memory: "allowed P (Err OutOfMemory)"
begin

lemma run_ok:
  assumes "admissible P" "Inv P input s"
    and "sn_run fuel env P input (is_unicode (program_flags P)) p s = Some r"
  shows "ensures (allowed P)
    (\<lambda>(m, _, t). case m of None \<Rightarrow> sized P (sn_store t) | Some m \<Rightarrow> good P input m) r"
  using assms(2,3)
proof (induction fuel arbitrary: p s)
  case (Suc fuel)
  from step [OF assms(1) Suc.prems(1), of env p] Suc.IH Suc.prems(2) show ?case
    by (auto split: sum.splits snapshot_progress.splits option.splits)
qed simp

lemma search_ok:
  assumes "admissible P" "sized P (sn_store s)" "aligned input (is_unicode (program_flags P)) c"
    and "sn_search fuel env P input (is_unicode (program_flags P)) c p s = Some r"
  shows "ensures (allowed P) (\<lambda>m. case m of None \<Rightarrow> True | Some m \<Rightarrow> good P input m) r"
  using assms(2-4)
proof (induction "length input - c" arbitrary: c p s rule: less_induct)
  case less
  let ?u = "is_unicode (program_flags P)"
  let ?run = "sn_run fuel env P input ?u p (sn_reset c s)"
  note run = run_ok [OF assms(1) entry [OF assms(1) less.prems(1,2)], of fuel env p]
  note unfold = sn_search.simps [of fuel env P input ?u c p s]
  show ?case
  proof (cases ?run)
    case None
    with less.prems(3) show ?thesis by (simp add: unfold)
  next
    case (Some a)
    show ?thesis
    proof (cases a)
      case (Inl e)
      with run [OF Some] Some less.prems(3) show ?thesis by (auto simp: unfold)
    next
      case (Inr x)
      obtain m q t where x: "x = (m, q, t)" by (cases x)
      show ?thesis
      proof (cases "m = None \<and> \<not> flags_contains (program_flags P) STICKY \<and> c < length input")
        case True
        then have "length input - advance_string_index input c ?u < length input - c"
          using advance_string_index_advances [of c input ?u] by auto
        moreover have "sized P (sn_store t)" using run [OF Some] Inr x True by simp
        moreover have "sn_search fuel env P input ?u (advance_string_index input c ?u) q t = Some r"
          using less.prems(3) Some Inr x True by (simp add: unfold)
        ultimately show ?thesis
          using less.hyps advance_string_index_aligned [of c input ?u] True by simp
      next
        case False
        with run [OF Some] Some Inr x less.prems(3) show ?thesis
          by (cases m) (auto simp: unfold)
      qed
    qed
  qed
qed

lemma execute_ok:
  assumes "admissible P" "start \<le> length input" "execute_units fuel env P input start = Some r"
  shows "ensures (allowed P) (\<lambda>m. case m of None \<Rightarrow> True | Some m \<Rightarrow> good P input m) r"
proof -
  consider "r = Inl (Err OutOfMemory)" | "sn_execute fuel env P input start = Some r"
    using execute_units_refines [of fuel env P input start] assms(3) by auto
  then show ?thesis
  proof cases
    case 1
    then show ?thesis using out_of_memory by simp
  next
    case 2
    with assms(1,2) show ?thesis
      by (auto simp: sn_execute_def Let_def sized_def sn_store_def
          intro!: search_ok [OF assms(1) _ normalize_start_aligned])
  qed
qed

end

fun branch_ok ::
  "(snapshot_state \<Rightarrow> bool) \<Rightarrow> (snapshot_state \<Rightarrow> bool) \<Rightarrow> (regexp_match \<Rightarrow> bool) \<Rightarrow> snapshot_branch \<Rightarrow> bool"
where
  "branch_ok Q B good (SnAdvance s) \<longleftrightarrow> Q s"
| "branch_ok Q B good (SnFailBranch s) \<longleftrightarrow> B s"
| "branch_ok Q B good (SnAccept m) \<longleftrightarrow> good m"

text \<open>An iteration keeps an invariant if its instruction does and backtracking re-establishes it.\<close>

lemma iteration_ok:
  assumes stop: "A (Err Interrupted)" "length (instructions P) \<le> sn_pc s \<Longrightarrow>
      A (Err (InvalidProgram (ProgramCounter (sn_pc s))))"
    and instruction: "\<And>i. sn_pc s < length (instructions P) \<Longrightarrow> i = instructions P ! sn_pc s \<Longrightarrow>
      ensures A (branch_ok Q B good) (sn_instruction env input unicode (sn_pc s) i
        (s\<lparr>sn_pc := Suc (sn_pc s)\<rparr>))"
    and restore: "\<And>t resumed u. B t \<Longrightarrow> sn_restore t = (resumed, u) \<Longrightarrow>
      if resumed then Q u else sized P (sn_store u)"
  shows "ensures A (progress_ok P Q good) (sn_iteration env P input unicode p s)"
proof -
  let ?s = "s\<lparr>sn_pc := Suc (sn_pc s)\<rparr>"
  have continue: "progress_ok P Q good (sn_continue_with q ?s b)" if "branch_ok Q B good b" for q b
    using that
  proof (cases b)
    case (SnFailBranch t)
    with that restore [of t] show ?thesis
      by (cases "sn_restore t") (auto simp: sn_continue_with_def split: if_splits)
  qed (simp_all add: sn_continue_with_def)
  have "ensures A (progress_ok P Q good)
      (case vec_get_opt (instructions P) (sn_pc s) of
         None \<Rightarrow> program_fault (ProgramCounter (sn_pc s))
       | Some i \<Rightarrow> and_then (sn_instruction env input unicode (sn_pc s) i ?s)
           (\<lambda>b. Inr (sn_continue_with q ?s b)))" for q
  proof (cases "sn_pc s < length (instructions P)")
    case True
    then show ?thesis
      by (auto simp: vec_get_opt_def continue intro!: ensures_and_then [OF instruction])
  qed (use stop(2) in \<open>simp add: vec_get_opt_def\<close>)
  moreover have "ensures A (\<lambda>_. True) (poller_step env p)"
    using stop(1) by (simp add: poller_step_def Let_def)
  ultimately show ?thesis
    unfolding sn_iteration_def Let_def by (rule ensures_and_then [rotated])
qed

lemma sn_store_update [simp]:
  "sn_store (s\<lparr>sn_pc := a\<rparr>) = sn_store s" "sn_store (s\<lparr>sn_position := p\<rparr>) = sn_store s"
  "sn_store (s\<lparr>sn_frames := fs\<rparr>) = sn_store s"
  "sn_store (s\<lparr>sn_captures := cs\<rparr>) = (cs, sn_registers s)"
  "sn_store (s\<lparr>sn_registers := rs\<rparr>) = (sn_captures s, rs)"
  "sn_store (sn_push kind s) = sn_store s" "sn_store (sn_resume f s) = sf_store f"
  by (simp_all add: sn_store_def sn_push_def sn_resume_def)

lemma sn_store_reset [simp]:
  "sn_store (sn_reset c s) = (map (\<lambda>_. None) (sn_captures s), map (\<lambda>_. Unset) (sn_registers s))"
  by (simp add: sn_store_def sn_reset_def)

section \<open>A worked example\<close>

text \<open>
  The program of \<open>/(?=(\<close>U+1F600\<open>))\1b*/u\<close>: a lookahead that captures, a back-reference to its
  capture and a greedy loop. The input has the character as a surrogate pair after an \<open>a\<close>.
\<close>

definition example_env :: exec_env where
  "example_env = \<lparr>interrupted = (\<lambda>_. False), oom = (\<lambda>_. False), canonicalize = (\<lambda>c _. c)\<rparr>"

definition example_program :: program where
  "example_program = \<lparr>program_flags = 16, capture_count = 2, register_count = 0,
     instructions =
       [ISaveStart 0, ILookAhead False 6, ISaveStart 1, IChar 0x1f600 False, ISaveEnd 1,
        ILookAheadEnd False, IBackReference [1] False, ISplit 8 10, IChar 0x62 False, IJump 7,
        ISaveEnd 0, IMatch],
     group_names = None\<rparr>"

definition example_input :: "u16 list" where
  "example_input = [0x61, 0xd83d, 0xde00, 0x62, 0x62]"

lemma example_execute:
  "execute_with_interrupt 100 example_env example_program example_input 0
   = Some (Inr (Some [Some (1, 5), Some (1, 3)]))"
  by code_simp

section \<open>Positions\<close>

definition positions_ok :: "program \<Rightarrow> u16 list \<Rightarrow> nat \<Rightarrow> store \<Rightarrow> bool" where
  "positions_ok P input p m \<longleftrightarrow>
     aligned input (is_unicode (program_flags P)) p \<and>
     (\<forall>q. Some q \<in> set (fst m) \<longrightarrow> aligned input (is_unicode (program_flags P)) q) \<and> sized P m"

definition position_invariant :: "program \<Rightarrow> u16 list \<Rightarrow> snapshot_state \<Rightarrow> bool" where
  "position_invariant P input s \<longleftrightarrow>
     positions_ok P input (sn_position s) (sn_store s) \<and>
     (\<forall>f \<in> set (sn_frames s). positions_ok P input (sf_position f) (sf_store f))"

definition good_match :: "program \<Rightarrow> u16 list \<Rightarrow> regexp_match \<Rightarrow> bool" where
  "good_match P input m \<longleftrightarrow>
     length m = unat (capture_count P) \<and>
     (\<forall>(a, b) \<in> {r. Some r \<in> set m}. a \<le> b
        \<and> aligned input (is_unicode (program_flags P)) a \<and> aligned input (is_unicode (program_flags P)) b)"

lemma position_invariant_pc [simp]:
  "position_invariant P input (s\<lparr>sn_pc := a\<rparr>) \<longleftrightarrow> position_invariant P input s"
  by (simp add: position_invariant_def)

lemma position_invariant_move:
  "position_invariant P input s \<Longrightarrow> aligned input (is_unicode (program_flags P)) p \<Longrightarrow>
     position_invariant P input (s\<lparr>sn_position := p\<rparr>)"
  by (simp add: position_invariant_def positions_ok_def)

lemma position_invariant_aligned:
  "position_invariant P input s \<Longrightarrow> aligned input (is_unicode (program_flags P)) (sn_position s)"
  by (simp add: position_invariant_def positions_ok_def)

lemma position_invariant_resume:
  "position_invariant P input s \<Longrightarrow> f \<in> set (sn_frames s) \<Longrightarrow> set fs \<subseteq> set (sn_frames s) \<Longrightarrow>
     position_invariant P input (sn_resume f (s\<lparr>sn_frames := fs\<rparr>))"
  by (auto simp: position_invariant_def sn_resume_def sn_store_def)

lemma position_invariant_push:
  "position_invariant P input s \<Longrightarrow> position_invariant P input (sn_push kind s)"
  by (auto simp: position_invariant_def sn_push_def sn_store_def)

lemma position_invariant_restore:
  "position_invariant P input s \<Longrightarrow> position_invariant P input (snd (sn_restore s))"
proof (induction s rule: sn_restore.induct)
  case (1 s)
  show ?case
  proof (cases "sn_frames s = []")
    case True
    with "1.prems" show ?thesis by (simp add: sn_restore.simps)
  next
    case False
    let ?f = "last (sn_frames s)"
    have resumed: "position_invariant P input (sn_resume ?f (s\<lparr>sn_frames := butlast (sn_frames s)\<rparr>))"
      using False "1.prems" by (intro position_invariant_resume) (auto dest: in_set_butlastD)
    show ?thesis
    proof (cases "sf_kind ?f")
      case (SplitFrame target)
      with False resumed show ?thesis by (subst sn_restore.simps) (simp add: Let_def)
    next
      case (LookAheadFrame negative target)
      with False resumed "1.IH" [OF False refl refl LookAheadFrame] show ?thesis
        by (subst sn_restore.simps) (simp add: Let_def)
    qed
  qed
qed

lemma position_invariant_set_capture:
  assumes "position_invariant P input s" "\<And>q. v = Some q \<Longrightarrow> aligned input (is_unicode (program_flags P)) q"
  shows "ensures (\<lambda>_. True) (position_invariant P input) (sn_set_capture slot v s)"
  using assms
  by (intro ensures_any)
    (auto simp: sn_set_capture_def and_then_eq_Inr vec_set_eq_Inr position_invariant_def positions_ok_def
      sized_def sn_store_def dest!: set_update_subset_insert [THEN subsetD])

lemma position_invariant_set_register:
  assumes "position_invariant P input s"
  shows "ensures (\<lambda>_. True) (position_invariant P input) (sn_set_register register v s)"
  using assms
  by (intro ensures_any)
    (auto simp: sn_set_register_def and_then_eq_Inr vec_set_eq_Inr position_invariant_def positions_ok_def
      sized_def sn_store_def)

lemma position_invariant_reset_captures:
  assumes "position_invariant P input s"
  shows "ensures (\<lambda>_. True) (position_invariant P input) (sn_reset_captures cs s)"
  using assms
  by (induction cs arbitrary: s)
    (auto intro!: ensures_and_then [OF position_invariant_set_capture])

lemma collect_captures_good:
  assumes "collect_captures slots cs = Inr m" "\<forall>c \<in> set cs. c * 2 + 1 < length slots"
    and "\<And>q. Some q \<in> set slots \<Longrightarrow> Q q"
  shows "length m = length cs \<and> (\<forall>a b. Some (a, b) \<in> set m \<longrightarrow> a \<le> b \<and> Q a \<and> Q b)"
  using assms(1,2)
proof (induction cs arbitrary: m)
  case (Cons c cs)
  let ?a = "slots ! (c * 2)" and ?b = "slots ! (c * 2 + 1)"
  from Cons.prems(1) obtain r rest where r: "match_range c ?a ?b = Inr r"
    and rest: "collect_captures slots cs = Inr rest" and m: "m = r # rest"
    by (auto simp: and_then_eq_Inr split: sum.splits)
  from r have "r = None \<or> (\<exists>a b. ?a = Some a \<and> ?b = Some b \<and> a \<le> b \<and> r = Some (a, b))"
    by (cases ?a; cases ?b) (simp_all split: if_splits)
  moreover have "?a \<in> set slots" "?b \<in> set slots" using Cons.prems(2) by simp_all
  ultimately have "\<forall>a b. r = Some (a, b) \<longrightarrow> a \<le> b \<and> Q a \<and> Q b"
    using assms(3) by auto
  with Cons.IH [OF rest] Cons.prems(2) m show ?case by auto
qed simp

lemma positions_consume:
  assumes "position_invariant P input s"
    and "\<And>c q. reading = Some (c, q) \<Longrightarrow> aligned input (is_unicode (program_flags P)) q"
  shows "branch_ok (position_invariant P input) (position_invariant P input) good
    (sn_consume s reading accepted)"
  using assms by (auto simp: sn_consume_def intro: position_invariant_move split: option.splits)

lemma positions_move_to:
  assumes "position_invariant P input s"
    and "\<And>q. target = Some q \<Longrightarrow> aligned input (is_unicode (program_flags P)) q"
  shows "branch_ok (position_invariant P input) (position_invariant P input) good (sn_move_to s target)"
  using assms by (auto simp: sn_move_to_def intro: position_invariant_move split: option.splits)

lemma positions_advancing:
  assumes "ensures A (position_invariant P input) r"
  shows "ensures A (branch_ok (position_invariant P input) B good) (sn_advancing r)"
  unfolding sn_advancing_def by (rule ensures_and_then [OF assms]) simp

lemma positions_end_lookahead:
  assumes "position_invariant P input s"
  shows "ensures (\<lambda>_. True) (position_invariant P input) (sn_end_lookahead negative pc s)"
proof (rule ensures_any)
  fix t assume t: "sn_end_lookahead negative pc s = Inr t"
  then obtain index where index: "index < length (sn_frames s)"
    and t: "t = (let f = sn_frames s ! index; u = s\<lparr>sn_frames := take index (sn_frames s)\<rparr>
      in if negative then sn_resume f u else u\<lparr>sn_position := sf_position f\<rparr>)"
    by (auto simp: sn_end_lookahead_def Let_def split: option.splits if_splits dest: rposition_length)
  have f: "sn_frames s ! index \<in> set (sn_frames s)" using index by simp
  with assms have "position_invariant P input (s\<lparr>sn_frames := take index (sn_frames s)\<rparr>)"
    by (auto simp: position_invariant_def dest: in_set_takeD)
  then show "position_invariant P input t"
    using assms f unfolding t Let_def
    by (auto intro!: position_invariant_resume position_invariant_move dest: in_set_takeD)
      (simp add: position_invariant_def positions_ok_def)
qed

lemma positions_accept:
  assumes "position_invariant P input s"
    and "collect_captures (sn_captures s) [0..<length (sn_captures s) div 2] = Inr m"
  shows "good_match P input m"
  using collect_captures_good [OF assms(2), of "aligned input (is_unicode (program_flags P))"] assms(1)
  by (auto simp: good_match_def position_invariant_def positions_ok_def sized_def sn_store_def)

lemma back_reference_aligned:
  assumes "aligned input unicode p"
  shows "match_back_reference env input a b p unicode ic = Some q \<Longrightarrow> aligned input unicode q"
    and "match_backward_back_reference env input a b p unicode ic = Some q \<Longrightarrow> aligned input unicode q"
  using assms
  by (auto simp: match_back_reference_def match_backward_back_reference_def split: if_splits
      intro: match_back_reference_loop_aligned match_backward_back_reference_loop_aligned)

lemma positions_instruction:
  assumes inv: "position_invariant P input s"
  shows "ensures (\<lambda>_. True)
    (branch_ok (position_invariant P input) (position_invariant P input) (good_match P input))
    (sn_instruction env input (is_unicode (program_flags P)) pc i s)"
proof -
  let ?I = "position_invariant P input"
  show ?thesis
  proof (cases i)
    case (IBackReference refs ic)
    show ?thesis unfolding IBackReference sn_instruction.simps
      by (rule ensures_and_then [OF ensures_trivial])
        (auto simp: inv split: option.splits
          intro!: positions_move_to [OF inv] back_reference_aligned(1) [OF position_invariant_aligned [OF inv]])
  next
    case (IBackwardBackReference refs ic)
    show ?thesis unfolding IBackwardBackReference sn_instruction.simps
      by (rule ensures_and_then [OF ensures_trivial])
        (auto simp: inv split: option.splits
          intro!: positions_move_to [OF inv] back_reference_aligned(2) [OF position_invariant_aligned [OF inv]])
  next
    case (ILookAheadEnd negative)
    then show ?thesis
      by (auto intro!: ensures_and_then [OF positions_end_lookahead [OF inv]])
  next
    case IMatch
    then show ?thesis
      by (auto simp: and_then_eq_Inr intro!: ensures_any positions_accept [OF inv])
  next
    case (ILoop register target)
    show ?thesis unfolding ILoop sn_instruction.simps
      by (rule ensures_and_then [OF ensures_trivial])
        (auto split: register_value.splits
          intro!: ensures_and_then [OF position_invariant_set_register [OF inv]])
  next
    case (ICheckAdvance register)
    show ?thesis unfolding ICheckAdvance sn_instruction.simps
      by (rule ensures_and_then [OF ensures_trivial])
        (auto simp: inv sn_guard_def split: register_value.splits)
  next
    case IPrev
    then show ?thesis
      by (auto simp: read_previous_character_def intro!: positions_move_to [OF inv]
          dest: read_previous_character_aligned)
  qed (auto simp: sn_guard_def inv intro!: positions_consume [OF inv] positions_advancing
      position_invariant_set_capture [OF inv] position_invariant_set_register [OF inv]
      position_invariant_reset_captures [OF inv] position_invariant_push [OF inv]
      position_invariant_aligned [OF inv] dest: read_character_aligned)
qed

interpretation positions: matcher_invariant "\<lambda>_. True" position_invariant "\<lambda>_ _. True" good_match
proof
  show "position_invariant P input (sn_reset c s)"
    if "sized P (sn_store s)" "aligned input (is_unicode (program_flags P)) c" for P s input c
    using that by (auto simp: position_invariant_def positions_ok_def sized_def sn_store_def sn_reset_def)
  show "ensures (\<lambda>_. True) (progress_ok P (position_invariant P input) (good_match P input))
      (sn_iteration env P input (is_unicode (program_flags P)) p s)"
    if "position_invariant P input s" for P input s env p
  proof (rule iteration_ok [where B = "position_invariant P input"])
    show "if resumed then position_invariant P input u else sized P (sn_store u)"
      if "position_invariant P input t" "sn_restore t = (resumed, u)" for t resumed u
      using position_invariant_restore [OF that(1)] that(2)
      by (simp add: position_invariant_def positions_ok_def)
  qed (simp_all add: that positions_instruction)
qed simp

text \<open>C2. What a successful match reports: one entry per capture group, and every participating
  group is a range \<open>start \<le> end\<close> inside the input whose ends, in Unicode mode, never separate the two
  halves of a surrogate pair. This holds for every program, even one the validator would refuse.\<close>

theorem match_within_input:
  assumes "execute_with_interrupt fuel env P input start = Some (Inr (Some m))"
  shows "length m = unat (capture_count P) \<and>
    (\<forall>a b. Some (a, b) \<in> set m \<longrightarrow> a \<le> b \<and> b \<le> length input \<and>
       (is_unicode (program_flags P) \<longrightarrow> (\<forall>p \<in> {a, b}. 0 < p \<and> p < length input \<longrightarrow>
          \<not> (is_high_surrogate (input ! (p - 1)) \<and> is_low_surrogate (input ! p)))))"
proof -
  have "start \<le> length input"
    using assms by (auto simp: execute_with_interrupt_def execute_units_def split: if_splits)
  from positions.execute_ok [OF _ this assms [unfolded execute_with_interrupt_def]]
  have "good_match P input m" by simp
  then show ?thesis by (auto simp: good_match_def aligned_def)
qed

theorem match_within_input_witness:
  "execute_with_interrupt 100 example_env example_program example_input 0
     = Some (Inr (Some [Some (1, 5), Some (1, 3)]))
   \<and> length [Some (1, 5), Some (1::nat, 3::nat)] = unat (capture_count example_program)
   \<and> (3::nat) \<le> length example_input
   \<and> \<not> (is_high_surrogate (example_input ! (3 - 1)) \<and> is_low_surrogate (example_input ! 3))"
proof -
  have "is_unicode (program_flags example_program)" by code_simp
  with match_within_input [OF example_execute] show ?thesis
    by (simp add: example_execute) (simp add: example_input_def)
qed

end
