(* ===== verification/RegExp_Safety.thy ===== *)
theory RegExp_Safety
  imports RegExp_Invariant
begin

text \<open>
  What \<open>validate_program\<close> guarantees: a certified program never makes the executor index out of
  range, never finds its lookaround frames mismatched, and never leaves the program except at its
  end. The invariant ties the lookaround frames on the control stack to the assertions that are
  open at the current pc and at the pc every frame resumes at. The proofs are about the reference
  matcher; the refinement carries them to the executor.
\<close>

section \<open>What the validator certifies\<close>

fun assertion_step :: "nat \<Rightarrow> instruction \<Rightarrow> assertion list \<Rightarrow> assertion list" where
  "assertion_step pc (ILookAhead negative target) open = (pc, negative, target) # open"
| "assertion_step pc (ILookAheadEnd negative) open = tl open"
| "assertion_step pc _ open = open"

primrec open_assertions :: "instruction list \<Rightarrow> nat \<Rightarrow> assertion list" where
  "open_assertions is 0 = []"
| "open_assertions is (Suc pc) = assertion_step pc (is ! pc) (open_assertions is pc)"






lemma program_error_eq_Inr [simp]: "program_error r = Inr x \<longleftrightarrow> r = Inr x"
  by (cases r) (simp_all add: program_error_def)


fun delimits_assertion :: "instruction \<Rightarrow> bool" where
  "delimits_assertion (ILookAhead _ _) = True"
| "delimits_assertion (ILookAheadEnd _) = True"
| "delimits_assertion _ = False"


lemma scan_step_other:
  assumes "\<not> delimits_assertion i"
  shows "push_assertion f pc i state = Inr state"
    and "check_operands cs rs pc i stk = Inr stk' \<Longrightarrow> stk' = stk"
    and "assertion_step pc i stk = stk"
  using assms by (cases i; simp split: if_splits option.splits)+








section \<open>The structural invariant\<close>

definition chain :: "program \<Rightarrow> nat \<Rightarrow> control_kind list" where
  "chain P pc = map (\<lambda>(_, negative, target). LookAheadFrame negative target)
     (open_assertions (instructions P) pc)"

definition lookaheads :: "snapshot_frame list \<Rightarrow> control_kind list" where
  "lookaheads fs = filter is_lookahead_frame (map sf_kind fs)"

fun resumes_at :: "control_kind \<Rightarrow> nat" where
  "resumes_at (SplitFrame target) = target"
| "resumes_at (LookAheadFrame _ target) = target"

text \<open>Frames with the top first: the assertions open where a frame resumes are those below it.\<close>

fun frames_ok :: "program \<Rightarrow> snapshot_frame list \<Rightarrow> bool" where
  "frames_ok P [] \<longleftrightarrow> True"
| "frames_ok P (f # fs) \<longleftrightarrow>
     sized P (sf_store f) \<and> resumes_at (sf_kind f) < length (instructions P)
     \<and> chain P (resumes_at (sf_kind f)) = lookaheads fs \<and> frames_ok P fs"

definition structure_ok :: "program \<Rightarrow> snapshot_state \<Rightarrow> bool" where
  "structure_ok P s \<longleftrightarrow> sized P (sn_store s) \<and> frames_ok P (rev (sn_frames s))"

definition structure_invariant :: "program \<Rightarrow> u16 list \<Rightarrow> snapshot_state \<Rightarrow> bool" where
  "structure_invariant P input s \<longleftrightarrow>
     structure_ok P s \<and> sn_pc s \<le> length (instructions P)
     \<and> chain P (sn_pc s) = lookaheads (rev (sn_frames s))"




lemma structure_ok_update [simp]:
  "structure_ok P (s\<lparr>sn_pc := a\<rparr>) \<longleftrightarrow> structure_ok P s"
  "structure_ok P (s\<lparr>sn_position := p\<rparr>) \<longleftrightarrow> structure_ok P s"
  by (simp_all add: structure_ok_def)

lemma structure_invariant_position [simp]:
  "structure_invariant P input (s\<lparr>sn_position := p\<rparr>) \<longleftrightarrow> structure_invariant P input s"
  by (simp add: structure_invariant_def)

lemma structure_invariant_ok: "structure_invariant P input s \<Longrightarrow> structure_ok P s"
  by (simp add: structure_invariant_def)








lemma chain_Suc [simp]:
  "\<not> delimits_assertion (instructions P ! pc) \<Longrightarrow> chain P (Suc pc) = chain P pc"
  by (simp add: chain_def scan_step_other(3))








end
