(* ===== verification/RegExp_Termination.thy ===== *)
theory RegExp_Termination
  imports RegExp_Safety
begin

text \<open>
  When the matcher returns. Fuel only cuts a run short, it never changes an answer. A program can
  loop forever, so returning needs a reason, and \<open>bounded_matcher\<close> is the interface for one: a
  weight that every iteration of the dispatch loop decreases. It is instantiated twice, by the
  interrupt poller (a host whose hook asks to stop is obeyed after a bounded number of
  instructions) and by programs whose branches all go forward (no unbounded repetition).
\<close>

section \<open>Fuel\<close>





section \<open>The interface\<close>

locale bounded_matcher =
  fixes admissible :: "'k \<Rightarrow> exec_env \<Rightarrow> program \<Rightarrow> bool"
    and ready :: "'k \<Rightarrow> poller \<Rightarrow> bool"
    and weight :: "'k \<Rightarrow> program \<Rightarrow> poller \<Rightarrow> snapshot_state \<Rightarrow> nat"
    and bound :: "'k \<Rightarrow> program \<Rightarrow> nat"
  assumes entry: "admissible k env P \<Longrightarrow> ready k p \<Longrightarrow> weight k P p (sn_reset c s) \<le> bound k P"
    and started: "ready k new_poller"
    and positive: "ready k p \<Longrightarrow> 0 < weight k P p s"
    and step: "admissible k env P \<Longrightarrow> ready k p
      \<Longrightarrow> sn_iteration env P input unicode p s = Inr (SnRunning q t)
      \<Longrightarrow> ready k q \<and> weight k P q t < weight k P p s"
    and finish: "admissible k env P \<Longrightarrow> ready k p
      \<Longrightarrow> sn_iteration env P input unicode p s = Inr (SnFinished None q t) \<Longrightarrow> ready k q"
begin

lemma run_returns:
  assumes "admissible k env P" "ready k p" "weight k P p s \<le> fuel"
  shows "\<exists>r. sn_run fuel env P input unicode p s = Some r
    \<and> (\<forall>q t. r = Inr (None, q, t) \<longrightarrow> ready k q)"
  using assms(2,3)
proof (induction fuel arbitrary: p s)
  case 0
  with positive [of k p P s] show ?case by simp
next
  case (Suc fuel)
  let ?it = "sn_iteration env P input unicode p s"
  show ?case
  proof (cases "\<exists>q t. ?it = Inr (SnRunning q t)")
    case True
    then obtain q t where it: "?it = Inr (SnRunning q t)" by blast
    from step [OF assms(1) Suc.prems(1) it] Suc.prems(2) Suc.IH [of q t] it show ?thesis by simp
  next
    case False
    then show ?thesis
      using finish [OF assms(1) Suc.prems(1)]
      by (auto split: sum.splits snapshot_progress.splits)
  qed
qed

lemma search_returns:
  assumes "admissible k env P" "ready k p" "bound k P \<le> fuel"
  shows "\<exists>r. sn_search fuel env P input unicode c p s = Some r"
  using assms(2)
proof (induction "length input - c" arbitrary: c p s rule: less_induct)
  case less
  have "weight k P p (sn_reset c s) \<le> fuel"
    using entry [OF assms(1) less.prems, of c s] assms(3) by simp
  from run_returns [OF assms(1) less.prems this, of input unicode] obtain a
    where a: "sn_run fuel env P input unicode p (sn_reset c s) = Some a"
      and next_ready: "\<forall>q t. a = Inr (None, q, t) \<longrightarrow> ready k q" by blast
  show ?case
  proof (cases "\<exists>q t. a = Inr (None, q, t) \<and> \<not> flags_contains (program_flags P) STICKY \<and> c < length input")
    case True
    then obtain q t where t: "a = Inr (None, q, t)" "\<not> flags_contains (program_flags P) STICKY"
      "c < length input" by blast
    moreover have "length input - advance_string_index input c unicode < length input - c"
      using advance_string_index_advances [OF t(3), of unicode] by auto
    ultimately show ?thesis
      using less.hyps [of "advance_string_index input c unicode" q t] next_ready a
      by (subst sn_search.simps) simp
  next
    case False
    with a show ?thesis
      by (subst sn_search.simps) (auto split: sum.splits option.splits)
  qed
qed

lemma execute_returns:
  assumes "admissible k env P" "bound k P \<le> fuel"
  shows "\<exists>r. execute_units fuel env P input start = Some r"
proof -
  have "\<exists>r. sn_execute fuel env P input start = Some r"
    using search_returns [OF assms(1) started assms(2)] by (simp add: sn_execute_def Let_def)
  then show ?thesis using execute_units_refines [of fuel env P input start] by auto
qed

end

section \<open>Interrupts\<close>

definition poller_ready :: "nat \<Rightarrow> poller \<Rightarrow> bool" where
  "poller_ready k p \<longleftrightarrow>
     0 < unat (remaining p) \<and> unat (remaining p) \<le> unat INTERRUPT_POLL_INTERVAL \<and> polls p \<le> k"

definition steps_until_poll :: "nat \<Rightarrow> program \<Rightarrow> poller \<Rightarrow> snapshot_state \<Rightarrow> nat" where
  "steps_until_poll k P p s = unat (remaining p) + unat INTERRUPT_POLL_INTERVAL * (k - polls p)"

lemma poll_interval [simp]: "unat INTERRUPT_POLL_INTERVAL = 10000"
  by (simp add: INTERRUPT_POLL_INTERVAL_def)

lemma poller_step_decreases:
  assumes "interrupted env k" "poller_ready k p" "poller_step env p = Inr q"
  shows "poller_ready k q \<and> steps_until_poll k P q t < steps_until_poll k P p s"
proof (cases "remaining p = 1")
  case True
  with assms have "polls p \<noteq> k" "polls p \<le> k"
    and q: "q = \<lparr>remaining = INTERRUPT_POLL_INTERVAL, polls = Suc (polls p)\<rparr>"
    by (auto simp: poller_step_def poller_ready_def Let_def split: if_splits)
  then have "polls p < k" by simp
  with True q show ?thesis by (simp add: poller_ready_def steps_until_poll_def algebra_simps)
next
  case False
  moreover have "remaining p \<noteq> 0" using assms(2) by (auto simp: poller_ready_def)
  ultimately have "q = p\<lparr>remaining := remaining p - 1\<rparr>" "unat (remaining p - 1) = unat (remaining p) - 1"
    using assms(3)
    by (auto simp: poller_step_def Let_def unat_minus_one split: if_splits)
  moreover have "unat (remaining p) \<noteq> 1" using False by (metis unat_1 word_unat_eq_iff)
  ultimately show ?thesis using assms(2) by (auto simp: poller_ready_def steps_until_poll_def)
qed

lemma sn_continue_with_poller:
  "sn_continue_with p s b = SnRunning q t \<or> sn_continue_with p s b = SnFinished m q t \<Longrightarrow> q = p"
  by (cases b) (auto simp: sn_continue_with_def split: prod.splits if_splits)

lemma sn_iteration_cases:
  assumes "sn_iteration env P input unicode p s = Inr r"
  obtains q b where "poller_step env p = Inr q" "sn_pc s < length (instructions P)"
    "sn_instruction env input unicode (sn_pc s) (instructions P ! sn_pc s) (s\<lparr>sn_pc := Suc (sn_pc s)\<rparr>) = Inr b"
    "r = sn_continue_with q (s\<lparr>sn_pc := Suc (sn_pc s)\<rparr>) b"
  using assms
  by (auto simp: sn_iteration_def and_then_eq_Inr Let_def vec_get_opt_def split: if_splits)

lemma sn_iteration_poller:
  assumes "sn_iteration env P input unicode p s = Inr r" "r = SnRunning q t \<or> r = SnFinished m q t"
  shows "poller_step env p = Inr q"
  using assms(1)
proof (cases rule: sn_iteration_cases)
  case (1 q' b)
  with assms(2) sn_continue_with_poller [of q' _ b q t m] show ?thesis by auto
qed

interpretation polled: bounded_matcher "\<lambda>k env _. interrupted env k" poller_ready steps_until_poll
  "\<lambda>k _. 10000 * (k + 1)"
proof
  show "steps_until_poll k P p (sn_reset c s) \<le> 10000 * (k + 1)"
    if "poller_ready k p" for k P p c s
    using that mult_le_mono2 [of "k - polls p" k 10000] by (auto simp: poller_ready_def steps_until_poll_def)
  show "poller_ready k new_poller" for k by (simp add: poller_ready_def new_poller_def)
  show "0 < steps_until_poll k P p s" if "poller_ready k p" for k P p s
    using that by (simp add: poller_ready_def steps_until_poll_def)
  show "poller_ready k q \<and> steps_until_poll k P q t < steps_until_poll k P p s"
    if "interrupted env k" "poller_ready k p" "sn_iteration env P input unicode p s = Inr (SnRunning q t)"
    for k env P p input unicode s q t
    by (rule poller_step_decreases [OF that(1,2) sn_iteration_poller [OF that(3)]]) simp
  show "poller_ready k q"
    if "interrupted env k" "poller_ready k p" "sn_iteration env P input unicode p s = Inr (SnFinished None q t)"
    for k env P p input unicode s q t
    using poller_step_decreases [OF that(1,2) sn_iteration_poller [OF that(3)]] by blast
qed

text \<open>C5. Liveness of interruption: if the host's hook answers \<open>true\<close> when it is asked for the
  \<open>k\<close>-th time, every execution returns, with whatever result, after at most \<open>10000 * (k + 1)\<close>
  instructions per attempt, however the program loops.\<close>

theorem interrupted_execution_returns:
  assumes "interrupted env k"
  shows "\<exists>r. execute_with_interrupt (10000 * (k + 1)) env P input start = Some r"
  using polled.execute_returns [OF assms order_refl] by (simp add: execute_with_interrupt_def)

definition looping_program :: program where
  "looping_program = \<lparr>program_flags = 0, capture_count = 1, register_count = 0, instructions = [IJump 0],
     group_names = None\<rparr>"

theorem interrupted_execution_returns_witness:
  "interrupted (example_env\<lparr>interrupted := \<lambda>k. k = 2\<rparr>) 2
   \<and> (\<exists>r. execute_with_interrupt 30000 (example_env\<lparr>interrupted := \<lambda>k. k = 2\<rparr>) looping_program [0x61] 0
        = Some r)"
  using interrupted_execution_returns [of "example_env\<lparr>interrupted := \<lambda>k. k = 2\<rparr>" 2 looping_program "[0x61]" 0]
  by simp

section \<open>Programs without backward branches\<close>

definition forward_only :: "program \<Rightarrow> bool" where
  "forward_only P \<longleftrightarrow>
     (\<forall>pc < length (instructions P). \<forall>target \<in> set (branch_targets (instructions P ! pc)). pc < target)"

definition pc_weight :: "program \<Rightarrow> nat \<Rightarrow> nat" where
  "pc_weight P pc = 2 ^ (length (instructions P) - pc + 1) - 1"

definition frames_weight :: "program \<Rightarrow> snapshot_frame list \<Rightarrow> nat" where
  "frames_weight P fs = sum_list (map (\<lambda>f. pc_weight P (resumes_at (sf_kind f))) fs)"

definition branches_left :: "program \<Rightarrow> snapshot_state \<Rightarrow> nat" where
  "branches_left P s = pc_weight P (sn_pc s) + frames_weight P (sn_frames s)"

lemma pc_weight_positive: "0 < pc_weight P pc"
  using one_less_power [of "2::nat" "Suc (length (instructions P) - pc)"] by (simp add: pc_weight_def)

lemma pc_weight_split:
  assumes "pc < length (instructions P)" "pc < a" "pc < b"
  shows "pc_weight P a + pc_weight P b < pc_weight P pc"
proof -
  let ?n = "length (instructions P)"
  have bound: "pc_weight P t \<le> 2 ^ (?n - pc) - 1" if "pc < t" for t
  proof -
    have "?n - t + 1 \<le> ?n - pc" using assms(1) that by simp
    then have "(2::nat) ^ (?n - t + 1) \<le> 2 ^ (?n - pc)" by (rule power_increasing) simp
    then show ?thesis by (simp add: pc_weight_def)
  qed
  have "(1::nat) \<le> 2 ^ (?n - pc)" "pc_weight P pc = 2 * 2 ^ (?n - pc) - 1"
    by (simp_all add: pc_weight_def)
  with bound [OF assms(2)] bound [OF assms(3)] show ?thesis by linarith
qed

lemma pc_weight_mono: "pc < length (instructions P) \<Longrightarrow> pc < a \<Longrightarrow> pc_weight P a < pc_weight P pc"
  using pc_weight_split [of pc P a a] by simp

lemma frames_weight_append [simp]:
  "frames_weight P (xs @ ys) = frames_weight P xs + frames_weight P ys"
  by (simp add: frames_weight_def)

lemma frames_weight_take: "frames_weight P (take n fs) \<le> frames_weight P fs"
  by (metis append_take_drop_id frames_weight_append le_add1)

lemma branches_left_restore:
  "sn_restore s = (resumed, u) \<Longrightarrow> resumed \<Longrightarrow> branches_left P u \<le> frames_weight P (sn_frames s)"
proof (induction s rule: sn_restore.induct)
  case (1 s)
  then have ne: "sn_frames s \<noteq> []" by (auto simp: sn_restore.simps)
  then obtain fs f where fs: "sn_frames s = fs @ [f]" by (metis rev_exhaust)
  let ?t = "sn_resume f (s\<lparr>sn_frames := fs\<rparr>)"
  show ?case
  proof (cases "\<exists>target. sf_kind f = LookAheadFrame False target")
    case True
    then obtain target where f: "sf_kind f = LookAheadFrame False target" by blast
    with "1.prems" fs have "sn_restore ?t = (resumed, u)"
      by (subst (asm) sn_restore.simps) (simp add: Let_def)
    with "1.IH" [OF ne refl refl, of False target] "1.prems"(2) fs f show ?thesis
      by (simp add: sn_resume_def)
  next
    case False
    with "1.prems" fs show ?thesis
      by (subst (asm) sn_restore.simps)
        (auto simp: Let_def branches_left_def frames_weight_def sn_resume_def split: control_kind.splits if_splits)
  qed
qed

lemma frames_weight_end_lookahead:
  "sn_end_lookahead negative pc s = Inr t \<Longrightarrow>
     frames_weight P (sn_frames t) \<le> frames_weight P (sn_frames s) \<and> sn_pc t = sn_pc s"
  by (auto simp: sn_end_lookahead_def sn_resume_def Let_def frames_weight_take split: option.splits if_splits)

lemma sn_reset_captures_frame:
  "sn_reset_captures cs s = Inr t \<Longrightarrow> sn_frames t = sn_frames s \<and> sn_pc t = sn_pc s"
  by (induction cs arbitrary: s) (fastforce simp: sn_set_capture_def and_then_eq_Inr)+

text \<open>What an instruction of a forward program does to the weight: it moves on, or gives up.\<close>

lemma forward_instruction:
  assumes fwd: "\<forall>target \<in> set (branch_targets i). pc < target" and pc: "pc < length (instructions P)"
    and run: "sn_instruction env input unicode pc i (s\<lparr>sn_pc := Suc pc\<rparr>) = Inr b"
  shows "branch_ok (\<lambda>t. branches_left P t < pc_weight P pc + frames_weight P (sn_frames s))
    (\<lambda>t. frames_weight P (sn_frames t) \<le> frames_weight P (sn_frames s)) (\<lambda>_. True) b"
proof -
  let ?s = "s\<lparr>sn_pc := Suc pc\<rparr>"
  let ?ok = "branch_ok (\<lambda>t. branches_left P t < pc_weight P pc + frames_weight P (sn_frames s))
    (\<lambda>t. frames_weight P (sn_frames t) \<le> frames_weight P (sn_frames s)) (\<lambda>_. True)"
  note [simp] = pc_weight_mono [OF pc] branches_left_def sn_consume_def sn_guard_def sn_move_to_def
  have capture: "ensures (\<lambda>_. True) ?ok (sn_advancing (sn_set_capture slot v ?s))" for slot v
    by (auto simp: sn_advancing_def sn_set_capture_def and_then_eq_Inr intro!: ensures_any)
  have register: "ensures (\<lambda>_. True) ?ok (sn_advancing (sn_set_register r v ?s))" for r v
    by (auto simp: sn_advancing_def sn_set_register_def and_then_eq_Inr intro!: ensures_any)
  have "ensures (\<lambda>_. True) ?ok (sn_instruction env input unicode pc i ?s)"
  proof (cases i)
    case (IBackReference refs ic)
    show ?thesis unfolding IBackReference sn_instruction.simps
      by (rule ensures_and_then [OF ensures_trivial]) (auto split: option.splits)
  next
    case (IBackwardBackReference refs ic)
    show ?thesis unfolding IBackwardBackReference sn_instruction.simps
      by (rule ensures_and_then [OF ensures_trivial]) (auto split: option.splits)
  next
    case (ILookAhead negative target)
    with fwd pc_weight_split [OF pc, of "Suc pc" target] show ?thesis
      by (auto simp: sn_push_def frames_weight_def)
  next
    case (ISplit first second)
    with fwd pc_weight_split [OF pc, of first second] show ?thesis
      by (auto simp: sn_push_def frames_weight_def)
  next
    case (ILookAheadEnd negative)
    then show ?thesis
      by (auto simp: and_then_eq_Inr intro!: ensures_any add_less_le_mono [OF pc_weight_mono [OF pc lessI]]
          dest!: frames_weight_end_lookahead [of _ _ _ _ P])
  next
    case IMatch
    show ?thesis unfolding IMatch sn_instruction.simps by (rule ensures_and_then [OF ensures_trivial]) simp
  next
    case (IResetCaptures a c)
    then show ?thesis
      by (auto simp: sn_advancing_def and_then_eq_Inr intro!: ensures_any dest!: sn_reset_captures_frame)
  next
    case (ILoop register target)
    show ?thesis unfolding ILoop sn_instruction.simps
    proof (rule ensures_and_then [OF ensures_trivial])
      fix v
      show "ensures (\<lambda>_. True) ?ok (case v of
          Counter count \<Rightarrow> and_then (sn_set_register (unat register) (Counter (count - 1)) ?s)
            (\<lambda>t. Inr (SnAdvance (if count - 1 \<noteq> 0 then t\<lparr>sn_pc := target\<rparr> else t)))
        | _ \<Rightarrow> program_fault (CounterRegisterExpected pc register))"
        using fwd ILoop
        by (cases v) (auto simp: sn_set_register_def and_then_eq_Inr intro!: ensures_any)
    qed
  next
    case (ICheckAdvance register)
    show ?thesis unfolding ICheckAdvance sn_instruction.simps
      by (rule ensures_and_then [OF ensures_trivial]) (auto split: register_value.splits)
  qed (use fwd capture register in \<open>auto split: option.splits\<close>)
  with run show ?thesis by simp
qed

lemma forward_step:
  assumes "forward_only P" "sn_iteration env P input unicode p s = Inr (SnRunning q t)"
  shows "branches_left P t < branches_left P s"
  using assms(2)
proof (cases rule: sn_iteration_cases)
  case (1 q' b)
  have "branch_ok (\<lambda>t. branches_left P t < branches_left P s)
      (\<lambda>t. frames_weight P (sn_frames t) \<le> frames_weight P (sn_frames s)) (\<lambda>_. True) b"
    using forward_instruction [OF _ 1(2,3)] assms(1) 1(2)
    by (simp add: forward_only_def branches_left_def)
  with 1(4) show ?thesis
  proof (cases b)
    case (SnFailBranch u)
    obtain resumed w where w: "sn_restore u = (resumed, w)" by fastforce
    with 1(4) SnFailBranch have "resumed" "w = t"
      by (auto simp: sn_continue_with_def split: if_splits)
    with branches_left_restore [OF w, of P] \<open>branch_ok _ _ _ b\<close> SnFailBranch pc_weight_positive [of P "sn_pc s"]
    show ?thesis by (simp add: branches_left_def)
  qed (auto simp: sn_continue_with_def)
qed

interpretation forward: bounded_matcher "\<lambda>(_ :: unit) _ P. forward_only P" "\<lambda>_ _. True"
  "\<lambda>_ P _ s. branches_left P s" "\<lambda>_ P. 2 ^ (length (instructions P) + 1) - 1"
proof
  show "branches_left P (sn_reset c s) \<le> 2 ^ (length (instructions P) + 1) - 1" for P c s
    by (simp add: branches_left_def pc_weight_def frames_weight_def sn_reset_def)
  show "0 < branches_left P s" for P s
    using pc_weight_positive [of P "sn_pc s"] by (simp add: branches_left_def)
qed (auto intro: forward_step)

text \<open>C6. Termination without loops: a program whose branches all go forward, as the compiled form
  of a pattern without unbounded repetition, returns after fewer than \<open>2 ^ (n + 1)\<close> instructions
  per attempt, where \<open>n\<close> is its length, on every input and for every hook.\<close>

theorem forward_program_returns:
  assumes "forward_only P" "2 ^ (length (instructions P) + 1) - 1 \<le> fuel"
  shows "\<exists>r. execute_with_interrupt fuel env P input start = Some r"
  using forward.execute_returns [OF assms] by (simp add: execute_with_interrupt_def)

definition forward_program :: program where
  "forward_program = \<lparr>program_flags = 0, capture_count = 1, register_count = 0,
     instructions = [ISaveStart 0, ISplit 2 4, IChar 0x61 False, IJump 5, IAny, ISaveEnd 0, IMatch],
     group_names = None\<rparr>"

theorem forward_program_returns_witness:
  "forward_only forward_program \<and> 2 ^ (length (instructions forward_program) + 1) - 1 \<le> (255::nat)
   \<and> (\<exists>r. execute_with_interrupt 255 example_env forward_program example_input 0 = Some r)"
proof -
  have "forward_only forward_program" by code_simp
  moreover have "2 ^ (length (instructions forward_program) + 1) - 1 \<le> (255::nat)"
    by (simp add: forward_program_def)
  ultimately show ?thesis using forward_program_returns by blast
qed

end
