(* ===== verification/RegExp_Text.thy ===== *)
theory RegExp_Text
  imports RegExp_Invariant "HOL-Library.Multiset"
begin

text \<open>
  The text-level routines around the matcher: character classes as sorted ranges, stepping over
  characters in both directions, and the flag string of a regular expression.
\<close>

unbundle bit_operations_syntax

section \<open>Character classes\<close>

definition in_range :: "u32 \<Rightarrow> character_range \<Rightarrow> bool" where
  "in_range c r \<longleftrightarrow> cr_start r \<le> c \<and> c \<le> cr_end r"

definition ranges_sorted :: "character_range list \<Rightarrow> bool" where
  "ranges_sorted ranges \<longleftrightarrow>
     (\<forall>r \<in> set ranges. cr_start r \<le> cr_end r) \<and> sorted_wrt (\<lambda>a b. cr_end a < cr_start b) ranges"

lemma sorted_below:
  assumes "sorted_wrt (\<lambda>a b. cr_end a < cr_start b) (xs @ y # ys)" "\<forall>r \<in> set (xs @ y # ys). cr_start r \<le> cr_end r"
    and "cr_start y \<le> c" "ys = [] \<or> c < cr_start (hd ys)"
  shows "(\<exists>r \<in> set (xs @ y # ys). in_range c r) \<longleftrightarrow> c \<le> cr_end y"
proof -
  have "\<not> in_range c r" if "r \<in> set xs" for r
    using assms(1,3) that by (auto simp: in_range_def sorted_wrt_append)
  moreover have "\<not> in_range c r" if "r \<in> set ys" for r
  proof (cases ys)
    case (Cons z zs)
    with assms(1,2,4) that show ?thesis
      by (auto simp: in_range_def sorted_wrt_append)
  qed (use that in simp)
  ultimately show ?thesis using assms(3) by (auto simp: in_range_def)
qed

text \<open>C7. The binary search over the ranges of a character class decides membership: for ranges that
  are non-empty, sorted and disjoint, as the compiler emits them, a character is accepted exactly when
  it lies in one of them.\<close>

theorem range_contains_iff:
  assumes "ranges_sorted ranges"
  shows "range_contains ranges c \<longleftrightarrow> (\<exists>r \<in> set ranges. cr_start r \<le> c \<and> c \<le> cr_end r)"
proof -
  let ?pre = "takeWhile (\<lambda>r. cr_start r \<le> c) ranges" and ?post = "dropWhile (\<lambda>r. cr_start r \<le> c) ranges"
  have post: "?post = [] \<or> c < cr_start (hd ?post)"
    using hd_dropWhile [of "\<lambda>r. cr_start r \<le> c" ranges] not_le by blast
  have split: "ranges = ?pre @ ?post" by simp
  show ?thesis
  proof (cases ?pre rule: rev_cases)
    case Nil
    with post have "ranges = [] \<or> c < cr_start (hd ranges)" by (cases ranges) (auto split: if_splits)
    then have "\<not> in_range c r" if "r \<in> set ranges" for r
      using assms that by (cases ranges) (force simp: ranges_sorted_def in_range_def)+
    with Nil show ?thesis by (simp add: range_contains_def partition_point_def in_range_def)
  next
    case (snoc xs y)
    have y: "cr_start y \<le> c" using snoc by (metis in_set_conv_decomp set_takeWhileD)
    have whole: "ranges = xs @ y # ?post" using split snoc by (metis append.assoc append_Cons append_Nil)
    have "vec_get_opt ranges (length xs) = Some y"
      by (subst whole) (simp add: vec_get_opt_def)
    then have "range_contains ranges c \<longleftrightarrow> c \<le> cr_end y"
      using snoc by (simp add: range_contains_def partition_point_def)
    also have "\<dots> \<longleftrightarrow> (\<exists>r \<in> set ranges. in_range c r)"
      using sorted_below [of xs y ?post c] assms y post whole by (auto simp: ranges_sorted_def)
    finally show ?thesis by (simp add: in_range_def)
  qed
qed

theorem range_contains_iff_witness:
  "ranges_sorted [\<lparr>cr_start = 0x30, cr_end = 0x39\<rparr>, \<lparr>cr_start = 0x61, cr_end = 0x66\<rparr>]
   \<and> range_contains [\<lparr>cr_start = 0x30, cr_end = 0x39\<rparr>, \<lparr>cr_start = 0x61, cr_end = 0x66\<rparr>] 0x63
   \<and> \<not> range_contains [\<lparr>cr_start = 0x30, cr_end = 0x39\<rparr>, \<lparr>cr_start = 0x61, cr_end = 0x66\<rparr>] 0x50"
proof -
  let ?r = "[\<lparr>cr_start = 0x30, cr_end = 0x39\<rparr>, \<lparr>cr_start = 0x61, cr_end = 0x66\<rparr>]"
  have "ranges_sorted ?r" by (simp add: ranges_sorted_def)
  then show ?thesis by (simp add: range_contains_iff)
qed

section \<open>Stepping over characters\<close>

text \<open>C8. Reading forward and backward are inverse: between character boundaries, a character read
  forward from \<open>p\<close> to \<open>q\<close> is the one read backward from \<open>q\<close>, which leads back to \<open>p\<close>, and the other
  way round.\<close>

theorem read_character_inverse:
  assumes "aligned input unicode p" "aligned input unicode q"
  shows "read_character input p unicode = Some (c, q)
    \<longleftrightarrow> read_previous_character input q unicode = Some (c, p)"
proof
  assume r: "read_character input p unicode = Some (c, q)"
  show "read_previous_character input q unicode = Some (c, p)"
  proof (cases "unicode \<and> is_high_surrogate (input ! p) \<and> p + 1 < length input \<and> is_low_surrogate (input ! (p + 1))")
    case True
    with r have "c = surrogate_code_point (input ! p) (input ! (p + 1))" "q = p + 2"
      by (auto simp: read_character_def vec_get_opt_def split: if_splits)
    with True show ?thesis
      by (simp add: read_previous_character_def read_previous_character_bounded_def vec_get_opt_def)
  next
    case False
    with r have "c = ucast (input ! p)" "q = p + 1" "p < length input"
      by (auto simp: read_character_def vec_get_opt_def split: if_splits)
    with assms(1) show ?thesis
      by (auto simp: read_previous_character_def read_previous_character_bounded_def vec_get_opt_def aligned_def)
  qed
next
  assume r: "read_previous_character input q unicode = Some (c, p)"
  then have q: "0 < q" "q \<le> length input"
    by (auto simp: read_previous_character_def read_previous_character_bounded_def vec_get_opt_def
        split: if_splits)
  show "read_character input p unicode = Some (c, q)"
  proof (cases "unicode \<and> is_low_surrogate (input ! (q - 1)) \<and> 2 \<le> q \<and> is_high_surrogate (input ! (q - 2))")
    case True
    then obtain k where k: "q = k + 2" by (metis le_add_diff_inverse2)
    with True r q have "c = surrogate_code_point (input ! k) (input ! (k + 1))" "p = k"
      by (auto simp: read_previous_character_def read_previous_character_bounded_def vec_get_opt_def
          split: if_splits)
    with True q k show ?thesis by (simp add: read_character_def vec_get_opt_def)
  next
    case False
    with r q have "c = ucast (input ! p)" "q = p + 1"
      by (auto simp: read_previous_character_def read_previous_character_bounded_def vec_get_opt_def
          split: if_splits)
    with assms(2) q show ?thesis
      by (auto simp: read_character_def vec_get_opt_def aligned_def split: if_splits)
  qed
qed

theorem read_character_inverse_witness:
  "aligned example_input True 1 \<and> aligned example_input True 3
   \<and> read_character example_input 1 True = Some (0x1f600, 3)
   \<and> read_previous_character example_input 3 True = Some (0x1f600, 1)"
proof -
  have "aligned example_input True 1" "aligned example_input True 3"
    "read_character example_input 1 True = Some (0x1f600, 3)" by code_simp+
  with read_character_inverse [of example_input True 1 3 "0x1f600"] show ?thesis by simp
qed

section \<open>Flag strings\<close>

definition flag_index :: "u16 \<Rightarrow> nat option" where
  "flag_index unit =
     map_of [(0x67, 0), (0x69, 1), (0x6d, 2), (0x73, 3), (0x75, 4), (0x79, 5), (0x64, 6), (0x76, 8)] unit"

lemma flag_of_unit_index: "flag_of_unit unit = map_option (\<lambda>n. push_bit n 1) (flag_index unit)"
  by (simp add: flag_of_unit_def flag_index_def flag_defs)

lemma flag_index_inj: "flag_index a = Some n \<Longrightarrow> flag_index b = Some n \<Longrightarrow> a = b"
  by (simp add: flag_index_def split: if_splits)

lemma flag_index_less: "flag_index a = Some n \<Longrightarrow> n < 16"
  by (simp add: flag_index_def split: if_splits)

lemma flags_contains_bit: "flags_contains flags (push_bit n 1) \<longleftrightarrow> bit flags n"
  by (simp add: flags_contains_def push_bit_of_1 and_exp_eq_0_iff_not_bit)

lemma bit_flag: "n < 16 \<Longrightarrow> bit (flags OR push_bit n 1 :: u16) m \<longleftrightarrow> bit flags m \<or> m = n"
  by (auto simp: bit_simps)

text \<open>The flags after the loop: the bits of the units read, each of which was new.\<close>

lemma parse_flags_loop_iff:
  "parse_flags_loop pos flags units = Inr f \<longleftrightarrow>
     distinct units \<and> (\<forall>u \<in> set units. \<exists>n. flag_index u = Some n \<and> \<not> bit flags n)
     \<and> (\<forall>m. bit f m \<longleftrightarrow> bit flags m \<or> (\<exists>u \<in> set units. flag_index u = Some m))"
proof (induction units arbitrary: pos flags)
  case Nil
  show ?case by (auto intro: bit_eqI)
next
  case (Cons u units)
  show ?case
  proof (cases "flag_index u")
    case None
    then show ?thesis by (simp add: flag_of_unit_index)
  next
    case (Some n)
    have bits: "bit (flags OR push_bit n 1) m \<longleftrightarrow> bit flags m \<or> m = n" for m
      by (rule bit_flag [OF flag_index_less [OF Some]])
    have step: "parse_flags_loop pos flags (u # units) = Inr f \<longleftrightarrow>
        \<not> bit flags n \<and> parse_flags_loop (Suc pos) (flags OR push_bit n 1) units = Inr f"
      using Some by (simp only: parse_flags_loop.simps flag_of_unit_index flags_insert_def
          flags_contains_bit option.simps prod.case) simp
    have other: "(\<exists>k. flag_index v = Some k \<and> \<not> bit (flags OR push_bit n 1) k) \<longleftrightarrow>
        (\<exists>k. flag_index v = Some k \<and> \<not> bit flags k) \<and> v \<noteq> u" for v
      unfolding bits by (cases "flag_index v") (auto simp: Some dest: flag_index_inj [OF Some])
    have head: "(\<exists>k. flag_index u = Some k \<and> \<not> bit flags k) \<longleftrightarrow> \<not> bit flags n" by (simp add: Some)
    have known: "(\<forall>v \<in> set units. \<exists>k. flag_index v = Some k \<and> \<not> bit (flags OR push_bit n 1) k) \<longleftrightarrow>
        (\<forall>v \<in> set units. \<exists>k. flag_index v = Some k \<and> \<not> bit flags k) \<and> u \<notin> set units"
      unfolding other by blast
    have result: "(\<forall>m. bit f m \<longleftrightarrow> bit (flags OR push_bit n 1) m \<or> (\<exists>v \<in> set units. flag_index v = Some m)) \<longleftrightarrow>
        (\<forall>m. bit f m \<longleftrightarrow> bit flags m \<or> (\<exists>v \<in> set (u # units). flag_index v = Some m))"
      unfolding bits using Some by auto
    show ?thesis
      unfolding step Cons.IH known result by (simp only: distinct.simps list.set(2) ball_simps(7) head) blast
  qed
qed

lemma canonical_string_iff:
  "u \<in> set (canonical_string f) \<longleftrightarrow> (\<exists>n. flag_index u = Some n \<and> bit f n)"
proof -
  have "u \<in> set (canonical_string f) \<longleftrightarrow> (\<exists>flag. (flag, u) \<in> set canonical_order \<and> flags_contains f flag)"
    by (auto simp: canonical_string_def image_iff)
  also have "\<dots> \<longleftrightarrow> (\<exists>n. flag_index u = Some n \<and> flags_contains f (push_bit n 1))"
    by (auto simp: canonical_order_def flag_index_def flag_defs split: if_splits)
  finally show ?thesis by (simp only: flags_contains_bit)
qed

lemma sorted_canonical_string: "sorted_wrt (<) (canonical_string f)"
proof -
  have "sorted_wrt (<) (map snd canonical_order)" by (simp add: canonical_order_def)
  then show ?thesis
    unfolding canonical_string_def sorted_wrt_map by (rule sorted_wrt_filter)
qed

lemma parse_flags_Inr_iff:
  "parse_flags units = Inr f \<longleftrightarrow>
     distinct units \<and> (\<forall>u \<in> set units. flag_index u \<noteq> None)
     \<and> (\<forall>m. bit f m \<longleftrightarrow> (\<exists>u \<in> set units. flag_index u = Some m))
     \<and> \<not> (0x75 \<in> set units \<and> 0x76 \<in> set units)"
proof -
  have unit: "flag_index u = Some 4 \<longleftrightarrow> u = 0x75" "flag_index u = Some 8 \<longleftrightarrow> u = 0x76" for u
    by (auto simp: flag_index_def split: if_splits)
  have uv: "flags_contains g UNICODE \<longleftrightarrow> bit g 4" "flags_contains g UNICODE_SETS \<longleftrightarrow> bit g 8" for g
    unfolding UNICODE_def UNICODE_SETS_def by (rule flags_contains_bit)+
  have "parse_flags units = Inr f \<longleftrightarrow>
      parse_flags_loop 0 EMPTY_FLAGS units = Inr f \<and> \<not> (bit f 4 \<and> bit f 8)"
    by (cases "parse_flags_loop 0 EMPTY_FLAGS units") (auto simp: parse_flags_def uv)
  then show ?thesis
    by (auto simp: parse_flags_loop_iff EMPTY_FLAGS_def unit)
qed

lemma flags_of_units:
  assumes "\<forall>u \<in> set units. flag_index u \<noteq> None"
  shows "\<exists>f :: u16. \<forall>m. bit f m \<longleftrightarrow> (\<exists>u \<in> set units. flag_index u = Some m)"
  using assms
proof (induction units)
  case Nil
  show ?case by (auto intro: exI [of _ 0])
next
  case (Cons u units)
  then obtain f :: u16 and n where f: "\<forall>m. bit f m \<longleftrightarrow> (\<exists>u \<in> set units. flag_index u = Some m)"
    and n: "flag_index u = Some n" by auto
  with bit_flag [OF flag_index_less [OF n], of f] show ?case
    by (intro exI [of _ "f OR push_bit n 1"]) auto
qed

definition acceptable_flags :: "u16 list \<Rightarrow> bool" where
  "acceptable_flags units \<longleftrightarrow>
     distinct units \<and> set units \<subseteq> {0x64, 0x67, 0x69, 0x6d, 0x73, 0x75, 0x76, 0x79}
     \<and> \<not> {0x75, 0x76} \<subseteq> set units"

lemma acceptable_flags_iff:
  "acceptable_flags units \<longleftrightarrow>
     distinct units \<and> (\<forall>u \<in> set units. flag_index u \<noteq> None) \<and> \<not> (0x75 \<in> set units \<and> 0x76 \<in> set units)"
proof -
  have "flag_index u \<noteq> None \<longleftrightarrow> u \<in> {0x64, 0x67, 0x69, 0x6d, 0x73, 0x75, 0x76, 0x79}" for u
    by (auto simp: flag_index_def split: if_splits)
  then show ?thesis by (auto simp: acceptable_flags_def)
qed

lemma parse_flags_accepts: "(\<exists>f. parse_flags units = Inr f) \<longleftrightarrow> acceptable_flags units"
  unfolding parse_flags_Inr_iff acceptable_flags_iff using flags_of_units by blast

lemma canonical_units:
  assumes "parse_flags units = Inr f"
  shows "set (canonical_string f) = set units"
proof -
  from assms have bits: "\<And>m. bit f m \<longleftrightarrow> (\<exists>u \<in> set units. flag_index u = Some m)"
    and known: "\<And>u. u \<in> set units \<Longrightarrow> \<exists>n. flag_index u = Some n"
    by (auto simp: parse_flags_Inr_iff)
  have "u \<in> set (canonical_string f) \<longleftrightarrow> u \<in> set units" for u
    unfolding canonical_string_iff bits using known [of u] flag_index_inj [of _ _ u] by blast
  then show ?thesis by blast
qed

text \<open>C9. Parsing and printing flags: a flag string is accepted exactly when its units are known,
  pairwise distinct and not both \<open>u\<close> and \<open>v\<close>; the canonical string of the result then holds the same
  units in increasing order and parses to the same flags.\<close>

theorem parse_flags_canonical:
  "case parse_flags units of
     Inl e \<Rightarrow> \<not> acceptable_flags units
   | Inr f \<Rightarrow> acceptable_flags units \<and> mset (canonical_string f) = mset units
       \<and> sorted (canonical_string f) \<and> parse_flags (canonical_string f) = Inr f"
proof (cases "parse_flags units")
  case (Inl e)
  then show ?thesis using parse_flags_accepts [of units] by auto
next
  case (Inr f)
  note units = canonical_units [OF Inr]
  have canon: "distinct (canonical_string f)" "sorted (canonical_string f)"
    using sorted_canonical_string [of f]
    by (simp_all add: strict_sorted_iff)
  have "mset (canonical_string f) = mset units"
    using canon(1) Inr units by (simp add: set_eq_iff_mset_eq_distinct parse_flags_Inr_iff)
  moreover have "parse_flags (canonical_string f) = Inr f"
    using canon(1) Inr units by (simp add: parse_flags_Inr_iff)
  ultimately show ?thesis using canon Inr parse_flags_accepts [of units] by auto
qed

end
