(* ===== verification/Heap_Identity.thy ===== *)
theory Heap_Identity
  imports Oxide_Prelude
begin

text \<open>
  Identities, values and errors of the runtime heap (\<open>src/engine/heap/identity.rs\<close>). All typed
  handles have the same two fields, the slot index and the slot's generation; \<open>node_id\<close> is that pair
  and the constructor of the value says which kind of node it names. A double is its 64-bit pattern.
\<close>

type_synonym i32 = "32 word"
type_synonym i64 = "64 word"
type_synonym f64 = "64 word"

record node_id =
  node_index :: u32
  node_generation :: u32

datatype heap_node_kind =
    ObjectNode | ShapeNode | VarRefNode | ContextNode | FunctionBytecodeNode | StringNode | BigIntNode

datatype heap_error =
    WrongKind heap_node_kind heap_node_kind
  | Stale u32 u32
  | Overflow string
  | Allocation string
  | Underflow heap_node_kind u32 u32
  | Invariant string

type_synonym 'a heap_result = "(heap_error, 'a) outcome"

datatype raw_value =
    VUndefined | VNull | VBool bool | VInt i32 | VFloat f64 | VBigInt node_id | VShortBigInt i64
  | VString node_id | VSymbol u32 | VPrivate u32 | VObject node_id | VUninitialized | VException

fun is_map_storable_value :: "raw_value \<Rightarrow> bool" where
  "is_map_storable_value (VPrivate _) = False"
| "is_map_storable_value VUninitialized = False"
| "is_map_storable_value VException = False"
| "is_map_storable_value _ = True"

end
