(* ===== verification/Collection_Keys.thy ===== *)
theory Collection_Keys
  imports Heap_Identity
begin

text \<open>
  The keys of \<open>Map\<close> and \<open>Set\<close>: SameValueZero equality and hashing of keys
  (\<open>src/engine/value/collection_key.rs\<close>) and the hashers (\<open>src/engine/hash.rs\<close>).

  String and BigInt keys are handles; \<open>key_heap\<close> is what the heap offers here: the content of live
  nodes, the process-wide seed, and the keyed hasher of the standard library, as a function of the
  sequence of values written to it.
\<close>

unbundle bit_operations_syntax

section \<open>Contents and hash streams\<close>

datatype js_bigint = BigShort i64 | BigHeap int

datatype hash_write =
    WriteU8 u8 | WriteU16 u16 | WriteU32 u32 | WriteU64 u64 | WriteUsize nat | WriteBool bool
  | WriteBigInt js_bigint | WriteNode node_id

record key_heap =
  string_node :: "node_id \<Rightarrow> u16 list option"
  bigint_node :: "node_id \<Rightarrow> js_bigint option"
  hash_seed :: u64
  key_hasher :: "hash_write list \<Rightarrow> u64"

section \<open>Numbers\<close>

text \<open>The IEEE 754 comparisons of doubles on their bit patterns.\<close>

definition is_nan :: "f64 \<Rightarrow> bool" where
  "is_nan x \<longleftrightarrow> 0x7ff0000000000000 < (x AND 0x7fffffffffffffff)"

definition is_zero :: "f64 \<Rightarrow> bool" where
  "is_zero x \<longleftrightarrow> (x AND 0x7fffffffffffffff) = 0"

definition is_sign_negative :: "f64 \<Rightarrow> bool" where
  "is_sign_negative x \<longleftrightarrow> bit x 63"

definition f64_eq :: "f64 \<Rightarrow> f64 \<Rightarrow> bool" where
  "f64_eq x y \<longleftrightarrow> \<not> is_nan x \<and> \<not> is_nan y \<and> (x = y \<or> is_zero x \<and> is_zero y)"

definition NAN_BITS :: f64 where
  "NAN_BITS = 0x7ff8000000000000"

fun top_bit :: "nat \<Rightarrow> nat" where
  "top_bit n = (if n \<le> 1 then 0 else Suc (top_bit (n div 2)))"

declare top_bit.simps [simp del]

text \<open>\<open>f64::from(i32)\<close>: sign, biased exponent and the 52 bits after the leading one.\<close>

definition f64_of_i32 :: "i32 \<Rightarrow> f64" where
  "f64_of_i32 v =
     (if v = 0 then 0
      else let magnitude = nat \<bar>sint v\<bar>;
               exponent = top_bit magnitude;
               sign = (if sint v < 0 then push_bit 63 1 else 0)
           in sign OR of_nat ((1023 + exponent) * 2 ^ 52 + (magnitude * 2 ^ (52 - exponent) - 2 ^ 52)))"

fun number :: "raw_value \<Rightarrow> f64 option" where
  "number (VInt value) = Some (f64_of_i32 value)"
| "number (VFloat value) = Some value"
| "number _ = None"

section \<open>Key equality\<close>

definition string_content :: "key_heap \<Rightarrow> node_id \<Rightarrow> u16 list heap_result" where
  "string_content h node = (case string_node h node of None \<Rightarrow> Inl Panic | Some units \<Rightarrow> Inr units)"

definition bigint_content :: "key_heap \<Rightarrow> node_id \<Rightarrow> js_bigint heap_result" where
  "bigint_content h node = (case bigint_node h node of None \<Rightarrow> Inl Panic | Some value \<Rightarrow> Inr value)"

definition same_content :: "key_heap \<Rightarrow> raw_value \<Rightarrow> raw_value \<Rightarrow> bool heap_result" where
  "same_content h left right =
     (case left of
        VUndefined \<Rightarrow> Inr (right = VUndefined)
      | VNull \<Rightarrow> Inr (right = VNull)
      | VBool l \<Rightarrow> (case right of VBool r \<Rightarrow> Inr (l = r) | _ \<Rightarrow> Inr False)
      | VString l \<Rightarrow>
          (case right of
             VString r \<Rightarrow>
               if l = r then Inr True
               else and_then (string_content h l) (\<lambda>x. and_then (string_content h r) (\<lambda>y. Inr (x = y)))
           | _ \<Rightarrow> Inr False)
      | VShortBigInt l \<Rightarrow>
          (case right of
             VShortBigInt r \<Rightarrow> Inr (l = r)
           | VBigInt r \<Rightarrow> and_then (bigint_content h r) (\<lambda>y. Inr (y = BigShort l))
           | _ \<Rightarrow> Inr False)
      | VBigInt l \<Rightarrow>
          (case right of
             VShortBigInt r \<Rightarrow> and_then (bigint_content h l) (\<lambda>x. Inr (x = BigShort r))
           | VBigInt r \<Rightarrow>
               if l = r then Inr True
               else and_then (bigint_content h l) (\<lambda>x. and_then (bigint_content h r) (\<lambda>y. Inr (x = y)))
           | _ \<Rightarrow> Inr False)
      | VSymbol l \<Rightarrow> (case right of VSymbol r \<Rightarrow> Inr (l = r) | _ \<Rightarrow> Inr False)
      | VObject l \<Rightarrow> (case right of VObject r \<Rightarrow> Inr (l = r) | _ \<Rightarrow> Inr False)
      | _ \<Rightarrow> Inr False)"

definition same_value_zero :: "key_heap \<Rightarrow> raw_value \<Rightarrow> raw_value \<Rightarrow> bool heap_result" where
  "same_value_zero h left right =
     (case (number left, number right) of
        (Some l, Some r) \<Rightarrow> Inr (f64_eq l r \<or> is_nan l \<and> is_nan r)
      | _ \<Rightarrow> same_content h left right)"

definition same_value :: "key_heap \<Rightarrow> raw_value \<Rightarrow> raw_value \<Rightarrow> bool heap_result" where
  "same_value h left right =
     (case (number left, number right) of
        (Some l, Some r) \<Rightarrow>
          if is_zero l \<and> is_zero r then Inr (is_sign_negative l = is_sign_negative r)
          else same_value_zero h left right
      | _ \<Rightarrow> same_value_zero h left right)"

section \<open>Key hashing\<close>

definition fx_write :: "u64 \<Rightarrow> u64 \<Rightarrow> u64" where
  "fx_write state value = (word_rotl 5 state XOR value) * 0x517cc1b727220a95"

definition string_hash :: "key_heap \<Rightarrow> node_id \<Rightarrow> u64 heap_result" where
  "string_hash h node =
     and_then (string_content h node) (\<lambda>units.
       Inr (fold (\<lambda>unit state. fx_write state (ucast unit)) units (hash_seed h)))"

definition canonical_number_bits :: "f64 \<Rightarrow> u64" where
  "canonical_number_bits value =
     (if is_zero value then 0 else if is_nan value then NAN_BITS else value)"

fun key_writes :: "key_heap \<Rightarrow> raw_value \<Rightarrow> hash_write list heap_result" where
  "key_writes h VUndefined = Inr [WriteU8 0]"
| "key_writes h VNull = Inr [WriteU8 1]"
| "key_writes h (VBool value) = Inr [WriteU8 2, WriteBool value]"
| "key_writes h (VInt value) = Inr [WriteU8 3, WriteU64 (canonical_number_bits (f64_of_i32 value))]"
| "key_writes h (VFloat value) = Inr [WriteU8 3, WriteU64 (canonical_number_bits value)]"
| "key_writes h (VString node) =
     and_then (string_content h node) (\<lambda>units.
       Inr (WriteU8 4 # WriteUsize (length units) # map WriteU16 units))"
| "key_writes h (VShortBigInt value) = Inr [WriteU8 5, WriteBigInt (BigShort value)]"
| "key_writes h (VBigInt node) = and_then (bigint_content h node) (\<lambda>b. Inr [WriteU8 5, WriteBigInt b])"
| "key_writes h (VSymbol value) = Inr [WriteU8 6, WriteU32 value]"
| "key_writes h (VObject value) = Inr [WriteU8 7, WriteNode value]"
| "key_writes h _ = Inl Panic"

text \<open>\<open>CollectionIndex::hash_uncached\<close>: strings go through the cheap mixer, all other keys through
  the keyed hasher.\<close>

definition hash_uncached :: "key_heap \<Rightarrow> raw_value \<Rightarrow> u64 heap_result" where
  "hash_uncached h key =
     (case key of
        VString node \<Rightarrow> string_hash h node
      | _ \<Rightarrow> and_then (key_writes h key) (\<lambda>writes. Inr (key_hasher h writes)))"

section \<open>Keys as ECMAScript values\<close>

text \<open>
  \<open>key_of\<close> is the value a key denotes: one NaN, one zero, strings by their code units and BigInts by
  their content. \<open>resolves\<close> says that a key is storable and its handle is live.
\<close>

datatype js_key =
    KUndefined | KNull | KBool bool | KNumber u64 | KString "u16 list" | KBigInt js_bigint
  | KSymbol u32 | KObject node_id

fun key_of :: "key_heap \<Rightarrow> raw_value \<Rightarrow> js_key" where
  "key_of h VNull = KNull"
| "key_of h (VBool value) = KBool value"
| "key_of h (VInt value) = KNumber (canonical_number_bits (f64_of_i32 value))"
| "key_of h (VFloat value) = KNumber (canonical_number_bits value)"
| "key_of h (VString node) = KString (case string_node h node of None \<Rightarrow> [] | Some units \<Rightarrow> units)"
| "key_of h (VShortBigInt value) = KBigInt (BigShort value)"
| "key_of h (VBigInt node) = KBigInt (case bigint_node h node of None \<Rightarrow> BigShort 0 | Some b \<Rightarrow> b)"
| "key_of h (VSymbol value) = KSymbol value"
| "key_of h (VObject value) = KObject value"
| "key_of h _ = KUndefined"

fun resolves :: "key_heap \<Rightarrow> raw_value \<Rightarrow> bool" where
  "resolves h (VString node) \<longleftrightarrow> string_node h node \<noteq> None"
| "resolves h (VBigInt node) \<longleftrightarrow> bigint_node h node \<noteq> None"
| "resolves h key \<longleftrightarrow> is_map_storable_value key"

lemma zero_not_nan: "is_zero x \<Longrightarrow> \<not> is_nan x"
  by (simp add: is_zero_def is_nan_def)

lemma nan_bits: "is_nan NAN_BITS" "\<not> is_zero NAN_BITS"
  by (simp_all add: is_nan_def is_zero_def NAN_BITS_def)

lemma canonical_number_bits_eq:
  "canonical_number_bits x = canonical_number_bits y \<longleftrightarrow> f64_eq x y \<or> is_nan x \<and> is_nan y"
  using zero_not_nan nan_bits by (auto simp: canonical_number_bits_def f64_eq_def is_zero_def)

lemma same_value_zero_resolved:
  assumes "resolves h left" "resolves h right"
  shows "same_value_zero h left right = Inr (key_of h left = key_of h right)"
  using assms
  by (cases left; cases right)
    (auto simp: same_value_zero_def same_content_def canonical_number_bits_eq string_content_def bigint_content_def)

lemma hash_uncached_key:
  assumes "resolves h key"
  shows "\<exists>hash. hash_uncached h key = Inr hash"
  using assms by (cases key) (auto simp: hash_uncached_def string_hash_def string_content_def bigint_content_def)

lemma hash_uncached_cong:
  assumes "resolves h left" "resolves h right" "key_of h left = key_of h right"
  shows "hash_uncached h left = hash_uncached h right"
  using assms
  by (cases left; cases right)
    (auto simp: hash_uncached_def string_hash_def string_content_def bigint_content_def)

text \<open>C10. SameValueZero on keys: for storable keys with live handles the comparison never panics and
  decides whether the two keys denote the same ECMAScript value (one NaN, one zero, strings and BigInts
  by content, integers and doubles interchangeable), and keys that compare equal get the same hash.\<close>

theorem same_value_zero_correct:
  assumes "resolves h a" "resolves h b"
  shows "same_value_zero h a b = Inr (key_of h a = key_of h b) \<and>
    (same_value_zero h a b = Inr True \<longrightarrow> hash_uncached h a = hash_uncached h b) \<and>
    (\<exists>hash. hash_uncached h a = Inr hash)"
  using same_value_zero_resolved [OF assms] hash_uncached_cong [OF assms] hash_uncached_key [OF assms(1)]
  by simp

definition example_heap :: key_heap where
  "example_heap = \<lparr>string_node = (\<lambda>node. if node_index node \<le> 1 then Some [0x61, 0x62] else None),
     bigint_node = (\<lambda>_. None), hash_seed = 7, key_hasher = (\<lambda>writes. of_nat (length writes))\<rparr>"

theorem same_value_zero_correct_witness:
  "let a = VString \<lparr>node_index = 0, node_generation = 1\<rparr>; b = VString \<lparr>node_index = 1, node_generation = 4\<rparr>
   in resolves example_heap a \<and> resolves example_heap b
      \<and> same_value_zero example_heap a b = Inr True
      \<and> hash_uncached example_heap a = hash_uncached example_heap b"
proof -
  let ?a = "VString \<lparr>node_index = 0, node_generation = 1\<rparr>"
    and ?b = "VString \<lparr>node_index = 1, node_generation = 4\<rparr>"
  have "resolves example_heap ?a" "resolves example_heap ?b" "key_of example_heap ?a = key_of example_heap ?b"
    by (simp_all add: example_heap_def)
  with same_value_zero_correct [of example_heap ?a ?b] show ?thesis by simp
qed

end
