(* ===== verification/Collection_Store.thy ===== *)
theory Collection_Store
  imports Collection_Keys "HOL-Library.AList"
begin

text \<open>
  The record storage of \<open>Map\<close> and \<open>Set\<close>: the key index (\<open>src/engine/heap/collection_index.rs\<close>) and
  the insertion-ordered records (\<open>src/engine/heap/collection_records.rs\<close>).

  The hash table of buckets is an association list. Capacities are not modelled, so the calls that
  only give memory back are not there. \<open>binary_search_by_key\<close> and \<open>partition_point\<close> of the standard
  library are modelled by their contract on sorted slices: the position of the entry with the key, and
  the length of the prefix that satisfies the predicate.
\<close>

section \<open>The key index\<close>

definition STRING_HASH_CACHE_SIZE :: nat where
  "STRING_HASH_CACHE_SIZE = 8"

record collection_index =
  buckets :: "(u64 \<times> nat list) list"
  string_hashes :: "(node_id \<times> u64) list option"

definition empty_index :: collection_index where
  "empty_index = \<lparr>buckets = [], string_hashes = None\<rparr>"

definition cache_remember :: "(node_id \<times> u64) list \<Rightarrow> node_id \<Rightarrow> u64 \<Rightarrow> (node_id \<times> u64) list" where
  "cache_remember entries node hash =
     (if length entries = STRING_HASH_CACHE_SIZE then tl entries else entries) @ [(node, hash)]"

definition index_hash ::
  "key_heap \<Rightarrow> collection_index \<Rightarrow> raw_value \<Rightarrow> (u64 \<times> collection_index) heap_result" where
  "index_hash h ix key =
     (case key of
        VString node \<Rightarrow>
          (case Option.bind (string_hashes ix) (\<lambda>cache. map_of cache node) of
             Some hash \<Rightarrow> Inr (hash, ix)
           | None \<Rightarrow>
               and_then (hash_uncached h key) (\<lambda>hash.
                 let cache = (case string_hashes ix of None \<Rightarrow> [] | Some cache \<Rightarrow> cache)
                 in Inr (hash, ix\<lparr>string_hashes := Some (cache_remember cache node hash)\<rparr>)))
      | _ \<Rightarrow> and_then (hash_uncached h key) (\<lambda>hash. Inr (hash, ix)))"

definition index_insert_hashed :: "collection_index \<Rightarrow> u64 \<Rightarrow> nat \<Rightarrow> collection_index" where
  "index_insert_hashed ix hash index =
     ix\<lparr>buckets := AList.update hash
          ((case map_of (buckets ix) hash of None \<Rightarrow> [] | Some bucket \<Rightarrow> bucket) @ [index]) (buckets ix)\<rparr>"

definition index_remove_hashed ::
  "collection_index \<Rightarrow> u64 \<Rightarrow> nat \<Rightarrow> collection_index heap_result" where
  "index_remove_hashed ix hash index =
     (case map_of (buckets ix) hash of
        None \<Rightarrow> Inl Panic
      | Some bucket \<Rightarrow>
          (case first_index (\<lambda>entry. entry = index) bucket of
             None \<Rightarrow> Inl Panic
           | Some position \<Rightarrow>
               and_then (vec_swap_remove bucket position) (\<lambda>(_, bucket').
                 Inr (ix\<lparr>buckets := if bucket' = [] then AList.delete hash (buckets ix)
                                   else AList.update hash bucket' (buckets ix)\<rparr>))))"

definition index_clear :: "collection_index \<Rightarrow> collection_index" where
  "index_clear ix = ix\<lparr>buckets := [], string_hashes := None\<rparr>"

section \<open>Records\<close>

record map_record =
  record_key :: raw_value
  record_value :: raw_value

definition vacant :: map_record where
  "vacant = \<lparr>record_key = VUndefined, record_value = VUndefined\<rparr>"

record slot =
  slot_record :: map_record
  slot_hash :: u64

record live_entry =
  entry_id :: nat
  entry_slot :: u32

definition DEAD :: u32 where
  "DEAD = 0xffffffff"

definition USIZE_MAX :: nat where
  "USIZE_MAX = 2 ^ 64 - 1"

record collection_records =
  slots :: "slot list"
  live :: "live_entry list"
  live_len :: nat
  key_index :: collection_index
  next_id :: nat

definition default_records :: collection_records where
  "default_records = \<lparr>slots = [], live = [], live_len = 0, key_index = empty_index, next_id = 0\<rparr>"

definition binary_search_id :: "live_entry list \<Rightarrow> nat \<Rightarrow> nat option" where
  "binary_search_id entries i = first_index (\<lambda>entry. entry_id entry = i) entries"

definition live_entry_of :: "collection_records \<Rightarrow> nat \<Rightarrow> live_entry option" where
  "live_entry_of r i =
     (case binary_search_id (live r) i of
        None \<Rightarrow> None
      | Some position \<Rightarrow>
          let entry = live r ! position in if entry_slot entry \<noteq> DEAD then Some entry else None)"

definition slot_at :: "collection_records \<Rightarrow> live_entry \<Rightarrow> slot heap_result" where
  "slot_at r entry = vec_get (slots r) (unat (entry_slot entry))"

definition get_record :: "collection_records \<Rightarrow> nat \<Rightarrow> map_record option heap_result" where
  "get_record r i =
     (case live_entry_of r i of
        None \<Rightarrow> Inr None
      | Some entry \<Rightarrow> and_then (slot_at r entry) (\<lambda>s. Inr (Some (slot_record s))))"

definition replace_value ::
  "collection_records \<Rightarrow> nat \<Rightarrow> raw_value \<Rightarrow> (raw_value option \<times> collection_records) heap_result" where
  "replace_value r i value =
     (case live_entry_of r i of
        None \<Rightarrow> Inr (None, r)
      | Some entry \<Rightarrow>
          and_then (slot_at r entry) (\<lambda>s.
            let new_slot = s\<lparr>slot_record := (slot_record s)\<lparr>record_value := value\<rparr>\<rparr>
            in Inr (Some (record_value (slot_record s)),
                    r\<lparr>slots := (slots r)[unat (entry_slot entry) := new_slot]\<rparr>)))"

definition live_entries :: "collection_records \<Rightarrow> live_entry list" where
  "live_entries r = filter (\<lambda>entry. entry_slot entry \<noteq> DEAD) (live r)"

definition record_ids :: "collection_records \<Rightarrow> nat list" where
  "record_ids r = map entry_id (live_entries r)"

definition next_at_or_after ::
  "collection_records \<Rightarrow> nat \<Rightarrow> (nat \<times> map_record) option heap_result" where
  "next_at_or_after r cursor =
     (let start = length (takeWhile (\<lambda>entry. entry_id entry < cursor) (live r))
      in case find (\<lambda>entry. entry_slot entry \<noteq> DEAD) (drop start (live r)) of
           None \<Rightarrow> Inr None
         | Some entry \<Rightarrow>
             and_then (slot_at r entry) (\<lambda>s. Inr (Some (entry_id entry, slot_record s))))"

fun find_in_bucket ::
  "key_heap \<Rightarrow> collection_records \<Rightarrow> raw_value \<Rightarrow> nat list \<Rightarrow> (nat \<times> map_record) option heap_result" where
  "find_in_bucket h r key [] = Inr None"
| "find_in_bucket h r key (index # rest) =
     and_then (get_record r index) (\<lambda>found.
       case found of
         None \<Rightarrow> Inl Panic
       | Some candidate \<Rightarrow>
           and_then (same_value_zero h (record_key candidate) key) (\<lambda>same.
             if same then Inr (Some (index, candidate)) else find_in_bucket h r key rest))"

definition find_entry ::
  "key_heap \<Rightarrow> collection_records \<Rightarrow> raw_value \<Rightarrow>
   ((nat \<times> map_record) option \<times> collection_records) heap_result" where
  "find_entry h r key =
     and_then (index_hash h (key_index r) key) (\<lambda>(hash, ix).
       case map_of (buckets ix) hash of
         None \<Rightarrow> Inr (None, r\<lparr>key_index := ix\<rparr>)
       | Some bucket \<Rightarrow>
           and_then (find_in_bucket h r key bucket) (\<lambda>found. Inr (found, r\<lparr>key_index := ix\<rparr>)))"

definition preflight_insert :: "collection_records \<Rightarrow> unit heap_result" where
  "preflight_insert r =
     (if next_id r = USIZE_MAX
      then Inl (Err (Overflow ''advancing collection record identity'')) else Inr ())"

definition insert_hashed ::
  "collection_records \<Rightarrow> map_record \<Rightarrow> u64 \<Rightarrow> (nat \<times> collection_records) heap_result" where
  "insert_hashed r rec hash =
     (let i = next_id r in
      if i = USIZE_MAX then Inl Panic
      else if 2 ^ 32 \<le> length (slots r) then Inl Panic
      else Inr (i, r\<lparr>next_id := i + 1,
                     key_index := index_insert_hashed (key_index r) hash i,
                     slots := slots r @ [\<lparr>slot_record = rec, slot_hash = hash\<rparr>],
                     live := live r @ [\<lparr>entry_id = i, entry_slot = of_nat (length (slots r))\<rparr>],
                     live_len := live_len r + 1\<rparr>))"

definition insert_record ::
  "key_heap \<Rightarrow> collection_records \<Rightarrow> map_record \<Rightarrow> (nat \<times> collection_records) heap_result" where
  "insert_record h r rec =
     and_then (index_hash h (key_index r) (record_key rec)) (\<lambda>(hash, ix).
       insert_hashed (r\<lparr>key_index := ix\<rparr>) rec hash)"

fun compact_entries :: "live_entry list \<Rightarrow> slot list \<Rightarrow> slot list \<Rightarrow> (live_entry list \<times> slot list) heap_result"
where
  "compact_entries [] old new = Inr ([], new)"
| "compact_entries (entry # rest) old new =
     (if entry_slot entry = DEAD
      then and_then (compact_entries rest old new) (\<lambda>(entries, new'). Inr (entry # entries, new'))
      else if 2 ^ 32 \<le> length new then Inl Panic
      else and_then (vec_get old (unat (entry_slot entry))) (\<lambda>s.
           and_then (compact_entries rest
             (old[unat (entry_slot entry) := \<lparr>slot_record = vacant, slot_hash = 0\<rparr>]) (new @ [s]))
             (\<lambda>(entries, new').
               Inr (entry\<lparr>entry_slot := of_nat (length new)\<rparr> # entries, new'))))"

definition compact_records :: "collection_records \<Rightarrow> collection_records heap_result" where
  "compact_records r =
     and_then (compact_entries (live r) (slots r) []) (\<lambda>(entries, new).
       Inr (r\<lparr>slots := new, live := filter (\<lambda>entry. entry_slot entry \<noteq> DEAD) entries\<rparr>))"

definition remove_record ::
  "collection_records \<Rightarrow> nat \<Rightarrow> (map_record option \<times> collection_records) heap_result" where
  "remove_record r i =
     (case binary_search_id (live r) i of
        None \<Rightarrow> Inr (None, r)
      | Some position \<Rightarrow>
          let entry = live r ! position in
          if entry_slot entry = DEAD then Inr (None, r)
          else
            and_then (slot_at r entry) (\<lambda>s.
            and_then (index_remove_hashed (key_index r) (slot_hash s) i) (\<lambda>ix.
              if live_len r = 0 then Inl Panic
              else
                let r' = r\<lparr>slots := (slots r)[unat (entry_slot entry) := s\<lparr>slot_record := vacant\<rparr>],
                           key_index := ix,
                           live := (live r)[position := entry\<lparr>entry_slot := DEAD\<rparr>],
                           live_len := live_len r - 1\<rparr>
                in if min USIZE_MAX (min USIZE_MAX (live_len r' * 4) + 64) < length (slots r')
                   then and_then (compact_records r') (\<lambda>r''. Inr (Some (slot_record s), r''))
                   else Inr (Some (slot_record s), r'))))"

definition take_all ::
  "collection_records \<Rightarrow> (live_entry list \<times> slot list \<times> nat) \<times> collection_records" where
  "take_all r =
     ((live r, slots r, live_len r),
      r\<lparr>key_index := index_clear (key_index r), slots := [], live := [], live_len := 0\<rparr>)"

text \<open>\<open>CollectionRecordsIntoIter\<close>, run to its end.\<close>

fun into_iter :: "live_entry list \<Rightarrow> slot list \<Rightarrow> map_record list heap_result" where
  "into_iter [] ss = Inr []"
| "into_iter (entry # rest) ss =
     (if entry_slot entry = DEAD then into_iter rest ss
      else and_then (vec_get ss (unat (entry_slot entry))) (\<lambda>s.
           and_then (into_iter rest (ss[unat (entry_slot entry) := s\<lparr>slot_record := vacant\<rparr>])) (\<lambda>records.
             Inr (slot_record s # records))))"

section \<open>Validation\<close>

fun validate_entries ::
  "nat \<Rightarrow> nat \<Rightarrow> nat option \<Rightarrow> bool list \<Rightarrow> live_entry list \<Rightarrow> bool list heap_result" where
  "validate_entries bound len previous occupied [] = Inr occupied"
| "validate_entries bound len previous occupied (entry # rest) =
     (if bound \<le> entry_id entry
         \<or> (case previous of None \<Rightarrow> False | Some p \<Rightarrow> entry_id entry \<le> p)
      then Inl (Err (Invariant ''collection record IDs are not strictly ordered''))
      else if entry_slot entry = DEAD
      then validate_entries bound len (Some (entry_id entry)) occupied rest
      else let slot = unat (entry_slot entry) in
           if len \<le> slot \<or> occupied ! slot
           then Inl (Err (Invariant ''collection record slots do not match live storage''))
           else validate_entries bound len (Some (entry_id entry)) (occupied[slot := True]) rest)"

fun validate_bucket ::
  "key_heap \<Rightarrow> collection_records \<Rightarrow> u64 \<Rightarrow> nat list \<Rightarrow> nat list \<Rightarrow> nat list heap_result" where
  "validate_bucket h r hash [] seen = Inr seen"
| "validate_bucket h r hash (index # rest) seen =
     and_then (get_record r index) (\<lambda>found.
       case found of
         None \<Rightarrow> Inl (Err (Invariant ''collection index points outside live records''))
       | Some rec \<Rightarrow>
           if index \<in> set seen
           then Inl (Err (Invariant ''collection index does not match its records''))
           else and_then (hash_uncached h (record_key rec)) (\<lambda>actual.
             if actual \<noteq> hash
             then Inl (Err (Invariant ''collection index does not match its records''))
             else validate_bucket h r hash rest (index # seen)))"

fun validate_buckets ::
  "key_heap \<Rightarrow> collection_records \<Rightarrow> (u64 \<times> nat list) list \<Rightarrow> nat list \<Rightarrow> nat list heap_result" where
  "validate_buckets h r [] seen = Inr seen"
| "validate_buckets h r ((hash, indices) # rest) seen =
     (if indices = [] then Inl (Err (Invariant ''collection index has an empty bucket''))
      else and_then (validate_bucket h r hash indices seen) (\<lambda>seen. validate_buckets h r rest seen))"

definition validate_index :: "key_heap \<Rightarrow> collection_records \<Rightarrow> unit heap_result" where
  "validate_index h r =
     and_then (validate_buckets h r (buckets (key_index r)) []) (\<lambda>seen.
       if length seen \<noteq> live_len r
       then Inl (Err (Invariant ''collection index is missing live records'')) else Inr ())"

definition validate_records :: "key_heap \<Rightarrow> collection_records \<Rightarrow> unit heap_result" where
  "validate_records h r =
     and_then (validate_entries (next_id r) (length (slots r)) None
                 (replicate (length (slots r)) False) (live r)) (\<lambda>occupied.
       if length (filter (\<lambda>b. b) occupied) \<noteq> live_len r \<or> length (live r) \<noteq> length (slots r)
       then Inl (Err (Invariant ''collection record IDs do not match live storage''))
       else validate_index h r)"

section \<open>Iterators\<close>

text \<open>
  The storage side of \<open>Map Iterator.prototype.next\<close> (\<open>src/engine/builtins/map.rs\<close>): an iterator is
  its cursor, or \<open>None\<close> once it is exhausted. The result is the record to hand out.
\<close>

definition map_iterator_next ::
  "collection_records \<Rightarrow> nat option \<Rightarrow> ((nat \<times> map_record) option \<times> nat option) heap_result" where
  "map_iterator_next r cursor =
     (case cursor of
        None \<Rightarrow> Inr (None, None)
      | Some index \<Rightarrow>
          and_then (next_at_or_after r index) (\<lambda>found.
            case found of
              None \<Rightarrow> Inr (None, None)
            | Some (record_index, rec) \<Rightarrow>
                if record_index = USIZE_MAX
                then Inl (Err (Invariant ''Map Iterator record index overflowed''))
                else Inr (Some (record_index, rec), Some (record_index + 1))))"

end
