(* ===== verification/Collection_Refinement.thy ===== *)
theory Collection_Refinement
  imports Collection_Store
begin

text \<open>
  The record storage refines an insertion-ordered log of identified records. \<open>contents\<close> is the log:
  the live records with their identities, oldest first. The invariant has a structural part
  (\<open>store_wf\<close>: entries sorted by identity, live slots distinct and in range) and a part on the key
  index (\<open>index_wf\<close>: the buckets hold exactly the live identities, under the hash of their key).
\<close>

section \<open>Structure\<close>

definition entry_record :: "collection_records \<Rightarrow> live_entry \<Rightarrow> map_record" where
  "entry_record r e = slot_record (slots r ! unat (entry_slot e))"

definition entry_hash :: "collection_records \<Rightarrow> live_entry \<Rightarrow> u64" where
  "entry_hash r e = slot_hash (slots r ! unat (entry_slot e))"

definition slot_log :: "collection_records \<Rightarrow> (nat \<times> slot) list" where
  "slot_log r = map (\<lambda>e. (entry_id e, slots r ! unat (entry_slot e))) (live_entries r)"

definition contents :: "collection_records \<Rightarrow> (nat \<times> map_record) list" where
  "contents r = map (\<lambda>e. (entry_id e, entry_record r e)) (live_entries r)"

definition store_wf :: "collection_records \<Rightarrow> bool" where
  "store_wf r \<longleftrightarrow>
     sorted_wrt (<) (map entry_id (live r)) \<and> (\<forall>e \<in> set (live r). entry_id e < next_id r)
     \<and> length (live r) = length (slots r) \<and> length (slots r) < 2 ^ 32
     \<and> (\<forall>e \<in> set (live_entries r). unat (entry_slot e) < length (slots r))
     \<and> distinct (map entry_slot (live_entries r))
     \<and> live_len r = length (live_entries r) \<and> next_id r \<le> USIZE_MAX"

lemma unat_DEAD [simp]: "unat DEAD = 2 ^ 32 - 1"
  by (simp add: DEAD_def)

lemma live_entries_subset: "set (live_entries r) \<subseteq> set (live r)"
  by (auto simp: live_entries_def)

lemma sorted_ids_inj:
  assumes "sorted_wrt (<) (map entry_id es)" "e \<in> set es" "f \<in> set es" "entry_id e = entry_id f"
  shows "e = f"
proof -
  have "inj_on entry_id (set es)"
    using assms(1) strict_sorted_iff distinct_map by blast
  with assms(2-4) show ?thesis by (auto dest: inj_onD)
qed

lemma sorted_live_entries:
  "sorted_wrt (<) (map entry_id (live r)) \<Longrightarrow> sorted_wrt (<) (map entry_id (live_entries r))"
  unfolding live_entries_def sorted_wrt_map by (rule sorted_wrt_filter)

text \<open>Lookup by identity finds the entry with that identity, wherever it is.\<close>

lemma binary_search_id_eq:
  assumes "sorted_wrt (<) (map entry_id es)" "p < length es" "entry_id (es ! p) = i"
  shows "binary_search_id es i = Some p"
proof -
  have "entry_id (es ! j) \<noteq> i" if "j < p" for j
    using sorted_wrt_nth_less [OF assms(1), of j p] assms(2,3) that by simp
  with assms(2,3) show ?thesis by (simp add: binary_search_id_def first_index_eq_Some)
qed

lemma binary_search_id_None:
  "binary_search_id es i = None \<longleftrightarrow> i \<notin> entry_id ` set es"
  by (auto simp: binary_search_id_def first_index_eq_None)

lemma live_entry_of_eq:
  assumes "store_wf r"
  shows "live_entry_of r i = find (\<lambda>e. entry_id e = i) (live_entries r)"
proof (cases "\<exists>e \<in> set (live r). entry_id e = i")
  case True
  then obtain p where p: "p < length (live r)" "entry_id (live r ! p) = i"
    by (auto simp: in_set_conv_nth)
  have sorted: "sorted_wrt (<) (map entry_id (live r))" using assms by (simp add: store_wf_def)
  have unique: "e = live r ! p" if "e \<in> set (live r)" "entry_id e = i" for e
    using sorted_ids_inj [OF sorted that(1) _ ] p that(2) by simp
  show ?thesis
  proof (cases "entry_slot (live r ! p) = DEAD")
    case True
    then have "find (\<lambda>e. entry_id e = i) (live_entries r) = None"
      using unique by (auto simp: find_None_iff live_entries_def)
    with True p show ?thesis by (simp add: live_entry_of_def binary_search_id_eq [OF sorted])
  next
    case False
    then have "live r ! p \<in> set (live_entries r)" using p by (simp add: live_entries_def)
    then obtain e where e: "find (\<lambda>e. entry_id e = i) (live_entries r) = Some e"
      using p(2) by (cases "find (\<lambda>e. entry_id e = i) (live_entries r)") (auto simp: find_None_iff)
    then have "e \<in> set (live_entries r)" "entry_id e = i"
      by (auto simp: find_Some_iff)
    with unique live_entries_subset have "e = live r ! p" by blast
    with False p e show ?thesis by (simp add: live_entry_of_def binary_search_id_eq [OF sorted])
  qed
next
  case False
  then have "binary_search_id (live r) i = None" by (auto simp: binary_search_id_None)
  moreover have "find (\<lambda>e. entry_id e = i) (live_entries r) = None"
    using False by (auto simp: find_None_iff live_entries_def)
  ultimately show ?thesis by (simp add: live_entry_of_def)
qed

lemma slot_at_live:
  "store_wf r \<Longrightarrow> e \<in> set (live_entries r) \<Longrightarrow> slot_at r e = Inr (slots r ! unat (entry_slot e))"
  by (simp add: slot_at_def store_wf_def)

lemma map_of_entries:
  "map_of (map (\<lambda>e. (entry_id e, g e)) es) i = map_option g (find (\<lambda>e. entry_id e = i) es)"
  by (induction es) auto

lemma get_record_eq:
  assumes "store_wf r"
  shows "get_record r i = Inr (map_of (contents r) i)"
proof (cases "find (\<lambda>e. entry_id e = i) (live_entries r)")
  case None
  then show ?thesis by (simp add: get_record_def live_entry_of_eq [OF assms] contents_def map_of_entries)
next
  case (Some e)
  then have "e \<in> set (live_entries r)" by (auto simp: find_Some_iff)
  with Some show ?thesis
    by (simp add: get_record_def live_entry_of_eq [OF assms] contents_def map_of_entries
        slot_at_live [OF assms] entry_record_def)
qed

lemma sorted_contents: "store_wf r \<Longrightarrow> sorted_wrt (<) (map fst (contents r))"
  using sorted_live_entries [of r] by (simp add: store_wf_def contents_def comp_def)

lemma contents_below_next_id: "store_wf r \<Longrightarrow> (i, rec) \<in> set (contents r) \<Longrightarrow> i < next_id r"
  using live_entries_subset [of r] by (auto simp: store_wf_def contents_def)

lemma find_all_above: "\<forall>x \<in> set xs. c \<le> f x \<Longrightarrow> find (\<lambda>x. c \<le> f x) (filter Q xs) = find Q xs"
  for c :: nat
  by (induction xs) auto

lemma find_drop_takeWhile:
  fixes c :: nat
  assumes "sorted_wrt (<) (map f xs)"
  shows "find Q (drop (length (takeWhile (\<lambda>x. f x < c) xs)) xs)
    = find (\<lambda>x. c \<le> f x) (filter Q xs)"
  using assms
proof (induction xs)
  case (Cons x xs)
  show ?case
  proof (cases "f x < c")
    case True
    with Cons show ?thesis by auto
  next
    case False
    then have "\<forall>y \<in> set (x # xs). c \<le> f y" using Cons.prems by fastforce
    from find_all_above [OF this, of Q] False show ?thesis by simp
  qed
qed simp

lemma find_entries:
  "find (\<lambda>(i, _). c \<le> i) (map (\<lambda>e. (entry_id e, g e)) es)
   = map_option (\<lambda>e. (entry_id e, g e)) (find (\<lambda>e. c \<le> entry_id e) es)"
  by (induction es) auto

lemma next_at_or_after_eq:
  assumes "store_wf r"
  shows "next_at_or_after r cursor = Inr (find (\<lambda>(i, _). cursor \<le> i) (contents r))"
proof -
  have sorted: "sorted_wrt (<) (map entry_id (live r))" using assms by (simp add: store_wf_def)
  note found = find_drop_takeWhile [OF sorted, of "\<lambda>e. entry_slot e \<noteq> DEAD" cursor, folded live_entries_def]
  show ?thesis
  proof (cases "find (\<lambda>e. cursor \<le> entry_id e) (live_entries r)")
    case None
    then show ?thesis by (simp add: next_at_or_after_def Let_def found contents_def find_entries)
  next
    case (Some e)
    then have "e \<in> set (live_entries r)" by (auto simp: find_Some_iff)
    with Some show ?thesis
      by (simp add: next_at_or_after_def Let_def found contents_def find_entries slot_at_live [OF assms]
          entry_record_def)
  qed
qed

section \<open>Updates\<close>

lemma contents_slot_log: "contents r = map (\<lambda>(i, s). (i, slot_record s)) (slot_log r)"
  by (simp add: contents_def slot_log_def entry_record_def)

lemma distinct_log_ids: "store_wf r \<Longrightarrow> distinct (map fst (slot_log r))"
  using sorted_live_entries [of r] by (simp add: store_wf_def slot_log_def comp_def strict_sorted_iff)

lemma insert_hashed_log:
  assumes wf: "store_wf r" and room: "length (slots r) < 2 ^ 32 - 1" "next_id r < USIZE_MAX"
  obtains r' where "insert_hashed r rec hash = Inr (next_id r, r')" "store_wf r'"
    "slot_log r' = slot_log r @ [(next_id r, \<lparr>slot_record = rec, slot_hash = hash\<rparr>)]"
    "key_index r' = index_insert_hashed (key_index r) hash (next_id r)" "next_id r' = next_id r + 1"
proof
  let ?new = "\<lparr>entry_id = next_id r, entry_slot = of_nat (length (slots r))\<rparr>"
    and ?slot = "\<lparr>slot_record = rec, slot_hash = hash\<rparr>"
  let ?r' = "r\<lparr>next_id := Suc (next_id r), key_index := index_insert_hashed (key_index r) hash (next_id r),
    slots := slots r @ [?slot], live := live r @ [?new], live_len := Suc (live_len r)\<rparr>"
  have n: "unat (of_nat (length (slots r)) :: u32) = length (slots r)"
    using room(1) by (simp add: unat_of_nat take_bit_nat_eq_self)
  then have alive: "of_nat (length (slots r)) \<noteq> DEAD" using room(1) by (metis less_irrefl unat_DEAD)
  have entries: "live_entries ?r' = live_entries r @ [?new]" using alive by (simp add: live_entries_def)
  have old: "unat (entry_slot e) < length (slots r)" if "e \<in> set (live_entries r)" for e
    using wf that by (simp add: store_wf_def)
  show "insert_hashed r rec hash = Inr (next_id r, ?r')"
    using room by (simp add: insert_hashed_def Let_def)
  show "slot_log ?r' = slot_log r @ [(next_id r, ?slot)]"
    using old by (simp add: slot_log_def entries n nth_append)
  have "sorted_wrt (<) (map entry_id (live ?r'))"
    using wf by (auto simp: store_wf_def sorted_wrt_append)
  moreover have "distinct (map entry_slot (live_entries ?r'))"
  proof -
    have "of_nat (length (slots r)) \<notin> entry_slot ` set (live_entries r)"
      using old n by (metis image_iff less_irrefl)
    then show ?thesis using wf unfolding entries by (simp add: store_wf_def)
  qed
  ultimately show "store_wf ?r'"
    using wf room old n unfolding store_wf_def entries by (auto simp: less_Suc_eq)
qed simp_all

abbreviation alive :: "live_entry \<Rightarrow> bool" where
  "alive e \<equiv> entry_slot e \<noteq> DEAD"

lemma small_not_DEAD: "k < 2 ^ 32 - 1 \<Longrightarrow> of_nat k \<noteq> DEAD"
proof
  assume k: "k < 2 ^ 32 - 1" "of_nat k = DEAD"
  from k(1) have "unat (of_nat k :: u32) = k" by (simp add: unat_of_nat take_bit_nat_eq_self)
  with k show False by simp
qed

lemma compact_entries_eq:
  assumes "\<forall>e \<in> set (filter alive es). unat (entry_slot e) < length old"
    and "distinct (map entry_slot (filter alive es))"
    and "length new + length (filter alive es) < 2 ^ 32"
  shows "\<exists>es'. compact_entries es old new
      = Inr (es', new @ map (\<lambda>e. old ! unat (entry_slot e)) (filter alive es))
    \<and> filter alive es' = map (\<lambda>(e, k). e\<lparr>entry_slot := of_nat k\<rparr>)
        (zip (filter alive es) [length new..<length new + length (filter alive es)])"
  using assms
proof (induction es arbitrary: old new)
  case (Cons e es)
  show ?case
  proof (cases "alive e")
    case True
    let ?old = "old[unat (entry_slot e) := \<lparr>slot_record = vacant, slot_hash = 0\<rparr>]"
      and ?new = "new @ [old ! unat (entry_slot e)]"
    have other: "?old ! unat (entry_slot f) = old ! unat (entry_slot f)" if "f \<in> set (filter alive es)" for f
    proof -
      have "entry_slot e \<notin> entry_slot ` set (filter alive es)" using Cons.prems(2) True by simp
      with that have "entry_slot f \<noteq> entry_slot e" by (metis image_eqI)
      then show ?thesis by (metis nth_list_update_neq unsigned_word_eqI)
    qed
    obtain es' where es': "compact_entries es ?old ?new
        = Inr (es', ?new @ map (\<lambda>e. ?old ! unat (entry_slot e)) (filter alive es))"
      "filter alive es' = map (\<lambda>(e, k). e\<lparr>entry_slot := of_nat k\<rparr>)
        (zip (filter alive es) [length ?new..<length ?new + length (filter alive es)])"
      using Cons.IH [of ?old ?new] Cons.prems True by auto
    have "map (\<lambda>e. ?old ! unat (entry_slot e)) (filter alive es) = map (\<lambda>e. old ! unat (entry_slot e)) (filter alive es)"
      using other by simp
    moreover have "of_nat (length new) \<noteq> DEAD"
      using Cons.prems(3) True by (intro small_not_DEAD) simp
    ultimately show ?thesis
      using es' True Cons.prems(1,3) by (simp add: upt_conv_Cons del: upt_Suc)
  next
    case False
    then have "filter alive (e # es) = filter alive es" by simp
    with Cons.IH [of old new] Cons.prems obtain es' where
      "compact_entries es old new = Inr (es', new @ map (\<lambda>e. old ! unat (entry_slot e)) (filter alive es))"
      "filter alive es' = map (\<lambda>(e, k). e\<lparr>entry_slot := of_nat k\<rparr>)
        (zip (filter alive es) [length new..<length new + length (filter alive es)])"
      by (metis (no_types, lifting))
    with False show ?thesis by (intro exI [of _ "e # es'"]) simp
  qed
qed simp

lemma compact_records_log:
  assumes wf: "store_wf r"
  obtains r' where "compact_records r = Inr r'" "store_wf r'" "slot_log r' = slot_log r"
    "key_index r' = key_index r" "next_id r' = next_id r" "live_len r' = live_len r"
    "length (slots r') = live_len r"
proof -
  let ?old = "filter alive (live r)"
  let ?n = "length ?old"
  have old: "?old = live_entries r" by (simp add: live_entries_def)
  have n: "?n < 2 ^ 32" "live_len r = ?n"
    using wf length_filter_le [of alive "live r"] by (simp_all add: store_wf_def old [symmetric])
  obtain es' where es': "compact_entries (live r) (slots r) [] = Inr (es', map (\<lambda>e. slots r ! unat (entry_slot e)) ?old)"
    "filter alive es' = map (\<lambda>(e, k). e\<lparr>entry_slot := of_nat k\<rparr>) (zip ?old [0..<?n])"
    using compact_entries_eq [of "live r" "slots r" "[]"] wf n by (auto simp: store_wf_def old)
  let ?r' = "r\<lparr>slots := map (\<lambda>e. slots r ! unat (entry_slot e)) ?old, live := filter alive es'\<rparr>"
  have run: "compact_records r = Inr ?r'" by (simp add: compact_records_def es'(1))
  have entries: "live_entries ?r' = map (\<lambda>(e, k). e\<lparr>entry_slot := of_nat k\<rparr>) (zip ?old [0..<?n])"
    by (simp add: live_entries_def es'(2) [symmetric])
  have len: "length (live_entries ?r') = ?n" by (simp add: entries)
  have nth: "live_entries ?r' ! k = (?old ! k)\<lparr>entry_slot := of_nat k\<rparr>" if "k < ?n" for k
    using that by (simp add: entries)
  have small: "unat (of_nat k :: u32) = k" if "k < ?n" for k
    using that n(1) by (simp add: unat_of_nat take_bit_nat_eq_self)
  have ids: "map entry_id (live_entries ?r') = map entry_id ?old"
    by (rule nth_equalityI) (simp_all add: len nth)
  have log: "slot_log ?r' = slot_log r"
    by (rule nth_equalityI) (simp_all add: slot_log_def len old [symmetric] nth small)
  have "map (\<lambda>e. unat (entry_slot e)) (live_entries ?r') = [0..<?n]"
    by (rule nth_equalityI) (simp_all add: len nth small)
  then have "distinct (map unat (map entry_slot (live_entries ?r')))"
    by (simp only: map_map comp_def distinct_upt)
  then have slots: "distinct (map entry_slot (live_entries ?r'))" by (simp only: distinct_map)
  have range: "\<forall>e \<in> set (live_entries ?r'). unat (entry_slot e) < ?n"
    by (auto simp: in_set_conv_nth len nth small simp del: length_filter_le)
  have live: "live ?r' = live_entries ?r'" by (simp add: live_entries_def)
  have "sorted_wrt (<) (map entry_id ?old)" "\<forall>e \<in> set ?old. entry_id e < next_id r"
    using wf sorted_live_entries [of r] by (simp_all add: store_wf_def live_entries_def)
  then have "\<forall>i \<in> set (map entry_id (live_entries ?r')). i < next_id r"
    "sorted_wrt (<) (map entry_id (live_entries ?r'))" unfolding ids by simp_all
  then have "store_wf ?r'"
    using wf slots range n len unfolding store_wf_def live by simp
  with that [OF run] log n(2) show ?thesis by simp
qed

lemma filter_alive_kill:
  assumes "sorted_wrt (<) (map entry_id es)" "p < length es" "alive (es ! p)"
  shows "filter alive (es[p := (es ! p)\<lparr>entry_slot := DEAD\<rparr>])
      = filter (\<lambda>f. entry_id f \<noteq> entry_id (es ! p)) (filter alive es)
    \<and> length (filter alive es) = Suc (length (filter alive (es[p := (es ! p)\<lparr>entry_slot := DEAD\<rparr>])))"
proof -
  let ?e = "es ! p"
  have es: "es = take p es @ ?e # drop (Suc p) es" using assms(2) by (rule id_take_nth_drop)
  then have sorted: "sorted_wrt (<) (map entry_id (take p es @ ?e # drop (Suc p) es))"
    using assms(1) by simp
  have other: "filter (\<lambda>f. entry_id f \<noteq> entry_id ?e) (filter alive xs) = filter alive xs"
    if "\<forall>f \<in> set xs. entry_id f \<noteq> entry_id ?e" for xs
    using that by (induction xs) auto
  have "\<forall>f \<in> set (take p es). entry_id f \<noteq> entry_id ?e" "\<forall>f \<in> set (drop (Suc p) es). entry_id f \<noteq> entry_id ?e"
    using sorted by (auto simp: sorted_wrt_append)
  note other [OF this(1)] other [OF this(2)]
  moreover have "filter alive (es[p := ?e\<lparr>entry_slot := DEAD\<rparr>]) = filter alive (take p es) @ filter alive (drop (Suc p) es)"
    using assms(2) by (simp add: upd_conv_take_nth_drop)
  moreover have "filter alive es = filter alive (take p es) @ ?e # filter alive (drop (Suc p) es)"
    using assms(3) by (subst es) simp
  ultimately show ?thesis by simp
qed

lemma kill_log:
  fixes r :: collection_records and s :: slot and ix :: collection_index
  assumes wf: "store_wf r" and p: "p < length (live r)" "alive (live r ! p)"
  defines "e \<equiv> live r ! p"
  defines "r' \<equiv> r\<lparr>slots := (slots r)[unat (entry_slot e) := s], key_index := ix,
    live := (live r)[p := e\<lparr>entry_slot := DEAD\<rparr>], live_len := live_len r - 1\<rparr>"
  shows "store_wf r'" and "slot_log r' = filter (\<lambda>(j, _). j \<noteq> entry_id e) (slot_log r)"
    and "live_len r \<noteq> 0"
proof -
  have sorted: "sorted_wrt (<) (map entry_id (live r))" using wf by (simp add: store_wf_def)
  have entries: "live_entries r' = filter (\<lambda>f. entry_id f \<noteq> entry_id e) (live_entries r)"
    and len: "length (live_entries r) = Suc (length (live_entries r'))"
    using filter_alive_kill [OF sorted p] by (simp_all add: live_entries_def r'_def e_def)
  have e: "e \<in> set (live_entries r)" using p by (simp add: live_entries_def e_def)
  have inj: "entry_slot f \<noteq> entry_slot e" if "f \<in> set (live_entries r)" "entry_id f \<noteq> entry_id e" for f
  proof -
    have "inj_on entry_slot (set (live_entries r))" using wf by (auto simp: store_wf_def distinct_map)
    with that e show ?thesis by (metis inj_onD)
  qed
  have "slots r' ! unat (entry_slot f) = slots r ! unat (entry_slot f)"
    if "f \<in> set (live_entries r)" "entry_id f \<noteq> entry_id e" for f
  proof -
    have "unat (entry_slot f) \<noteq> unat (entry_slot e)" using inj [OF that] by (metis unsigned_word_eqI)
    then show ?thesis by (simp add: r'_def)
  qed
  then show "slot_log r' = filter (\<lambda>(j, _). j \<noteq> entry_id e) (slot_log r)"
    unfolding slot_log_def entries by (simp add: filter_map comp_def)
  show "live_len r \<noteq> 0" using wf len by (simp add: store_wf_def)
  have ids: "map entry_id (live r') = map entry_id (live r)"
  proof -
    have "map entry_id (live r') = (map entry_id (live r))[p := map entry_id (live r) ! p]"
      using p(1) by (simp add: r'_def e_def map_update)
    then show ?thesis by (simp only: list_update_id)
  qed
  have "\<forall>i \<in> set (map entry_id (live r')). i < next_id r"
    unfolding ids using wf by (simp add: store_wf_def)
  then have "\<forall>f \<in> set (live r'). entry_id f < next_id r" by simp
  moreover have "distinct (map entry_slot (live_entries r'))"
    unfolding entries using wf by (simp add: store_wf_def distinct_map_filter)
  moreover have "next_id r' = next_id r" "length (live r') = length (live r)"
    "length (slots r') = length (slots r)" "live_len r' = live_len r - 1" by (simp_all add: r'_def)
  moreover have "\<forall>f \<in> set (live_entries r'). unat (entry_slot f) < length (slots r)"
    unfolding entries using wf by (simp add: store_wf_def)
  ultimately show "store_wf r'" using wf ids len by (simp add: store_wf_def)
qed

lemma replace_value_log:
  assumes wf: "store_wf r"
  shows "\<exists>r'. replace_value r i v = Inr (map_option record_value (map_of (contents r) i), r') \<and> store_wf r'
    \<and> slot_log r' = map (\<lambda>(j, s). (j, if j = i then s\<lparr>slot_record := (slot_record s)\<lparr>record_value := v\<rparr>\<rparr> else s))
        (slot_log r)
    \<and> key_index r' = key_index r \<and> next_id r' = next_id r"
proof (cases "find (\<lambda>e. entry_id e = i) (live_entries r)")
  case None
  then have "\<forall>e \<in> set (live_entries r). entry_id e \<noteq> i" by (simp add: find_None_iff)
  then have "map (\<lambda>(j, s). (j, if j = i then s\<lparr>slot_record := (slot_record s)\<lparr>record_value := v\<rparr>\<rparr> else s)) (slot_log r)
      = slot_log r" by (simp add: slot_log_def)
  with None wf show ?thesis
    by (simp add: replace_value_def live_entry_of_eq contents_def map_of_entries)
next
  case (Some e)
  then have e: "e \<in> set (live_entries r)" "entry_id e = i" by (auto simp: find_Some_iff)
  let ?s = "slots r ! unat (entry_slot e)"
  let ?s' = "?s\<lparr>slot_record := (slot_record ?s)\<lparr>record_value := v\<rparr>\<rparr>"
  let ?r' = "r\<lparr>slots := (slots r)[unat (entry_slot e) := ?s']\<rparr>"
  have entries: "live_entries ?r' = live_entries r" by (simp add: live_entries_def)
  have range: "unat (entry_slot f) < length (slots r)" if "f \<in> set (live_entries r)" for f
    using wf that by (simp add: store_wf_def)
  have same: "unat (entry_slot f) = unat (entry_slot e) \<longleftrightarrow> entry_id f = i" if "f \<in> set (live_entries r)" for f
  proof -
    have "inj_on entry_slot (set (live_entries r))" "inj_on entry_id (set (live_entries r))"
      using wf sorted_live_entries [of r] by (auto simp: store_wf_def distinct_map strict_sorted_iff)
    with that e show ?thesis by (metis inj_onD unsigned_word_eqI)
  qed
  have "replace_value r i v = Inr (Some (record_value (slot_record ?s)), ?r')"
    using Some e by (simp add: replace_value_def live_entry_of_eq [OF wf] slot_at_live [OF wf] Let_def)
  moreover have "map_of (contents r) i = Some (slot_record ?s)"
    using Some by (simp add: contents_def map_of_entries entry_record_def)
  moreover have "store_wf ?r'" using wf unfolding store_wf_def entries by simp
  moreover have "slot_log ?r' = map (\<lambda>(j, s). (j, if j = i then s\<lparr>slot_record := (slot_record s)\<lparr>record_value := v\<rparr>\<rparr> else s))
      (slot_log r)"
  proof -
    have "slots ?r' ! unat (entry_slot f) = (if entry_id f = i
        then (slots r ! unat (entry_slot f))\<lparr>slot_record := (slot_record (slots r ! unat (entry_slot f)))\<lparr>record_value := v\<rparr>\<rparr>
        else slots r ! unat (entry_slot f))" if "f \<in> set (live_entries r)" for f
      using same [OF that] range [OF that] by (cases "entry_id f = i") simp_all
    then show ?thesis unfolding slot_log_def entries by simp
  qed
  ultimately show ?thesis by simp
qed

section \<open>The key index\<close>

definition bucket_of :: "collection_index \<Rightarrow> u64 \<Rightarrow> nat list" where
  "bucket_of ix hash = (case map_of (buckets ix) hash of None \<Rightarrow> [] | Some bucket \<Rightarrow> bucket)"

text \<open>The index holds exactly the pairs of an identity and its hash in \<open>H\<close>.\<close>

definition index_wf :: "collection_index \<Rightarrow> (nat \<times> u64) set \<Rightarrow> bool" where
  "index_wf ix H \<longleftrightarrow>
     distinct (map fst (buckets ix)) \<and> (\<forall>(hash, bucket) \<in> set (buckets ix). bucket \<noteq> [] \<and> distinct bucket)
     \<and> (\<forall>hash i. i \<in> set (bucket_of ix hash) \<longleftrightarrow> (i, hash) \<in> H)"

lemma bucket_wf:
  assumes "index_wf ix H" "map_of (buckets ix) hash = Some bucket"
  shows "bucket \<noteq> []" "distinct bucket"
  using assms by (auto simp: index_wf_def dest!: map_of_SomeD)

lemma index_wf_empty: "index_wf empty_index {}"
  by (simp add: index_wf_def empty_index_def bucket_of_def)

lemma index_wf_clear: "index_wf (index_clear ix) {}"
  by (simp add: index_wf_def index_clear_def bucket_of_def)

lemma index_wf_cache [simp]: "index_wf (ix\<lparr>string_hashes := c\<rparr>) H \<longleftrightarrow> index_wf ix H"
  by (simp add: index_wf_def bucket_of_def)

lemma index_wf_buckets: "buckets ix = buckets ix' \<Longrightarrow> index_wf ix H \<longleftrightarrow> index_wf ix' H"
  by (simp only: index_wf_def bucket_of_def)

lemma index_wf_update:
  assumes wf: "index_wf ix H" and bucket: "bucket \<noteq> []" "distinct bucket"
    and H': "\<And>i h. (i, h) \<in> H' \<longleftrightarrow> (if h = hash then i \<in> set bucket else (i, h) \<in> H)"
  shows "index_wf (ix\<lparr>buckets := AList.update hash bucket (buckets ix)\<rparr>) H'"
proof -
  let ?ix = "ix\<lparr>buckets := AList.update hash bucket (buckets ix)\<rparr>"
  have keys: "distinct (map fst (buckets ix))" using wf by (simp add: index_wf_def)
  have "b \<noteq> [] \<and> distinct b" if "(k, b) \<in> set (buckets ?ix)" for k b
  proof -
    have "map_of (buckets ?ix) k = Some b"
      using that keys by (simp add: map_of_is_SomeI distinct_update)
    then have "map_of (buckets ix) k = Some b \<or> b = bucket"
      by (auto simp: update_conv' split: if_splits)
    with bucket bucket_wf [OF wf] show ?thesis by auto
  qed
  moreover have "bucket_of ?ix h = (if h = hash then bucket else bucket_of ix h)" for h
    by (simp add: bucket_of_def update_conv')
  then have "i \<in> set (bucket_of ?ix h) \<longleftrightarrow> (i, h) \<in> H'" for i h
    using wf by (simp add: H' index_wf_def)
  ultimately show ?thesis using keys unfolding index_wf_def by (auto simp: distinct_update)
qed

lemma index_wf_delete:
  assumes wf: "index_wf ix H"
    and H': "\<And>i h. (i, h) \<in> H' \<longleftrightarrow> h \<noteq> hash \<and> (i, h) \<in> H"
  shows "index_wf (ix\<lparr>buckets := AList.delete hash (buckets ix)\<rparr>) H'"
proof -
  let ?ix = "ix\<lparr>buckets := AList.delete hash (buckets ix)\<rparr>"
  have keys: "distinct (map fst (buckets ?ix))" using wf by (simp add: index_wf_def distinct_delete)
  have "bucket_of ?ix h = (if h = hash then [] else bucket_of ix h)" for h
    by (simp add: bucket_of_def delete_conv')
  then have "i \<in> set (bucket_of ?ix h) \<longleftrightarrow> (i, h) \<in> H'" for i h
    using wf by (simp add: H' index_wf_def)
  moreover have "set (buckets ?ix) \<subseteq> set (buckets ix)" by (auto simp: AList.delete_eq)
  ultimately show ?thesis using wf keys unfolding index_wf_def by blast
qed

lemma index_insert_wf:
  assumes "index_wf ix H" "i \<notin> fst ` H"
  shows "index_wf (index_insert_hashed ix hash i) (insert (i, hash) H)"
proof -
  have "index_wf (ix\<lparr>buckets := AList.update hash (bucket_of ix hash @ [i]) (buckets ix)\<rparr>) (insert (i, hash) H)"
  proof (rule index_wf_update [OF assms(1)])
    have member: "j \<in> set (bucket_of ix hash) \<longleftrightarrow> (j, hash) \<in> H" for j
      using assms(1) by (simp add: index_wf_def)
    then show "(j, h) \<in> insert (i, hash) H \<longleftrightarrow> (if h = hash then j \<in> set (bucket_of ix hash @ [i]) else (j, h) \<in> H)" for j h
      by auto
    have "distinct (bucket_of ix hash)"
      using bucket_wf [OF assms(1)] by (simp add: bucket_of_def split: option.split)
    then show "distinct (bucket_of ix hash @ [i])" using assms(2) member by force
  qed simp
  then show ?thesis by (simp add: index_insert_hashed_def bucket_of_def)
qed

lemma index_remove_wf:
  assumes wf: "index_wf ix H" and member: "(i, hash) \<in> H"
  obtains ix' where "index_remove_hashed ix hash i = Inr ix'" "index_wf ix' (H - {(i, hash)})"
    "string_hashes ix' = string_hashes ix"
proof -
  have "i \<in> set (bucket_of ix hash)" using assms by (simp add: index_wf_def)
  then obtain bucket where bucket: "map_of (buckets ix) hash = Some bucket" "i \<in> set bucket"
    by (cases "map_of (buckets ix) hash") (simp_all add: bucket_of_def)
  then have "bucket_of ix hash = bucket" by (simp add: bucket_of_def)
  then have members: "(j, hash) \<in> H \<longleftrightarrow> j \<in> set bucket" for j
    using wf by (auto simp: index_wf_def)
  obtain p where p: "first_index (\<lambda>entry. entry = i) bucket = Some p"
    using bucket(2) by (cases "first_index (\<lambda>entry. entry = i) bucket") (auto simp: first_index_eq_None)
  then have "p < length bucket" "bucket ! p = i" by (auto simp: first_index_eq_Some)
  note rest = set_swap_remove [OF this(1) bucket_wf(2) [OF wf bucket(1)], unfolded this(2)]
  let ?rest = "butlast (bucket[p := last bucket])"
  let ?ix' = "ix\<lparr>buckets := if ?rest = [] then AList.delete hash (buckets ix)
    else AList.update hash ?rest (buckets ix)\<rparr>"
  have "index_remove_hashed ix hash i = Inr ?ix'"
    using bucket(1) p \<open>p < length bucket\<close> by (simp add: index_remove_hashed_def)
  moreover have "index_wf ?ix' (H - {(i, hash)})"
  proof (cases "?rest = []")
    case True
    then have "set bucket - {i} = {}" using rest(1) by simp
    then show ?thesis using True members by (auto intro!: index_wf_delete [OF wf])
  next
    case False
    then have "index_wf (ix\<lparr>buckets := AList.update hash ?rest (buckets ix)\<rparr>) (H - {(i, hash)})"
      by (rule index_wf_update [OF wf _ rest(2)]) (use rest(1) members in auto)
    with False show ?thesis by simp
  qed
  ultimately show ?thesis using that by simp
qed

text \<open>The memo of string hashes: it is bounded, and it agrees with the hash of every live string.\<close>

definition cache_wf :: "key_heap \<Rightarrow> collection_index \<Rightarrow> bool" where
  "cache_wf h ix \<longleftrightarrow>
     (case string_hashes ix of
        None \<Rightarrow> True
      | Some cache \<Rightarrow> length cache \<le> STRING_HASH_CACHE_SIZE
          \<and> (\<forall>(node, hash) \<in> set cache. \<forall>actual. string_hash h node = Inr actual \<longrightarrow> hash = actual))"

lemma in_set_tl: "x \<in> set (tl xs) \<Longrightarrow> x \<in> set xs"
  by (cases xs) auto

lemma cache_remember_wf:
  assumes "cache_wf h ix" "string_hash h node = Inr hash"
  shows "cache_wf h (ix\<lparr>string_hashes := Some (cache_remember
    (case string_hashes ix of None \<Rightarrow> [] | Some cache \<Rightarrow> cache) node hash)\<rparr>)"
  using assms
  by (auto simp: cache_wf_def cache_remember_def STRING_HASH_CACHE_SIZE_def split: option.splits
      dest!: in_set_tl)

lemma index_hash_eq:
  assumes "cache_wf h ix" "resolves h key"
  obtains hash ix' where "index_hash h ix key = Inr (hash, ix')" "hash_uncached h key = Inr hash"
    "buckets ix' = buckets ix" "cache_wf h ix'"
proof -
  obtain hash where hash: "hash_uncached h key = Inr hash" using hash_uncached_key [OF assms(2)] by blast
  show ?thesis
  proof (cases "\<exists>node. key = VString node")
    case True
    then obtain node where node: "key = VString node" by blast
    with hash have string: "string_hash h node = Inr hash" by (simp add: hash_uncached_def)
    show ?thesis
    proof (cases "Option.bind (string_hashes ix) (\<lambda>cache. map_of cache node)")
      case None
      with that hash node assms(1) cache_remember_wf [OF assms(1) string] show ?thesis
        by (simp add: index_hash_def Let_def)
    next
      case (Some cached)
      then have "cached = hash"
        using assms(1) string by (fastforce simp: cache_wf_def bind_eq_Some_conv dest: map_of_SomeD)
      with Some that hash node assms(1) show ?thesis by (simp add: index_hash_def)
    qed
  next
    case False
    with that hash assms(1) show ?thesis by (cases key) (simp_all add: index_hash_def)
  qed
qed

section \<open>The whole storage\<close>

definition log_hashes :: "(nat \<times> slot) list \<Rightarrow> (nat \<times> u64) set" where
  "log_hashes log = (\<lambda>(i, s). (i, slot_hash s)) ` set log"

definition log_keys :: "key_heap \<Rightarrow> (nat \<times> slot) list \<Rightarrow> js_key list" where
  "log_keys h log = map (\<lambda>(i, s). key_of h (record_key (slot_record s))) log"

definition log_ok :: "key_heap \<Rightarrow> (nat \<times> slot) list \<Rightarrow> bool" where
  "log_ok h log \<longleftrightarrow>
     (\<forall>(i, s) \<in> set log. resolves h (record_key (slot_record s))
        \<and> hash_uncached h (record_key (slot_record s)) = Inr (slot_hash s))
     \<and> distinct (log_keys h log)"

definition collection_wf :: "key_heap \<Rightarrow> collection_records \<Rightarrow> bool" where
  "collection_wf h r \<longleftrightarrow>
     store_wf r \<and> index_wf (key_index r) (log_hashes (slot_log r)) \<and> cache_wf h (key_index r)
     \<and> log_ok h (slot_log r)"

definition collection_keys :: "key_heap \<Rightarrow> collection_records \<Rightarrow> js_key list" where
  "collection_keys h r = map (\<lambda>(_, rec). key_of h (record_key rec)) (contents r)"

lemma collection_keys_log: "collection_keys h r = log_keys h (slot_log r)"
  by (simp add: collection_keys_def log_keys_def contents_slot_log comp_def case_prod_beta)

lemma collection_wf_default: "collection_wf h default_records"
  by (simp add: collection_wf_def store_wf_def default_records_def live_entries_def slot_log_def
      log_hashes_def log_ok_def log_keys_def index_wf_empty cache_wf_def empty_index_def USIZE_MAX_def
      index_wf_def bucket_of_def)

text \<open>An example: two live records around a deleted one.\<close>

definition example_store :: collection_records where
  "example_store =
     \<lparr>slots = [\<lparr>slot_record = \<lparr>record_key = VNull, record_value = VBool True\<rparr>, slot_hash = 1\<rparr>,
               \<lparr>slot_record = vacant, slot_hash = 2\<rparr>,
               \<lparr>slot_record = \<lparr>record_key = VBool False, record_value = VNull\<rparr>, slot_hash = 2\<rparr>],
      live = [\<lparr>entry_id = 0, entry_slot = 0\<rparr>, \<lparr>entry_id = 1, entry_slot = DEAD\<rparr>, \<lparr>entry_id = 2, entry_slot = 2\<rparr>],
      live_len = 2, key_index = \<lparr>buckets = [(1, [0]), (2, [2])], string_hashes = None\<rparr>, next_id = 3\<rparr>"

lemma example_store_live:
  "live_entries example_store = [\<lparr>entry_id = 0, entry_slot = 0\<rparr>, \<lparr>entry_id = 2, entry_slot = 2\<rparr>]"
  by (simp add: live_entries_def example_store_def DEAD_def)

lemma example_store_log:
  "slot_log example_store =
     [(0, \<lparr>slot_record = \<lparr>record_key = VNull, record_value = VBool True\<rparr>, slot_hash = 1\<rparr>),
      (2, \<lparr>slot_record = \<lparr>record_key = VBool False, record_value = VNull\<rparr>, slot_hash = 2\<rparr>)]"
  unfolding slot_log_def example_store_live by (simp add: example_store_def)

lemma example_store_contents:
  "contents example_store =
     [(0, \<lparr>record_key = VNull, record_value = VBool True\<rparr>), (2, \<lparr>record_key = VBool False, record_value = VNull\<rparr>)]"
  by (simp add: contents_slot_log example_store_log)

lemma example_store_wf: "collection_wf example_heap example_store"
proof -
  have "store_wf example_store"
    unfolding store_wf_def example_store_live by (simp add: example_store_def USIZE_MAX_def)
  moreover have "index_wf (key_index example_store) (log_hashes (slot_log example_store))"
    unfolding example_store_log by (auto simp: index_wf_def bucket_of_def log_hashes_def example_store_def split: if_splits)
  moreover have "cache_wf example_heap (key_index example_store)" by (simp add: cache_wf_def example_store_def)
  moreover have "log_ok example_heap (slot_log example_store)"
    unfolding example_store_log by (simp add: log_ok_def log_keys_def hash_uncached_def example_heap_def)
  ultimately show ?thesis by (simp add: collection_wf_def)
qed

lemma collection_insert:
  assumes wf: "collection_wf h r" and key: "resolves h (record_key rec)"
    and fresh: "key_of h (record_key rec) \<notin> set (collection_keys h r)"
    and room: "length (slots r) < 2 ^ 32 - 1" "next_id r < USIZE_MAX"
  shows "\<exists>r'. insert_record h r rec = Inr (next_id r, r') \<and> collection_wf h r'
    \<and> contents r' = contents r @ [(next_id r, rec)] \<and> next_id r' = next_id r + 1"
proof -
  from wf have store: "store_wf r" and index: "index_wf (key_index r) (log_hashes (slot_log r))"
    and cache: "cache_wf h (key_index r)" and log: "log_ok h (slot_log r)"
    by (simp_all add: collection_wf_def)
  obtain hash ix where hash: "index_hash h (key_index r) (record_key rec) = Inr (hash, ix)"
    "hash_uncached h (record_key rec) = Inr hash" "buckets ix = buckets (key_index r)" "cache_wf h ix"
    by (rule index_hash_eq [OF cache key])
  let ?r = "r\<lparr>key_index := ix\<rparr>"
  have r: "store_wf ?r" "slot_log ?r = slot_log r" "length (slots ?r) < 2 ^ 32 - 1" "next_id ?r < USIZE_MAX"
    using store room by (simp_all add: store_wf_def live_entries_def slot_log_def)
  obtain r' where r': "insert_hashed ?r rec hash = Inr (next_id ?r, r')" "store_wf r'"
    "slot_log r' = slot_log ?r @ [(next_id ?r, \<lparr>slot_record = rec, slot_hash = hash\<rparr>)]"
    "key_index r' = index_insert_hashed (key_index ?r) hash (next_id ?r)" "next_id r' = next_id ?r + 1"
    by (rule insert_hashed_log [OF r(1,3,4)])
  have "next_id r \<notin> fst ` log_hashes (slot_log r)"
    using contents_below_next_id [OF store] by (force simp: log_hashes_def contents_slot_log)
  moreover have "index_wf ix (log_hashes (slot_log r))"
    using index index_wf_buckets [OF hash(3)] by simp
  ultimately have "index_wf (key_index r') (log_hashes (slot_log r'))"
    using index_insert_wf [of ix "log_hashes (slot_log r)" "next_id r" hash] r' r(2)
    by (simp add: log_hashes_def)
  moreover have "cache_wf h (key_index r')"
    using hash(4) r'(4) by (simp add: cache_wf_def index_insert_hashed_def)
  moreover have "log_ok h (slot_log r')"
    using log key hash(2) fresh r'(3) r(2) by (auto simp: log_ok_def log_keys_def collection_keys_log)
  ultimately have "collection_wf h r'" using r'(2) by (simp add: collection_wf_def)
  with r' r(2) hash(1) show ?thesis by (simp add: insert_record_def contents_slot_log)
qed

text \<open>C11. Insertion into a collection: for a storable key that no live record has yet, with
  room for one more slot and identity, the record is appended under a fresh identity, every other record
  keeps its identity and position, and the invariant of slots, entries, key index and hash memo holds
  again.\<close>

theorem insert_record_appends:
  assumes wf: "collection_wf h r" and key: "resolves h (record_key rec)"
    and fresh: "key_of h (record_key rec) \<notin> set (collection_keys h r)"
    and room: "length (slots r) < 2 ^ 32 - 1" "next_id r < USIZE_MAX"
  shows "\<exists>r'. insert_record h r rec = Inr (next_id r, r') \<and> collection_wf h r'
    \<and> contents r' = contents r @ [(next_id r, rec)] \<and> next_id r' = next_id r + 1"
  using assms by (rule collection_insert)

theorem insert_record_appends_witness:
  "\<exists>r'. insert_record example_heap example_store \<lparr>record_key = VUndefined, record_value = VNull\<rparr> = Inr (3, r')
    \<and> map fst (contents r') = [0, 2, 3]"
proof -
  let ?rec = "\<lparr>record_key = VUndefined, record_value = VNull\<rparr>"
  have key: "key_of example_heap (record_key ?rec) \<notin> set (collection_keys example_heap example_store)"
    by (simp add: collection_keys_def example_store_contents)
  have room: "resolves example_heap (record_key ?rec)" "length (slots example_store) < 2 ^ 32 - 1"
    "next_id example_store < USIZE_MAX" "next_id example_store = 3"
    by (simp_all add: example_store_def USIZE_MAX_def)
  from insert_record_appends [OF example_store_wf room(1) key room(2,3)]
  show ?thesis unfolding room(4) example_store_contents by auto
qed

definition removal_filter :: "nat \<Rightarrow> (nat \<times> 'a) list \<Rightarrow> (nat \<times> 'a) list" where
  "removal_filter i log = filter (\<lambda>entry. fst entry \<noteq> i) log"

lemma contents_removal:
  "slot_log r' = removal_filter i (slot_log r) \<Longrightarrow> contents r' = removal_filter i (contents r)"
  by (simp add: contents_slot_log removal_filter_def filter_map comp_def case_prod_beta)

lemma log_ok_removal: "log_ok h log \<Longrightarrow> log_ok h (removal_filter i log)"
  by (auto simp: log_ok_def log_keys_def removal_filter_def intro: distinct_map_filter)

lemma log_hashes_removal:
  assumes "distinct (map fst log)" "(i, s) \<in> set log"
  shows "log_hashes (removal_filter i log) = log_hashes log - {(i, slot_hash s)}"
proof -
  have "t = s" if "(i, t) \<in> set log" for t using assms that eq_key_imp_eq_value by metis
  then show ?thesis by (auto simp: log_hashes_def removal_filter_def image_iff)
qed

lemma removal_filter_absent: "map_of log i = None \<Longrightarrow> removal_filter i log = log"
  by (force simp: removal_filter_def map_of_eq_None_iff filter_id_conv)

lemma live_search:
  assumes wf: "store_wf r"
  obtains (absent) "map_of (contents r) i = None"
      "binary_search_id (live r) i = None \<or> (\<exists>p. binary_search_id (live r) i = Some p \<and> entry_slot (live r ! p) = DEAD)"
    | (present) p where "binary_search_id (live r) i = Some p" "p < length (live r)" "alive (live r ! p)"
      "entry_id (live r ! p) = i" "map_of (contents r) i = Some (entry_record r (live r ! p))"
      "(i, slots r ! unat (entry_slot (live r ! p))) \<in> set (slot_log r)"
proof (cases "live_entry_of r i")
  case None
  moreover from None have "map_of (contents r) i = None"
    using get_record_eq [OF wf, of i] by (simp add: get_record_def)
  ultimately show ?thesis
    by (intro absent) (auto simp: live_entry_of_def Let_def split: option.splits if_splits)
next
  case (Some e)
  then obtain p where p: "binary_search_id (live r) i = Some p" "e = live r ! p" "alive e"
    by (auto simp: live_entry_of_def Let_def split: option.splits if_splits)
  then have at_p: "p < length (live r)" "entry_id e = i"
    by (auto simp: binary_search_id_def first_index_eq_Some)
  with p have member: "e \<in> set (live_entries r)" by (simp add: live_entries_def)
  have "map_of (contents r) i = Some (entry_record r e)"
    using get_record_eq [OF wf, of i] slot_at_live [OF wf member] Some
    by (simp add: get_record_def entry_record_def)
  with p at_p member show ?thesis by (intro present) (auto simp: slot_log_def)
qed

lemma remove_outcome:
  fixes r :: collection_records and s :: slot and ix :: collection_index
  assumes found: "binary_search_id (live r) i = Some p" "alive (live r ! p)"
    and removed: "slot_at r (live r ! p) = Inr s" "index_remove_hashed (key_index r) (slot_hash s) i = Inr ix"
    and some: "live_len r \<noteq> 0"
  defines "r1 \<equiv> r\<lparr>slots := (slots r)[unat (entry_slot (live r ! p)) := s\<lparr>slot_record := vacant\<rparr>], key_index := ix,
      live := (live r)[p := (live r ! p)\<lparr>entry_slot := DEAD\<rparr>], live_len := live_len r - 1\<rparr>"
  assumes wf: "store_wf r1"
  shows "\<exists>r'. remove_record r i = Inr (Some (slot_record s), r') \<and> store_wf r' \<and> slot_log r' = slot_log r1
    \<and> key_index r' = ix \<and> next_id r' = next_id r \<and> length (slots r') \<le> 4 * length (contents r') + 64"
proof -
  have size: "live_len r' = length (contents r')" if "store_wf r'" for r'
    using that by (simp add: store_wf_def contents_def)
  have step: "remove_record r i =
      (if min USIZE_MAX (min USIZE_MAX (live_len r1 * 4) + 64) < length (slots r1)
       then and_then (compact_records r1) (\<lambda>r''. Inr (Some (slot_record s), r''))
       else Inr (Some (slot_record s), r1))"
    using found removed some by (simp add: remove_record_def Let_def r1_def)
  show ?thesis
  proof (cases "min USIZE_MAX (min USIZE_MAX (live_len r1 * 4) + 64) < length (slots r1)")
    case True
    obtain r' where r': "compact_records r1 = Inr r'" "store_wf r'" "slot_log r' = slot_log r1"
      "key_index r' = key_index r1" "next_id r' = next_id r1" "live_len r' = live_len r1"
      "length (slots r') = live_len r1"
      by (rule compact_records_log [OF wf])
    then show ?thesis using True step size [OF r'(2)] by (simp add: r1_def)
  next
    case False
    then have "length (slots r1) \<le> 4 * live_len r1 + 64" by linarith
    with False step wf size [OF wf] show ?thesis by (simp add: r1_def)
  qed
qed

lemma collection_remove:
  assumes wf: "collection_wf h r"
  shows "\<exists>r'. remove_record r i = Inr (map_of (contents r) i, r') \<and> collection_wf h r'
    \<and> contents r' = removal_filter i (contents r) \<and> next_id r' = next_id r
    \<and> (i \<in> fst ` set (contents r) \<longrightarrow> length (slots r') \<le> 4 * length (contents r') + 64)"
proof -
  from wf have store: "store_wf r" and index: "index_wf (key_index r) (log_hashes (slot_log r))"
    and cache: "cache_wf h (key_index r)" and log: "log_ok h (slot_log r)"
    by (simp_all add: collection_wf_def)
  show ?thesis
  proof (rule live_search [OF store, of i])
    assume absent: "map_of (contents r) i = None" and
      "binary_search_id (live r) i = None
       \<or> (\<exists>p. binary_search_id (live r) i = Some p \<and> entry_slot (live r ! p) = DEAD)"
    then have "remove_record r i = Inr (None, r)" by (auto simp: remove_record_def)
    moreover have "i \<notin> fst ` set (contents r)" using absent by (simp add: map_of_eq_None_iff)
    ultimately show ?thesis using absent wf by (simp add: removal_filter_absent)
  next
    fix p
    let ?e = "live r ! p"
    let ?s = "slots r ! unat (entry_slot ?e)"
    assume p: "binary_search_id (live r) i = Some p" "p < length (live r)" "alive ?e" "entry_id ?e = i"
      "map_of (contents r) i = Some (entry_record r ?e)" "(i, ?s) \<in> set (slot_log r)"
    have at_slot: "slot_at r ?e = Inr ?s"
      using p(2,3) by (intro slot_at_live [OF store]) (simp add: live_entries_def)
    have "(i, slot_hash ?s) \<in> log_hashes (slot_log r)" using p(6) by (force simp: log_hashes_def)
    from index_remove_wf [OF index this] obtain ix where
      ix: "index_remove_hashed (key_index r) (slot_hash ?s) i = Inr ix"
        "index_wf ix (log_hashes (removal_filter i (slot_log r)))" "string_hashes ix = string_hashes (key_index r)"
      using log_hashes_removal [OF distinct_log_ids [OF store] p(6)] by metis
    let ?r = "r\<lparr>slots := (slots r)[unat (entry_slot ?e) := ?s\<lparr>slot_record := vacant\<rparr>], key_index := ix,
      live := (live r)[p := ?e\<lparr>entry_slot := DEAD\<rparr>], live_len := live_len r - 1\<rparr>"
    have killed: "store_wf ?r" "slot_log ?r = removal_filter i (slot_log r)" "live_len r \<noteq> 0"
      using kill_log [OF store p(2,3)] p(4) by (simp_all add: removal_filter_def case_prod_unfold)
    have kept: "collection_wf h r' \<and> contents r' = removal_filter i (contents r)"
      if "store_wf r'" "slot_log r' = slot_log ?r" "key_index r' = ix" for r'
      using that killed(2) ix(2,3) cache log
      by (simp add: collection_wf_def log_ok_removal cache_wf_def contents_removal)
    show ?thesis
      using remove_outcome [OF p(1,3) at_slot ix(1) killed(3) killed(1)] kept p(5)
      by (auto simp: entry_record_def)
  qed
qed

text \<open>C12. Deletion from a collection: removing an identity returns its record if it is live and
  \<open>None\<close> otherwise, keeps every other record with its identity and position, keeps the invariant whether
  or not the storage was compacted, and leaves at most \<open>4 n + 64\<close> slots for \<open>n\<close> live records.\<close>

theorem remove_record_filters:
  assumes wf: "collection_wf h r"
  shows "\<exists>r'. remove_record r i = Inr (map_of (contents r) i, r') \<and> collection_wf h r'
    \<and> contents r' = removal_filter i (contents r) \<and> next_id r' = next_id r
    \<and> (i \<in> fst ` set (contents r) \<longrightarrow> length (slots r') \<le> 4 * length (contents r') + 64)"
  using assms by (rule collection_remove)

theorem remove_record_filters_witness:
  "\<exists>r'. remove_record example_store 2 = Inr (Some \<lparr>record_key = VBool False, record_value = VNull\<rparr>, r')
    \<and> map fst (contents r') = [0]"
  using remove_record_filters [OF example_store_wf, of 2]
  by (auto simp: example_store_contents removal_filter_def)

text \<open>Lookup. A bucket holds every live identity whose key has the hash, so scanning it finds the
  record with the key.\<close>

lemma find_in_bucket_eq:
  assumes wf: "collection_wf h r" and key: "resolves h key"
    and bucket: "\<forall>i \<in> set bucket. i \<in> fst ` set (contents r)"
  shows "find_in_bucket h r key bucket =
    Inr (map_option (\<lambda>i. (i, the (map_of (contents r) i)))
      (find (\<lambda>i. key_of h (record_key (the (map_of (contents r) i))) = key_of h key) bucket))"
  using bucket
proof (induction bucket)
  case (Cons i bucket)
  from wf have store: "store_wf r" and log: "log_ok h (slot_log r)" by (simp_all add: collection_wf_def)
  from Cons.prems obtain rec where rec: "map_of (contents r) i = Some rec"
    by (cases "map_of (contents r) i") (auto simp: map_of_eq_None_iff)
  then have "resolves h (record_key rec)"
    using log by (auto simp: log_ok_def contents_slot_log dest!: map_of_SomeD)
  with key have "same_value_zero h (record_key rec) key = Inr (key_of h (record_key rec) = key_of h key)"
    by (simp add: same_value_zero_resolved)
  with Cons rec show ?case by (simp add: get_record_eq [OF store])
qed simp

lemma contents_key_unique:
  assumes "collection_wf h r" "(i, rec) \<in> set (contents r)" "(j, rec') \<in> set (contents r)"
    and "key_of h (record_key rec) = key_of h (record_key rec')"
  shows "i = j \<and> rec = rec'"
proof -
  have "distinct (collection_keys h r)" using assms(1) by (simp add: collection_wf_def log_ok_def collection_keys_log)
  then have "inj_on (\<lambda>(_, rec). key_of h (record_key rec)) (set (contents r))"
    by (simp add: collection_keys_def distinct_map)
  from inj_onD [OF this _ assms(2,3)] assms(4) show ?thesis by simp
qed

definition lookup_key :: "key_heap \<Rightarrow> collection_records \<Rightarrow> js_key \<Rightarrow> (nat \<times> map_record) option" where
  "lookup_key h r k = find (\<lambda>(_, rec). key_of h (record_key rec) = k) (contents r)"

lemma lookup_key_eqI:
  assumes "collection_wf h r" "(i, rec) \<in> set (contents r)" "key_of h (record_key rec) = k"
  shows "lookup_key h r k = Some (i, rec)"
proof -
  have "lookup_key h r k \<noteq> None"
    using assms(2,3) unfolding lookup_key_def find_None_iff by (blast intro: case_prodI)
  then obtain j rec' where found: "lookup_key h r k = Some (j, rec')" by auto
  then have "(j, rec') \<in> set (contents r)" "key_of h (record_key rec') = k"
    by (auto simp: lookup_key_def find_Some_iff in_set_conv_nth)
  with contents_key_unique [OF assms(1,2)] assms(3) found show ?thesis by metis
qed

text \<open>The identities in the bucket of a key are those of the live records with the hash of the key.\<close>

lemma bucket_members:
  assumes wf: "collection_wf h r" and key: "hash_uncached h key = Inr hash"
  shows "i \<in> set (bucket_of (key_index r) hash) \<longleftrightarrow>
    (\<exists>rec. (i, rec) \<in> set (contents r) \<and> hash_uncached h (record_key rec) = Inr hash)"
proof -
  have "i \<in> set (bucket_of (key_index r) hash) \<longleftrightarrow> (i, hash) \<in> log_hashes (slot_log r)"
    using wf by (simp add: collection_wf_def index_wf_def)
  also have "\<dots> \<longleftrightarrow> (\<exists>rec. (i, rec) \<in> set (contents r) \<and> hash_uncached h (record_key rec) = Inr hash)"
    using wf by (force simp: collection_wf_def log_ok_def log_hashes_def contents_slot_log)
  finally show ?thesis .
qed

lemma find_bucket_lookup:
  assumes wf: "collection_wf h r" and key: "resolves h key" "hash_uncached h key = Inr hash"
  shows "find_in_bucket h r key (bucket_of (key_index r) hash) = Inr (lookup_key h r (key_of h key))"
proof -
  let ?bucket = "bucket_of (key_index r) hash" and ?rec = "\<lambda>i. the (map_of (contents r) i)"
  let ?P = "\<lambda>i. key_of h (record_key (?rec i)) = key_of h key"
  have rec: "?rec i = rec" if "(i, rec) \<in> set (contents r)" for i rec
    using that sorted_contents wf by (simp add: collection_wf_def strict_sorted_iff)
  have scan: "find_in_bucket h r key ?bucket = Inr (map_option (\<lambda>i. (i, ?rec i)) (find ?P ?bucket))"
    using bucket_members [OF wf key(2)] by (intro find_in_bucket_eq [OF wf key(1)]) force
  show ?thesis
  proof (cases "find ?P ?bucket")
    case None
    have "key_of h (record_key rec) \<noteq> key_of h key" if member: "(i, rec) \<in> set (contents r)" for i rec
    proof
      assume same: "key_of h (record_key rec) = key_of h key"
      have "resolves h (record_key rec)"
        using wf member by (auto simp: collection_wf_def log_ok_def contents_slot_log)
      from hash_uncached_cong [OF this key(1) same] have "i \<in> set ?bucket"
        using member bucket_members [OF wf key(2)] key(2) by auto
      with None same rec [OF member] show False by (auto simp: find_None_iff)
    qed
    then have "lookup_key h r (key_of h key) = None" by (auto simp: lookup_key_def find_None_iff)
    with None scan show ?thesis by simp
  next
    case (Some i)
    then have "i \<in> set ?bucket" "?P i" by (auto simp: find_Some_iff)
    then obtain rec where "(i, rec) \<in> set (contents r)" using bucket_members [OF wf key(2)] by blast
    with \<open>?P i\<close> have "lookup_key h r (key_of h key) = Some (i, ?rec i)"
      by (intro lookup_key_eqI [OF wf]) (simp_all add: rec)
    with Some scan show ?thesis by simp
  qed
qed

lemma collection_find:
  assumes wf: "collection_wf h r" and key: "resolves h key"
  shows "\<exists>r'. find_entry h r key = Inr (lookup_key h r (key_of h key), r')
    \<and> collection_wf h r' \<and> contents r' = contents r \<and> next_id r' = next_id r"
proof -
  from wf have cache: "cache_wf h (key_index r)" by (simp add: collection_wf_def)
  obtain hash ix where hash: "index_hash h (key_index r) key = Inr (hash, ix)"
    "hash_uncached h key = Inr hash" "buckets ix = buckets (key_index r)" "cache_wf h ix"
    by (rule index_hash_eq [OF cache key])
  let ?r = "r\<lparr>key_index := ix\<rparr>"
  have "collection_wf h ?r" "contents ?r = contents r" "next_id ?r = next_id r"
    using wf hash(4) index_wf_buckets [OF hash(3)]
    by (simp_all add: collection_wf_def store_wf_def slot_log_def live_entries_def contents_def entry_record_def)
  moreover have "find_entry h r key = Inr (lookup_key h r (key_of h key), ?r)"
    using find_bucket_lookup [OF wf key hash(2)] hash(1,3)
    by (auto simp: find_entry_def bucket_of_def split: option.splits)
  ultimately show ?thesis by blast
qed

text \<open>C13. Lookup in a collection: \<open>find_entry\<close> returns the live record whose key is the same value
  under SameValueZero, or \<open>None\<close> when no live record has such a key; it changes nothing but the memo of
  string hashes, and keeps the invariant.\<close>

theorem find_entry_correct:
  assumes wf: "collection_wf h r" and key: "resolves h key"
  shows "\<exists>r'. find_entry h r key = Inr (lookup_key h r (key_of h key), r')
    \<and> collection_wf h r' \<and> contents r' = contents r \<and> next_id r' = next_id r"
  using assms by (rule collection_find)

theorem find_entry_correct_witness:
  "\<exists>r'. find_entry example_heap example_store (VBool False)
     = Inr (Some (2, \<lparr>record_key = VBool False, record_value = VNull\<rparr>), r')"
proof -
  have "resolves example_heap (VBool False)" by simp
  from find_entry_correct [OF example_store_wf this] show ?thesis
    by (auto simp: lookup_key_def example_store_contents)
qed

lemma collection_replace:
  assumes wf: "collection_wf h r"
  shows "\<exists>r'. replace_value r i v = Inr (map_option record_value (map_of (contents r) i), r')
    \<and> collection_wf h r' \<and> next_id r' = next_id r
    \<and> contents r' = map (\<lambda>(j, rec). (j, if j = i then rec\<lparr>record_value := v\<rparr> else rec)) (contents r)"
proof -
  let ?f = "\<lambda>(j, s). (j, if j = i then s\<lparr>slot_record := (slot_record s)\<lparr>record_value := v\<rparr>\<rparr> else s)"
  obtain r' where r': "replace_value r i v = Inr (map_option record_value (map_of (contents r) i), r')"
    "store_wf r'" "slot_log r' = map ?f (slot_log r)" "key_index r' = key_index r" "next_id r' = next_id r"
    using replace_value_log [of r i v] wf by (auto simp: collection_wf_def)
  have "log_hashes (slot_log r') = log_hashes (slot_log r)"
    unfolding r'(3) log_hashes_def set_map image_image by (intro image_cong) auto
  moreover have keys: "log_keys h (slot_log r') = log_keys h (slot_log r)" by (simp add: r'(3) log_keys_def comp_def case_prod_beta)
  have "log_ok h (slot_log r')"
    using wf unfolding log_ok_def keys unfolding r'(3) by (auto simp: collection_wf_def log_ok_def)
  ultimately have "collection_wf h r'" using wf r' by (simp add: collection_wf_def)
  moreover have "contents r' = map (\<lambda>(j, rec). (j, if j = i then rec\<lparr>record_value := v\<rparr> else rec)) (contents r)"
    by (auto simp: contents_slot_log r'(3))
  ultimately show ?thesis using r' by blast
qed

text \<open>C14. Updating the value of a record: \<open>replace_value\<close> stores the new value under the identity,
  returns the old value, and changes neither keys, identities nor the order of the records; for an
  identity that is not live it returns \<open>None\<close> and the contents stay as they are.\<close>

theorem replace_value_updates:
  assumes wf: "collection_wf h r"
  shows "\<exists>r'. replace_value r i v = Inr (map_option record_value (map_of (contents r) i), r')
    \<and> collection_wf h r' \<and> next_id r' = next_id r
    \<and> contents r' = map (\<lambda>(j, rec). (j, if j = i then rec\<lparr>record_value := v\<rparr> else rec)) (contents r)"
  using assms by (rule collection_replace)

theorem replace_value_updates_witness:
  "\<exists>r'. replace_value example_store 0 VUndefined = Inr (Some (VBool True), r')
    \<and> map_of (contents r') 0 = Some \<lparr>record_key = VNull, record_value = VUndefined\<rparr>"
  using replace_value_updates [OF example_store_wf, of 0 VUndefined] by (auto simp: example_store_contents)

lemma into_iter_eq:
  assumes "\<forall>e \<in> set (filter alive es). unat (entry_slot e) < length ss" "distinct (map entry_slot (filter alive es))"
  shows "into_iter es ss = Inr (map (\<lambda>e. slot_record (ss ! unat (entry_slot e))) (filter alive es))"
  using assms
proof (induction es arbitrary: ss)
  case (Cons e es)
  show ?case
  proof (cases "alive e")
    case True
    let ?ss = "ss[unat (entry_slot e) := (ss ! unat (entry_slot e))\<lparr>slot_record := vacant\<rparr>]"
    have "?ss ! unat (entry_slot f) = ss ! unat (entry_slot f)" if "f \<in> set (filter alive es)" for f
    proof -
      have "entry_slot e \<noteq> entry_slot f" using that Cons.prems(2) True by auto
      then show ?thesis by (simp add: word_unat_eq_iff)
    qed
    then have "map (\<lambda>f. slot_record (?ss ! unat (entry_slot f))) (filter alive es)
        = map (\<lambda>f. slot_record (ss ! unat (entry_slot f))) (filter alive es)" by simp
    moreover have "into_iter es ?ss = Inr (map (\<lambda>f. slot_record (?ss ! unat (entry_slot f))) (filter alive es))"
      using Cons.prems True by (intro Cons.IH) auto
    ultimately show ?thesis using True Cons.prems(1) by simp
  qed (use Cons in simp)
qed simp

lemma collection_clear:
  assumes wf: "collection_wf h r"
  shows "case take_all r of ((entries, stored, n), r') \<Rightarrow>
    into_iter entries stored = Inr (map snd (contents r)) \<and> n = length (contents r)
    \<and> collection_wf h r' \<and> contents r' = [] \<and> next_id r' = next_id r"
proof -
  from wf have store: "store_wf r" by (simp add: collection_wf_def)
  then have "into_iter (live r) (slots r) = Inr (map snd (contents r))"
    by (subst into_iter_eq) (auto simp: store_wf_def live_entries_def contents_def entry_record_def)
  moreover have "live_len r = length (contents r)" using store by (simp add: store_wf_def contents_def)
  ultimately show ?thesis
    using store
    by (simp add: take_all_def collection_wf_def store_wf_def live_entries_def slot_log_def contents_def
        log_hashes_def log_ok_def log_keys_def index_wf_clear cache_wf_def index_clear_def index_wf_def bucket_of_def)
qed

text \<open>C15. Clearing a collection: \<open>take_all\<close> hands out every live record in insertion order and leaves an
  empty collection that satisfies the invariant and continues with the same identity clock, so that an
  identity is never given out twice.\<close>

theorem take_all_empties:
  assumes wf: "collection_wf h r"
  shows "case take_all r of ((entries, stored, n), r') \<Rightarrow>
    into_iter entries stored = Inr (map snd (contents r)) \<and> n = length (contents r)
    \<and> collection_wf h r' \<and> contents r' = [] \<and> next_id r' = next_id r"
  using assms by (rule collection_clear)

theorem take_all_empties_witness:
  "case take_all example_store of ((entries, stored, n), r') \<Rightarrow>
     into_iter entries stored = Inr (map snd (contents example_store)) \<and> n = 2 \<and> next_id r' = 3"
  using take_all_empties [OF example_store_wf] by (auto simp: take_all_def example_store_def)


section \<open>The last slot number\<close>



end
