(* ===== verification/Collection_Validation.thy ===== *)
theory Collection_Validation
  imports Collection_Refinement
begin

text \<open>
  The structural validator of the record storage (\<open>CollectionRecords::validate\<close> and
  \<open>CollectionIndex::validate\<close>) against the invariant of the storage: its first loop decides the
  ordering and slot conditions, its second that the key index holds every live record.
\<close>

section \<open>Entries\<close>

definition ids_ok :: "nat \<Rightarrow> nat option \<Rightarrow> live_entry list \<Rightarrow> bool" where
  "ids_ok bound previous es \<longleftrightarrow>
     sorted_wrt (<) (map entry_id es) \<and> (\<forall>e \<in> set es. entry_id e < bound)
     \<and> (\<forall>p. previous = Some p \<longrightarrow> (\<forall>e \<in> set es. p < entry_id e))"

definition slots_ok :: "bool list \<Rightarrow> live_entry list \<Rightarrow> bool" where
  "slots_ok occupied es \<longleftrightarrow>
     distinct (map entry_slot (filter alive es))
     \<and> (\<forall>e \<in> set (filter alive es). unat (entry_slot e) < length occupied \<and> \<not> occupied ! unat (entry_slot e))"

lemma ids_ok_Cons:
  "ids_ok bound previous (e # es) \<longleftrightarrow>
     \<not> (bound \<le> entry_id e \<or> (case previous of None \<Rightarrow> False | Some p \<Rightarrow> entry_id e \<le> p))
     \<and> ids_ok bound (Some (entry_id e)) es"
  by (auto simp: ids_ok_def split: option.splits)

lemma slots_ok_Cons:
  "slots_ok occupied (e # es) \<longleftrightarrow>
     (if alive e
      then unat (entry_slot e) < length occupied \<and> \<not> occupied ! unat (entry_slot e)
        \<and> slots_ok (occupied[unat (entry_slot e) := True]) es
      else slots_ok occupied es)"
proof -
  have same: "unat (entry_slot e) = unat (entry_slot f) \<longleftrightarrow> entry_slot e = entry_slot f" for f
    by (simp add: word_unat_eq_iff)
  show ?thesis by (auto simp: slots_ok_def nth_list_update same split: if_splits)
qed

lemma validate_entries_iff:
  "length occupied = len \<Longrightarrow>
   (\<exists>occ. validate_entries bound len previous occupied es = Inr occ) \<longleftrightarrow>
   ids_ok bound previous es \<and> slots_ok occupied es"
proof (induction es arbitrary: previous occupied)
  case Nil
  show ?case by (simp add: ids_ok_def slots_ok_def)
next
  case (Cons e es)
  then show ?case by (auto simp: Let_def ids_ok_Cons slots_ok_Cons)
qed

lemma count_mark:
  assumes "k < length occupied" "\<not> occupied ! k"
  shows "length (filter (\<lambda>b. b) (occupied[k := True])) = Suc (length (filter (\<lambda>b. b) occupied))"
  using assms
  by (simp add: upd_conv_take_nth_drop) (metis append_take_drop_id Cons_nth_drop_Suc filter.simps(2) filter_append length_append)

lemma validate_entries_count:
  "length occupied = len \<Longrightarrow> validate_entries bound len previous occupied es = Inr occ \<Longrightarrow>
   length (filter (\<lambda>b. b) occ) = length (filter (\<lambda>b. b) occupied) + length (filter alive es)"
proof (induction es arbitrary: previous occupied)
  case (Cons e es)
  show ?case
  proof (cases "alive e")
    case True
    then show ?thesis
      using Cons.prems Cons.IH [of "occupied[unat (entry_slot e) := True]" "Some (entry_id e)"]
      by (simp add: Let_def count_mark not_le split: if_splits)
  qed (use Cons in \<open>auto split: if_splits\<close>)
qed simp

lemma validate_records_store:
  assumes "length (slots r) < 2 ^ 32" "next_id r \<le> USIZE_MAX"
  shows "validate_records h r = Inr () \<longleftrightarrow> store_wf r \<and> validate_index h r = Inr ()"
proof -
  let ?run = "validate_entries (next_id r) (length (slots r)) None (replicate (length (slots r)) False) (live r)"
  have ok: "(\<exists>occ. ?run = Inr occ) \<longleftrightarrow> ids_ok (next_id r) None (live r) \<and> slots_ok (replicate (length (slots r)) False) (live r)"
    by (simp add: validate_entries_iff)
  show ?thesis
  proof (cases "\<exists>occ. ?run = Inr occ")
    case True
    then obtain occ where occ: "?run = Inr occ" by blast
    with validate_entries_count [OF _ occ] have "length (filter (\<lambda>b. b) occ) = length (live_entries r)"
      by (simp add: live_entries_def)
    with True ok occ assms show ?thesis
      by (auto simp: validate_records_def store_wf_def ids_ok_def slots_ok_def live_entries_def)
  next
    case False
    then obtain e where "?run = Inl e" by (cases ?run) auto
    with False ok show ?thesis
      by (auto simp: validate_records_def store_wf_def ids_ok_def slots_ok_def live_entries_def)
  qed
qed

section \<open>Index\<close>

definition indexed :: "key_heap \<Rightarrow> collection_records \<Rightarrow> nat \<Rightarrow> u64 \<Rightarrow> bool" where
  "indexed h r i hash \<longleftrightarrow>
     (\<exists>rec. map_of (contents r) i = Some rec \<and> hash_uncached h (record_key rec) = Inr hash)"

definition hashed_ids :: "key_heap \<Rightarrow> collection_records \<Rightarrow> (nat \<times> u64) set" where
  "hashed_ids h r = {(i, hash). indexed h r i hash}"

lemma indexed_unique: "indexed h r i hash \<Longrightarrow> indexed h r i hash' \<Longrightarrow> hash = hash'"
  by (auto simp: indexed_def)

lemma validate_bucket_Inr:
  assumes "store_wf r"
  shows "validate_bucket h r hash bucket seen = Inr seen' \<longleftrightarrow>
    (\<forall>i \<in> set bucket. indexed h r i hash) \<and> distinct bucket \<and> set bucket \<inter> set seen = {} \<and> seen' = rev bucket @ seen"
proof (induction bucket arbitrary: seen)
  case (Cons i bucket)
  show ?case
  proof (cases "indexed h r i hash")
    case True
    then obtain rec where "map_of (contents r) i = Some rec" "hash_uncached h (record_key rec) = Inr hash"
      by (auto simp: indexed_def)
    with Cons True show ?thesis by (auto simp: get_record_eq [OF assms])
  next
    case False
    then show ?thesis
      by (cases "map_of (contents r) i"; cases "hash_uncached h (record_key (the (map_of (contents r) i)))")
        (auto simp: get_record_eq [OF assms] indexed_def)
  qed
qed auto

lemma validate_buckets_Inr:
  assumes "store_wf r"
  shows "validate_buckets h r bs seen = Inr seen' \<longleftrightarrow>
    (\<forall>(hash, bucket) \<in> set bs. bucket \<noteq> [] \<and> (\<forall>i \<in> set bucket. indexed h r i hash))
    \<and> distinct (concat (map snd bs)) \<and> set (concat (map snd bs)) \<inter> set seen = {}
    \<and> seen' = rev (concat (map snd bs)) @ seen"
proof (induction bs arbitrary: seen)
  case (Cons b bs)
  obtain hash bucket where b: "b = (hash, bucket)" by force
  show ?case
  proof (cases "validate_bucket h r hash bucket seen")
    case (Inl e)
    then have "\<nexists>s. validate_bucket h r hash bucket seen = Inr s" by simp
    then show ?thesis using Inl unfolding validate_bucket_Inr [OF assms] by (auto simp: b)
  next
    case (Inr s)
    with validate_bucket_Inr [OF assms, of h hash bucket seen s] Cons show ?thesis by (auto simp: b)
  qed
qed auto

lemma bucket_of_mem:
  assumes "distinct (map fst (buckets ix))"
  shows "i \<in> set (bucket_of ix hash) \<longleftrightarrow> (\<exists>bucket. (hash, bucket) \<in> set (buckets ix) \<and> i \<in> set bucket)"
  using assms by (auto simp: bucket_of_def split: option.split dest: map_of_SomeD)

lemma distinct_buckets:
  assumes "distinct (map fst bs)" "\<forall>(hash, bucket) \<in> set bs. distinct bucket \<and> (\<forall>i \<in> set bucket. indexed h r i hash)"
  shows "distinct (concat (map snd bs))"
  using assms
proof (induction bs)
  case (Cons b bs)
  obtain hash bucket where b: "b = (hash, bucket)" by force
  have "hash' \<noteq> hash" if "(hash', bucket') \<in> set bs" for hash' bucket' using Cons.prems(1) that by (force simp: b)
  then have "i \<notin> set (concat (map snd bs))" if "i \<in> set bucket" for i
    using Cons.prems(2) that by (force simp: b dest: indexed_unique)
  with Cons show ?case by (auto simp: b)
qed simp

abbreviation all_indices :: "collection_records \<Rightarrow> nat list" where
  "all_indices r \<equiv> concat (map snd (buckets (key_index r)))"

definition buckets_ok :: "key_heap \<Rightarrow> collection_records \<Rightarrow> bool" where
  "buckets_ok h r \<longleftrightarrow>
     (\<forall>(hash, bucket) \<in> set (buckets (key_index r)). bucket \<noteq> [] \<and> (\<forall>i \<in> set bucket. indexed h r i hash))
     \<and> distinct (all_indices r)"

lemma validate_index_run:
  assumes wf: "store_wf r"
  shows "validate_index h r = Inr () \<longleftrightarrow> buckets_ok h r \<and> length (all_indices r) = live_len r"
proof (cases "validate_buckets h r (buckets (key_index r)) []")
  case (Inl e)
  then have "\<not> buckets_ok h r"
    using validate_buckets_Inr [OF wf, of h "buckets (key_index r)" "[]" "rev (all_indices r)"]
    by (auto simp: buckets_ok_def)
  with Inl show ?thesis by (auto simp: validate_index_def)
next
  case (Inr seen)
  then have "buckets_ok h r \<and> seen = rev (all_indices r)"
    using validate_buckets_Inr [OF wf, of h "buckets (key_index r)" "[]" seen] by (simp add: buckets_ok_def)
  with Inr show ?thesis by (auto simp: validate_index_def simp del: length_concat)
qed

text \<open>Buckets without repetition that hold live identities only, as many as there are, hold them all.\<close>

lemma hashed_ids_live: "fst ` hashed_ids h r \<subseteq> fst ` set (contents r)"
  by (force simp: hashed_ids_def indexed_def dest: map_of_SomeD)

lemma distinct_content_ids:
  "store_wf r \<Longrightarrow> distinct (map fst (contents r)) \<and> live_len r = length (contents r)"
  using sorted_contents [of r] by (simp add: strict_sorted_iff store_wf_def contents_def)

lemma all_indices_hashed:
  assumes "\<And>i hash. indexed h r i hash \<longleftrightarrow> (\<exists>bucket. (hash, bucket) \<in> set (buckets (key_index r)) \<and> i \<in> set bucket)"
  shows "set (all_indices r) = fst ` hashed_ids h r"
proof (intro set_eqI iffI)
  fix i assume "i \<in> set (all_indices r)"
  then obtain hash bucket where "(hash, bucket) \<in> set (buckets (key_index r))" "i \<in> set bucket" by auto
  then have "(i, hash) \<in> hashed_ids h r" using assms by (auto simp: hashed_ids_def)
  then show "i \<in> fst ` hashed_ids h r" by force
next
  fix i assume "i \<in> fst ` hashed_ids h r"
  then obtain hash where "indexed h r i hash" by (auto simp: hashed_ids_def)
  then show "i \<in> set (all_indices r)" using assms [of i hash] by force
qed

lemma buckets_complete:
  assumes wf: "store_wf r" and ok: "buckets_ok h r" "length (all_indices r) = live_len r"
  shows "set (all_indices r) = fst ` set (contents r)"
    and "indexed h r i hash \<longleftrightarrow> (\<exists>bucket. (hash, bucket) \<in> set (buckets (key_index r)) \<and> i \<in> set bucket)"
proof -
  note ids = distinct_content_ids [OF wf]
  have "set (all_indices r) \<subseteq> fst ` hashed_ids h r" using ok(1) by (force simp: hashed_ids_def buckets_ok_def)
  with hashed_ids_live have sub: "set (all_indices r) \<subseteq> fst ` set (contents r)" by blast
  have "distinct (all_indices r)" using ok(1) by (simp add: buckets_ok_def)
  from distinct_card [OF this] distinct_card [OF conjunct1 [OF ids]] ids ok(2)
  have "card (set (all_indices r)) = card (fst ` set (contents r))" by (simp del: set_concat)
  then show all: "set (all_indices r) = fst ` set (contents r)" by (intro card_subset_eq) (use sub in auto)
  show "indexed h r i hash \<longleftrightarrow> (\<exists>bucket. (hash, bucket) \<in> set (buckets (key_index r)) \<and> i \<in> set bucket)"
  proof
    assume found: "indexed h r i hash"
    then have "i \<in> set (all_indices r)" using hashed_ids_live all by (force simp: hashed_ids_def)
    then obtain hash' bucket where b: "(hash', bucket) \<in> set (buckets (key_index r))" "i \<in> set bucket" by auto
    with ok(1) have "hash' = hash" using indexed_unique [OF _ found] by (auto simp: buckets_ok_def)
    with b show "\<exists>bucket. (hash, bucket) \<in> set (buckets (key_index r)) \<and> i \<in> set bucket" by blast
  qed (use ok(1) in \<open>auto simp: buckets_ok_def\<close>)
qed

lemma validate_index_iff:
  assumes wf: "store_wf r" and keys: "distinct (map fst (buckets (key_index r)))"
  shows "validate_index h r = Inr () \<longleftrightarrow>
    index_wf (key_index r) (hashed_ids h r) \<and> fst ` hashed_ids h r = fst ` set (contents r)"
  unfolding validate_index_run [OF wf]
proof
  assume ok: "buckets_ok h r \<and> length (all_indices r) = live_len r"
  note all = buckets_complete [OF wf conjunct1 [OF ok] conjunct2 [OF ok]]
  have "index_wf (key_index r) (hashed_ids h r)"
    unfolding index_wf_def bucket_of_mem [OF keys]
    using keys all(2) ok by (auto simp: hashed_ids_def buckets_ok_def distinct_concat_iff)
  with all(1) all_indices_hashed [of h r, OF all(2)]
  show "index_wf (key_index r) (hashed_ids h r) \<and> fst ` hashed_ids h r = fst ` set (contents r)" by simp
next
  assume ok: "index_wf (key_index r) (hashed_ids h r) \<and> fst ` hashed_ids h r = fst ` set (contents r)"
  then have "(i, hash) \<in> hashed_ids h r \<longleftrightarrow>
      (\<exists>bucket. (hash, bucket) \<in> set (buckets (key_index r)) \<and> i \<in> set bucket)" for i hash
    by (simp add: index_wf_def bucket_of_mem [OF keys, symmetric])
  then have members: "indexed h r i hash \<longleftrightarrow>
      (\<exists>bucket. (hash, bucket) \<in> set (buckets (key_index r)) \<and> i \<in> set bucket)" for i hash
    by (simp add: hashed_ids_def)
  then have good: "buckets_ok h r"
    using ok keys by (auto simp: buckets_ok_def index_wf_def intro!: distinct_buckets [of _ h r])
  have "set (all_indices r) = fst ` set (contents r)"
    using all_indices_hashed [of h r, OF members] ok by simp
  moreover have "distinct (all_indices r)" using good by (simp add: buckets_ok_def)
  ultimately have "length (all_indices r) = live_len r"
    using distinct_content_ids [OF wf] by (metis distinct_card length_map set_map)
  with good show "buckets_ok h r \<and> length (all_indices r) = live_len r" by blast
qed

text \<open>C16. The validator of a collection decides its structural invariant: on a storage within the
  bounds of its integer types and with a proper hash table, \<open>validate\<close> succeeds exactly when the entries are
  ordered by identity with distinct slots in range, and the key index holds exactly the live records,
  each once and in the bucket of the hash of its key.\<close>

theorem validate_records_exact:
  assumes "length (slots r) < 2 ^ 32" "next_id r \<le> USIZE_MAX" "distinct (map fst (buckets (key_index r)))"
  shows "validate_records h r = Inr () \<longleftrightarrow>
    store_wf r \<and> index_wf (key_index r) (hashed_ids h r) \<and> fst ` hashed_ids h r = fst ` set (contents r)"
  using validate_records_store [OF assms(1,2)] validate_index_iff [OF _ assms(3)] by blast

theorem validate_records_exact_witness: "validate_records example_heap example_store = Inr ()"
proof -
  have ids: "hashed_ids example_heap example_store = {(0, 1), (2, 2)}"
    by (auto simp: hashed_ids_def indexed_def example_store_contents hash_uncached_def example_heap_def split: if_splits)
  have "store_wf example_store" "index_wf (key_index example_store) {(0, 1), (2, 2)}"
    using example_store_wf unfolding collection_wf_def example_store_log by (simp_all add: log_hashes_def)
  moreover have "length (slots example_store) < 2 ^ 32" "next_id example_store \<le> USIZE_MAX"
    "distinct (map fst (buckets (key_index example_store)))"
    by (simp_all add: example_store_def USIZE_MAX_def)
  ultimately show ?thesis
    using validate_records_exact [of example_store example_heap] unfolding ids by (simp add: example_store_contents)
qed

end
