(* ===== verification/Collection_Iteration.thy ===== *)
theory Collection_Iteration
  imports Collection_Validation
begin

text \<open>
  Iteration over a collection that changes while it is iterated. \<open>iterator_source\<close> is what an iterator
  relies on: identities in ascending order below a clock, mutations that only add identities from the
  clock on, and a step that finds the first identity at or after the cursor. It is interpreted on the
  record storage; \<open>iteration\<close> interleaves calls of the iterator with the operations of the storage.
\<close>

section \<open>What an iterator relies on\<close>

lemma find_first_sorted:
  fixes c :: nat
  assumes "sorted_wrt (<) xs" "find (\<lambda>i. c \<le> i) xs = Some i"
  shows "i \<in> set xs \<and> c \<le> i \<and> (\<forall>j \<in> set xs. j < i \<longrightarrow> j < c)"
  using assms by (induction xs) (auto split: if_splits)

locale iterator_source =
  fixes wf :: "'s \<Rightarrow> bool" and ids :: "'s \<Rightarrow> nat list" and clock :: "'s \<Rightarrow> nat"
    and mutation :: "'s \<Rightarrow> 's \<Rightarrow> bool"
  assumes sorted_ids: "wf s \<Longrightarrow> sorted_wrt (<) (ids s)"
    and ids_below_clock: "wf s \<Longrightarrow> i \<in> set (ids s) \<Longrightarrow> i < clock s"
    and mutation_wf: "wf s \<Longrightarrow> mutation s t \<Longrightarrow> wf t"
    and mutation_clock: "wf s \<Longrightarrow> mutation s t \<Longrightarrow> clock s \<le> clock t"
    and mutation_ids: "wf s \<Longrightarrow> mutation s t \<Longrightarrow> set (ids t) \<subseteq> set (ids s) \<union> {clock s..}"
begin

definition visiting :: "'s \<Rightarrow> nat \<Rightarrow> nat list \<Rightarrow> bool" where
  "visiting s cursor visited \<longleftrightarrow>
     wf s \<and> cursor \<le> clock s \<and> sorted_wrt (<) visited \<and> (\<forall>i \<in> set visited. i < cursor)
     \<and> (\<forall>i \<in> set (ids s). i < cursor \<longrightarrow> i \<in> set visited)"

lemma visiting_start: "wf s \<Longrightarrow> visiting s 0 []"
  by (simp add: visiting_def)

lemma visiting_mutation:
  assumes "visiting s cursor visited" "mutation s t"
  shows "visiting t cursor visited"
proof -
  have s: "wf s" "cursor \<le> clock s" using assms(1) by (simp_all add: visiting_def)
  note t = mutation_wf [OF s(1) assms(2)] mutation_clock [OF s(1) assms(2)] mutation_ids [OF s(1) assms(2)]
  have "i \<in> set visited" if "i \<in> set (ids t)" "i < cursor" for i
  proof -
    from that(2) s(2) have "i < clock s" by simp
    with that(1) t(3) have "i \<in> set (ids s)" by force
    with that(2) assms(1) show ?thesis by (simp add: visiting_def)
  qed
  with t(1,2) s assms(1) show ?thesis by (simp add: visiting_def)
qed

lemma visiting_step:
  assumes "visiting s cursor visited" "find (\<lambda>i. cursor \<le> i) (ids s) = Some i"
  shows "visiting s (Suc i) (visited @ [i])"
proof -
  have s: "wf s" "sorted_wrt (<) (ids s)" "\<forall>j \<in> set visited. j < cursor" "sorted_wrt (<) visited"
    using assms(1) sorted_ids by (simp_all add: visiting_def)
  note found = find_first_sorted [OF s(2) assms(2)]
  have "j \<in> set visited \<or> j = i" if "j \<in> set (ids s)" "j < Suc i" for j
  proof (cases "j = i")
    case False
    with that found have "j < cursor" by simp
    with that(1) assms(1) show ?thesis unfolding visiting_def by blast
  qed simp
  moreover have "Suc i \<le> clock s" using ids_below_clock [OF s(1)] found by (simp add: Suc_le_eq)
  moreover have "sorted_wrt (<) (visited @ [i])" using s(3,4) found by (auto simp: sorted_wrt_append)
  moreover have "\<forall>j \<in> set (visited @ [i]). j < Suc i" using s(3) found by auto
  ultimately show ?thesis using s(1) by (auto simp: visiting_def)
qed

lemma visiting_done:
  assumes "visiting s cursor visited" "find (\<lambda>i. cursor \<le> i) (ids s) = None"
  shows "set (ids s) \<subseteq> set visited"
  using assms by (auto simp: visiting_def find_None_iff not_le)

end

section \<open>Operations on a collection\<close>

inductive collection_operation :: "key_heap \<Rightarrow> collection_records \<Rightarrow> collection_records \<Rightarrow> bool" for h where
  find: "find_entry h r key = Inr (found, r') \<Longrightarrow> resolves h key \<Longrightarrow> collection_operation h r r'"
| insert: "find_entry h r (record_key rec) = Inr (None, r1) \<Longrightarrow> insert_record h r1 rec = Inr (i, r') \<Longrightarrow>
    resolves h (record_key rec) \<Longrightarrow> length (slots r) < 2 ^ 32 - 1 \<Longrightarrow> next_id r < USIZE_MAX \<Longrightarrow>
    collection_operation h r r'"
| replace: "replace_value r i v = Inr (old, r') \<Longrightarrow> collection_operation h r r'"
| remove: "remove_record r i = Inr (old, r') \<Longrightarrow> collection_operation h r r'"
| clear: "take_all r = (removed, r') \<Longrightarrow> collection_operation h r r'"

inductive iteration ::
  "key_heap \<Rightarrow> collection_records \<Rightarrow> collection_records \<Rightarrow> nat option \<Rightarrow> nat list \<Rightarrow> bool" for h r0 where
  start: "iteration h r0 r0 (Some 0) []"
| operate: "iteration h r0 r c visited \<Longrightarrow> collection_operation h r r' \<Longrightarrow> iteration h r0 r' c visited"
| advance: "iteration h r0 r c visited \<Longrightarrow> map_iterator_next r c = Inr (Some (i, rec), c') \<Longrightarrow>
    iteration h r0 r c' (visited @ [i])"
| finish: "iteration h r0 r c visited \<Longrightarrow> map_iterator_next r c = Inr (None, c') \<Longrightarrow>
    iteration h r0 r c' visited"

lemma find_entry_slots: "find_entry h r key = Inr (found, r') \<Longrightarrow> slots r' = slots r"
  by (auto simp: find_entry_def and_then_def split: sum.splits option.splits prod.splits)

lemma collection_operation_contents:
  assumes "collection_wf h r" "collection_operation h r r'"
  shows "collection_wf h r' \<and> next_id r \<le> next_id r'
    \<and> fst ` set (contents r') \<subseteq> fst ` set (contents r) \<union> {next_id r..}"
  using assms(2)
proof cases
  case (find key found)
  then show ?thesis
    using collection_find [OF assms(1)] by fastforce
next
  case (insert rec r1 i)
  from collection_find [OF assms(1) insert(3)] insert(1)
  have r1: "lookup_key h r (key_of h (record_key rec)) = None" "collection_wf h r1" "contents r1 = contents r"
    "next_id r1 = next_id r" "slots r1 = slots r" by (auto simp: find_entry_slots)
  then have "key_of h (record_key rec) \<notin> set (collection_keys h r1)"
    by (force simp: lookup_key_def find_None_iff collection_keys_def)
  from collection_insert [OF r1(2) insert(3) this] insert(2,4,5) r1(3-5)
  show ?thesis
    by auto
next
  case (replace i v old)
  then show ?thesis
    using collection_replace [OF assms(1), of i v] by (force simp: case_prod_beta)
next
  case (remove i old)
  then show ?thesis
    using collection_remove [OF assms(1), of i] by (auto simp: removal_filter_def)
next
  case (clear removed)
  then show ?thesis
    using collection_clear [OF assms(1)] by (auto split: prod.splits)
qed

interpretation collection: iterator_source "collection_wf h" "\<lambda>r. map fst (contents r)" next_id "collection_operation h"
  for h
proof
  fix r r' assume wf: "collection_wf h r"
  then have store: "store_wf r" by (simp add: collection_wf_def)
  show "sorted_wrt (<) (map fst (contents r))" using sorted_contents [OF store] .
  show "i < next_id r" if "i \<in> set (map fst (contents r))" for i
    using that contents_below_next_id [OF store] by auto
  assume "collection_operation h r r'"
  note op = collection_operation_contents [OF wf this]
  from op show "collection_wf h r'" "next_id r \<le> next_id r'" by simp_all
  from op show "set (map fst (contents r')) \<subseteq> set (map fst (contents r)) \<union> {next_id r..}" by simp
qed

lemma find_fst: "find (\<lambda>i. P i) (map fst xs) = map_option fst (find (\<lambda>(i, _). P i) xs)"
  by (induction xs) auto

lemma map_iterator_next_eq:
  assumes "collection_wf h r"
  shows "map_iterator_next r (Some cursor) =
    (case find (\<lambda>(i, _). cursor \<le> i) (contents r) of
       None \<Rightarrow> Inr (None, None) | Some (i, rec) \<Rightarrow> Inr (Some (i, rec), Some (i + 1)))"
proof -
  have store: "store_wf r" using assms by (simp add: collection_wf_def)
  show ?thesis
  proof (cases "find (\<lambda>(i, _). cursor \<le> i) (contents r)")
    case None
    then show ?thesis by (simp add: map_iterator_next_def next_at_or_after_eq [OF store])
  next
    case (Some entry)
    moreover obtain i rec where entry: "entry = (i, rec)" by force
    ultimately have "(i, rec) \<in> set (contents r)" by (auto simp: find_Some_iff in_set_conv_nth)
    then have "i \<noteq> USIZE_MAX"
      using contents_below_next_id [OF store] store by (fastforce simp: store_wf_def)
    with Some entry show ?thesis by (simp add: map_iterator_next_def next_at_or_after_eq [OF store])
  qed
qed

lemma iteration_invariant:
  assumes "iteration h r0 r c visited" "collection_wf h r0"
  shows "collection_wf h r \<and> sorted_wrt (<) visited
    \<and> (\<forall>cursor. c = Some cursor \<longrightarrow> collection.visiting h r cursor visited)"
  using assms
proof (induction rule: iteration.induct)
  case start
  then show ?case by (simp add: collection.visiting_start)
next
  case (operate r c visited r')
  then show ?case using collection.mutation_wf collection.visiting_mutation by blast
next
  case (advance r c visited i rec c')
  then obtain cursor where c: "c = Some cursor" by (cases c) (auto simp: map_iterator_next_def)
  with advance have found: "find (\<lambda>i. cursor \<le> i) (map fst (contents r)) = Some i" and "c' = Some (Suc i)"
    using map_iterator_next_eq [of h r cursor] by (auto simp: find_fst split: option.splits)
  from advance c have "collection.visiting h r cursor visited" by simp
  from collection.visiting_step [OF this found] have "collection.visiting h r (Suc i) (visited @ [i])" .
  then show ?case using \<open>c' = Some (Suc i)\<close> by (simp add: collection.visiting_def)
next
  case (finish r c visited c')
  then have "c' = None"
    using map_iterator_next_eq [of h r] by (cases c) (auto simp: map_iterator_next_def split: option.splits)
  with finish show ?case by simp
qed

text \<open>C17. Iteration under mutation: whatever lookups, insertions, updates, deletions and clears happen
  between the calls of an iterator, each call succeeds; the identities it hands out are strictly
  ascending, so records come in insertion order and none twice; a record handed out is live at that
  moment; and when the iterator reports its end, every record then in the collection has been handed out.\<close>

theorem iteration_visits_all:
  assumes "collection_wf h r0" "iteration h r0 r c visited"
  shows "sorted_wrt (<) visited
    \<and> (\<exists>found c'. map_iterator_next r c = Inr (found, c')
        \<and> (\<forall>i rec. found = Some (i, rec) \<longrightarrow> (i, rec) \<in> set (contents r) \<and> (\<forall>j \<in> set visited. j < i))
        \<and> (found = None \<and> c \<noteq> None \<longrightarrow> fst ` set (contents r) \<subseteq> set visited))"
proof -
  from iteration_invariant [OF assms(2,1)] have wf: "collection_wf h r" "sorted_wrt (<) visited"
    and visiting: "c = Some cursor \<Longrightarrow> collection.visiting h r cursor visited" for cursor by blast+
  show ?thesis
  proof (cases c)
    case None
    with wf show ?thesis by (simp add: map_iterator_next_def)
  next
    case (Some cursor)
    note v = visiting [OF this]
    show ?thesis
    proof (cases "find (\<lambda>(i, _). cursor \<le> i) (contents r)")
      case None
      then have "fst ` set (contents r) \<subseteq> set visited"
        using collection.visiting_done [OF v] by (simp add: find_fst)
      with None Some wf show ?thesis by (simp add: map_iterator_next_eq)
    next
      case found: (Some entry)
      then have "entry \<in> set (contents r)" "cursor \<le> fst entry"
        by (auto simp: find_Some_iff in_set_conv_nth case_prod_beta)
      with found Some wf v show ?thesis
        by (auto simp: map_iterator_next_eq collection.visiting_def split: prod.split)
    qed
  qed
qed

theorem iteration_visits_all_witness:
  "iteration example_heap example_store example_store (Some 1) [0]
   \<and> (\<exists>found c'. map_iterator_next example_store (Some 1) = Inr (found, c') \<and>
       (\<forall>i rec. found = Some (i, rec) \<longrightarrow> (i, rec) \<in> set (contents example_store)))"
proof -
  have "map_iterator_next example_store (Some 0)
      = Inr (Some (0, \<lparr>record_key = VNull, record_value = VBool True\<rparr>), Some 1)"
    using map_iterator_next_eq [OF example_store_wf, of 0] by (simp add: example_store_contents)
  from iteration.advance [OF iteration.start this]
  have run: "iteration example_heap example_store example_store (Some 1) [0]" by simp
  with iteration_visits_all [OF example_store_wf run] show ?thesis by blast
qed

end
