(* ===== verification/Heap_Arena.thy ===== *)
theory Heap_Arena
  imports Collection_Store
begin

text \<open>
  The runtime heap: typed handles, node payloads and the two arenas (\<open>src/engine/heap/mod.rs\<close>,
  \<open>src/engine/heap/arena.rs\<close>).

  A node payload is modelled by what ownership depends on. Objects have their property slots, their
  shape, and a payload: \<open>Map\<close> and \<open>Set\<close> carry their record storage, the four weak classes and all
  other classes the edges and atoms that \<open>object_edges\<close> and \<open>object_atoms\<close> read off them. Contexts and
  function bytecode are their edges and atoms. Debug-only ledgers and the layout epoch are left out.
\<close>

section \<open>Handles\<close>

datatype raw_id =
    RObject node_id | RShape node_id | RVarRef node_id | RContext node_id | RFunctionBytecode node_id
  | RString node_id | RBigInt node_id

fun raw_kind :: "raw_id \<Rightarrow> heap_node_kind" where
  "raw_kind (RObject _) = ObjectNode"
| "raw_kind (RShape _) = ShapeNode"
| "raw_kind (RVarRef _) = VarRefNode"
| "raw_kind (RContext _) = ContextNode"
| "raw_kind (RFunctionBytecode _) = FunctionBytecodeNode"
| "raw_kind (RString _) = StringNode"
| "raw_kind (RBigInt _) = BigIntNode"

fun raw_node :: "raw_id \<Rightarrow> node_id" where
  "raw_node (RObject i) = i"
| "raw_node (RShape i) = i"
| "raw_node (RVarRef i) = i"
| "raw_node (RContext i) = i"
| "raw_node (RFunctionBytecode i) = i"
| "raw_node (RString i) = i"
| "raw_node (RBigInt i) = i"

abbreviation raw_index :: "raw_id \<Rightarrow> u32" where
  "raw_index i \<equiv> node_index (raw_node i)"

abbreviation raw_generation :: "raw_id \<Rightarrow> u32" where
  "raw_generation i \<equiv> node_generation (raw_node i)"

fun is_leaf :: "raw_id \<Rightarrow> bool" where
  "is_leaf (RString _) = True"
| "is_leaf (RBigInt _) = True"
| "is_leaf _ = False"

section \<open>Payloads\<close>

datatype property_slot =
    SlotData raw_value
  | SlotVarRef node_id
  | SlotAccessor "node_id option" "node_id option"
  | SlotAutoInit node_id

datatype object_payload =
    MapPayload collection_records
  | SetPayload collection_records
  | WeakPayload "raw_id list" "u32 list"
  | OtherPayload "raw_id list" "u32 list"

record object_data =
  object_shape :: node_id
  object_slots :: "property_slot list"
  object_payload :: object_payload
  private_brand_home :: "u32 option"
  used_as_prototype :: bool

record shape_data =
  shape_prototype :: "node_id option"
  shape_atoms :: "u32 list"

record owner_data =
  owner_edges :: "raw_id list"
  owner_atoms :: "u32 list"

datatype node_data =
    ObjectData object_data
  | ShapeData shape_data
  | VarRefData raw_value
  | ContextData owner_data
  | FunctionBytecodeData owner_data

fun data_kind :: "node_data \<Rightarrow> heap_node_kind" where
  "data_kind (ObjectData _) = ObjectNode"
| "data_kind (ShapeData _) = ShapeNode"
| "data_kind (VarRefData _) = VarRefNode"
| "data_kind (ContextData _) = ContextNode"
| "data_kind (FunctionBytecodeData _) = FunctionBytecodeNode"

fun raw_value_edge :: "raw_value \<Rightarrow> raw_id option" where
  "raw_value_edge (VObject i) = Some (RObject i)"
| "raw_value_edge (VString i) = Some (RString i)"
| "raw_value_edge (VBigInt i) = Some (RBigInt i)"
| "raw_value_edge _ = None"

fun option_list :: "'a option \<Rightarrow> 'a list" where
  "option_list None = []"
| "option_list (Some x) = [x]"

definition raw_value_edges :: "raw_value \<Rightarrow> raw_id list" where
  "raw_value_edges value = option_list (raw_value_edge value)"

fun raw_value_atom :: "raw_value \<Rightarrow> u32 option" where
  "raw_value_atom (VSymbol index) = Some index"
| "raw_value_atom (VPrivate index) = Some index"
| "raw_value_atom _ = None"

fun property_slot_edges :: "property_slot \<Rightarrow> raw_id list" where
  "property_slot_edges (SlotData value) = option_list (raw_value_edge value)"
| "property_slot_edges (SlotVarRef var_ref) = [RVarRef var_ref]"
| "property_slot_edges (SlotAccessor getter setter) = map RObject (option_list getter @ option_list setter)"
| "property_slot_edges (SlotAutoInit realm) = [RContext realm]"

fun property_slot_atoms :: "property_slot \<Rightarrow> u32 list" where
  "property_slot_atoms (SlotData value) = option_list (raw_value_atom value)"
| "property_slot_atoms _ = []"

text \<open>\<open>CollectionRecords::iter\<close>: the live records in order.\<close>

definition record_list :: "collection_records \<Rightarrow> map_record list" where
  "record_list r = map (\<lambda>entry. slot_record (slots r ! unat (entry_slot entry))) (live_entries r)"

fun payload_edges :: "object_payload \<Rightarrow> raw_id list" where
  "payload_edges (MapPayload records) =
     concat (map (\<lambda>record. option_list (raw_value_edge (record_key record))
       @ option_list (raw_value_edge (record_value record))) (record_list records))"
| "payload_edges (SetPayload records) =
     concat (map (\<lambda>record. option_list (raw_value_edge (record_key record))) (record_list records))"
| "payload_edges (WeakPayload edges _) = edges"
| "payload_edges (OtherPayload edges _) = edges"

fun payload_atoms :: "object_payload \<Rightarrow> u32 list" where
  "payload_atoms (MapPayload records) =
     concat (map (\<lambda>record. option_list (raw_value_atom (record_key record))
       @ option_list (raw_value_atom (record_value record))) (record_list records))"
| "payload_atoms (SetPayload records) =
     concat (map (\<lambda>record. option_list (raw_value_atom (record_key record))) (record_list records))"
| "payload_atoms (WeakPayload _ atoms) = atoms"
| "payload_atoms (OtherPayload _ atoms) = atoms"

definition object_edges :: "object_data \<Rightarrow> raw_id list" where
  "object_edges object =
     concat (map property_slot_edges (object_slots object)) @ [RShape (object_shape object)]
     @ payload_edges (object_payload object)"

definition object_atoms :: "object_data \<Rightarrow> u32 list" where
  "object_atoms object =
     concat (map property_slot_atoms (object_slots object)) @ payload_atoms (object_payload object)
     @ option_list (private_brand_home object)"

definition shape_edges :: "shape_data \<Rightarrow> raw_id list" where
  "shape_edges shape = map RObject (option_list (shape_prototype shape))"

fun data_edges :: "node_data \<Rightarrow> raw_id list" where
  "data_edges (ObjectData object) = object_edges object"
| "data_edges (ShapeData shape) = shape_edges shape"
| "data_edges (VarRefData value) = raw_value_edges value"
| "data_edges (ContextData context) = owner_edges context"
| "data_edges (FunctionBytecodeData bytecode) = owner_edges bytecode"

fun data_atoms :: "node_data \<Rightarrow> u32 list" where
  "data_atoms (ObjectData object) = object_atoms object"
| "data_atoms (ShapeData shape) = shape_atoms shape"
| "data_atoms (VarRefData value) = option_list (raw_value_atom value)"
| "data_atoms (ContextData context) = owner_atoms context"
| "data_atoms (FunctionBytecodeData bytecode) = owner_atoms bytecode"

fun is_weak_object :: "node_data \<Rightarrow> bool" where
  "is_weak_object (ObjectData object) \<longleftrightarrow>
     (case object_payload object of WeakPayload _ _ \<Rightarrow> True | _ \<Rightarrow> False)"
| "is_weak_object _ \<longleftrightarrow> False"

section \<open>Arenas\<close>

record heap_node =
  node_strong :: u32
  node_payload :: node_data

datatype slot_state =
    Initializing heap_node_kind u32
  | Live heap_node
  | ZeroQueued heap_node
  | Zombie heap_node_kind u32
  | Vacant
  | Retired

fun state_kind :: "slot_state \<Rightarrow> heap_node_kind option" where
  "state_kind (Initializing kind _) = Some kind"
| "state_kind (Zombie kind _) = Some kind"
| "state_kind (Live node) = Some (data_kind (node_payload node))"
| "state_kind (ZeroQueued node) = Some (data_kind (node_payload node))"
| "state_kind Vacant = None"
| "state_kind Retired = None"

fun state_strong :: "slot_state \<Rightarrow> u32 option" where
  "state_strong (Initializing _ strong) = Some strong"
| "state_strong (Zombie _ strong) = Some strong"
| "state_strong (Live node) = Some (node_strong node)"
| "state_strong (ZeroQueued node) = Some (node_strong node)"
| "state_strong Vacant = None"
| "state_strong Retired = None"

record arena_slot =
  slot_generation :: u32
  slot_state :: slot_state
  weak_prev :: "node_id option"
  weak_next :: "node_id option"

datatype leaf_value = LeafVacant | LeafRetired | LeafString "u16 list" | LeafBigInt js_bigint

fun leaf_kind :: "leaf_value \<Rightarrow> heap_node_kind option" where
  "leaf_kind (LeafString _) = Some StringNode"
| "leaf_kind (LeafBigInt _) = Some BigIntNode"
| "leaf_kind _ = None"

record leaf_slot =
  leaf_generation :: u32
  leaf_strong :: u32
  leaf_value :: leaf_value

definition leaf_is_live :: "leaf_slot \<Rightarrow> bool" where
  "leaf_is_live s \<longleftrightarrow> leaf_kind (leaf_value s) \<noteq> None \<and> leaf_strong s \<noteq> 0"

definition leaf_is_zero_queued :: "leaf_slot \<Rightarrow> bool" where
  "leaf_is_zero_queued s \<longleftrightarrow> leaf_kind (leaf_value s) \<noteq> None \<and> leaf_strong s = 0"

record heap =
  heap_slots :: "arena_slot list"
  heap_free :: "u32 list"
  leaf_slots :: "leaf_slot list"
  leaf_free :: "u32 list"
  zero_queue :: "raw_id list"
  weak_head :: "node_id option"
  weak_tail :: "node_id option"

definition new_heap :: heap where
  "new_heap = \<lparr>heap_slots = [], heap_free = [], leaf_slots = [], leaf_free = [], zero_queue = [],
     weak_head = None, weak_tail = None\<rparr>"

definition set_state :: "heap \<Rightarrow> nat \<Rightarrow> slot_state \<Rightarrow> heap" where
  "set_state h i st = h\<lparr>heap_slots := (heap_slots h)[i := (heap_slots h ! i)\<lparr>slot_state := st\<rparr>]\<rparr>"

definition set_leaf :: "heap \<Rightarrow> nat \<Rightarrow> u32 \<Rightarrow> leaf_value \<Rightarrow> heap" where
  "set_leaf h i strong value =
     h\<lparr>leaf_slots := (leaf_slots h)[i := (leaf_slots h ! i)\<lparr>leaf_strong := strong, leaf_value := value\<rparr>]\<rparr>"

section \<open>Identity checks\<close>

definition stale :: "raw_id \<Rightarrow> 'a heap_result" where
  "stale i = Inl (Err (Stale (raw_index i) (raw_generation i)))"

definition underflow :: "raw_id \<Rightarrow> 'a heap_result" where
  "underflow i = Inl (Err (Underflow (raw_kind i) (raw_index i) (raw_generation i)))"

definition validate_slot_identity :: "heap \<Rightarrow> raw_id \<Rightarrow> nat heap_result" where
  "validate_slot_identity h i =
     (let index = unat (raw_index i) in
      case vec_get_opt (heap_slots h) index of
        None \<Rightarrow> stale i
      | Some slot \<Rightarrow>
          if slot_generation slot \<noteq> raw_generation i then stale i
          else case state_kind (slot_state slot) of
                 None \<Rightarrow> stale i
               | Some actual \<Rightarrow>
                   if actual \<noteq> raw_kind i then Inl (Err (WrongKind (raw_kind i) actual)) else Inr index)"

definition validate_leaf_identity :: "heap \<Rightarrow> raw_id \<Rightarrow> nat heap_result" where
  "validate_leaf_identity h i =
     (let index = unat (raw_index i) in
      case vec_get_opt (leaf_slots h) index of
        None \<Rightarrow> stale i
      | Some slot \<Rightarrow>
          if leaf_generation slot \<noteq> raw_generation i then stale i
          else case leaf_kind (leaf_value slot) of
                 None \<Rightarrow> stale i
               | Some actual \<Rightarrow>
                   if actual \<noteq> raw_kind i then Inl (Err (WrongKind (raw_kind i) actual)) else Inr index)"

definition live_leaf_slot :: "heap \<Rightarrow> raw_id \<Rightarrow> leaf_slot heap_result" where
  "live_leaf_slot h i =
     and_then (validate_leaf_identity h i) (\<lambda>index.
     and_then (vec_get (leaf_slots h) index) (\<lambda>slot.
       if leaf_is_live slot then Inr slot else stale i))"

definition live_leaf_fast :: "heap \<Rightarrow> raw_id \<Rightarrow> leaf_slot heap_result" where
  "live_leaf_fast h i =
     and_then (vec_get (leaf_slots h) (unat (raw_index i))) (\<lambda>slot.
       if leaf_is_live slot then Inr slot else Inl Panic)"

definition live_index :: "heap \<Rightarrow> raw_id \<Rightarrow> nat heap_result" where
  "live_index h i =
     and_then (validate_slot_identity h i) (\<lambda>index.
     and_then (vec_get (heap_slots h) index) (\<lambda>slot.
       case slot_state slot of
         Live _ \<Rightarrow> Inr index
       | _ \<Rightarrow> Inl (Err (Invariant ''heap edge targeted a node outside Live state''))))"

definition live_node :: "heap \<Rightarrow> raw_id \<Rightarrow> heap_node heap_result" where
  "live_node h i =
     and_then (validate_slot_identity h i) (\<lambda>index.
     and_then (vec_get (heap_slots h) index) (\<lambda>slot.
       case slot_state slot of Live node \<Rightarrow> Inr node | _ \<Rightarrow> stale i))"

definition live_node_fast :: "heap \<Rightarrow> raw_id \<Rightarrow> heap_node heap_result" where
  "live_node_fast h i =
     and_then (vec_get (heap_slots h) (unat (raw_index i))) (\<lambda>slot.
       case slot_state slot of Live node \<Rightarrow> Inr node | _ \<Rightarrow> Inl Panic)"

definition is_live :: "heap \<Rightarrow> raw_id \<Rightarrow> bool" where
  "is_live h i =
     (if is_leaf i
      then (case validate_leaf_identity h i of
              Inl _ \<Rightarrow> False | Inr index \<Rightarrow> leaf_is_live (leaf_slots h ! index))
      else (case validate_slot_identity h i of
              Inl _ \<Rightarrow> False
            | Inr index \<Rightarrow> (case slot_state (heap_slots h ! index) of Live _ \<Rightarrow> True | _ \<Rightarrow> False)))"

definition heap_object :: "heap \<Rightarrow> node_id \<Rightarrow> object_data heap_result" where
  "heap_object h i =
     and_then (live_node h (RObject i)) (\<lambda>node.
       case node_payload node of
         ObjectData object \<Rightarrow> Inr object
       | _ \<Rightarrow> Inl (Err (Invariant ''typed object lookup reached another node payload'')))"

definition shared_strong_count :: "heap \<Rightarrow> raw_id \<Rightarrow> u32 heap_result" where
  "shared_strong_count h i =
     and_then (validate_slot_identity h i) (\<lambda>index.
     and_then (vec_get (heap_slots h) index) (\<lambda>slot.
       case state_strong (slot_state slot) of None \<Rightarrow> stale i | Some strong \<Rightarrow> Inr strong))"

section \<open>Reserving and publishing slots\<close>

definition vec_pop :: "'a list \<Rightarrow> ('a \<times> 'a list) option" where
  "vec_pop xs = (if xs = [] then None else Some (last xs, butlast xs))"

definition reserve_vacant :: "heap \<Rightarrow> ((u32 \<times> u32) \<times> heap) heap_result" where
  "reserve_vacant h =
     and_then
       (case vec_pop (heap_free h) of
          Some (index, rest) \<Rightarrow> Inr (index, h\<lparr>heap_free := rest\<rparr>)
        | None \<Rightarrow>
            if 2 ^ 32 \<le> length (heap_slots h) then Inl (Err (Overflow ''allocating an arena slot''))
            else Inr (of_nat (length (heap_slots h)),
                      h\<lparr>heap_slots := heap_slots h @
                          [\<lparr>slot_generation = 1, slot_state = Vacant, weak_prev = None, weak_next = None\<rparr>]\<rparr>))
       (\<lambda>(index, h).
         case vec_get_opt (heap_slots h) (unat index) of
           None \<Rightarrow> Inl (Err (Invariant ''free list referenced a missing slot''))
         | Some slot \<Rightarrow>
             if slot_state slot \<noteq> Vacant
             then Inl (Err (Invariant ''free list referenced an occupied slot''))
             else if weak_prev slot \<noteq> None \<or> weak_next slot \<noteq> None
             then Inl (Err (Invariant ''free list referenced a linked weak-collection slot''))
             else Inr ((index, slot_generation slot), h))"

definition reserve :: "heap \<Rightarrow> heap_node_kind \<Rightarrow> ((u32 \<times> u32) \<times> heap) heap_result" where
  "reserve h kind =
     and_then (reserve_vacant h) (\<lambda>((index, generation), h).
       Inr ((index, generation), set_state h (unat index) (Initializing kind 1)))"

definition leaf_reserve_vacant :: "heap \<Rightarrow> ((u32 \<times> u32) \<times> heap) heap_result" where
  "leaf_reserve_vacant h =
     and_then
       (case vec_pop (leaf_free h) of
          Some (index, rest) \<Rightarrow> Inr (index, h\<lparr>leaf_free := rest\<rparr>)
        | None \<Rightarrow>
            if 2 ^ 32 \<le> length (leaf_slots h) then Inl (Err (Overflow ''allocating a leaf arena slot''))
            else Inr (of_nat (length (leaf_slots h)),
                      h\<lparr>leaf_slots := leaf_slots h @
                          [\<lparr>leaf_generation = 1, leaf_strong = 0, leaf_value = LeafVacant\<rparr>]\<rparr>))
       (\<lambda>(index, h).
         case vec_get_opt (leaf_slots h) (unat index) of
           None \<Rightarrow> Inl (Err (Invariant ''leaf free list referenced a missing slot''))
         | Some slot \<Rightarrow>
             if leaf_value slot \<noteq> LeafVacant
             then Inl (Err (Invariant ''leaf free list referenced an occupied slot''))
             else Inr ((index, leaf_generation slot), h))"

definition allocate_string_leaf :: "heap \<Rightarrow> u16 list \<Rightarrow> (node_id \<times> heap) heap_result" where
  "allocate_string_leaf h value =
     and_then (leaf_reserve_vacant h) (\<lambda>((index, generation), h).
       Inr (\<lparr>node_index = index, node_generation = generation\<rparr>,
            set_leaf h (unat index) 1 (LeafString value)))"

definition allocate_bigint_leaf :: "heap \<Rightarrow> js_bigint \<Rightarrow> (node_id \<times> heap) heap_result" where
  "allocate_bigint_leaf h value =
     and_then (leaf_reserve_vacant h) (\<lambda>((index, generation), h).
       Inr (\<lparr>node_index = index, node_generation = generation\<rparr>,
            set_leaf h (unat index) 1 (LeafBigInt value)))"

definition abort_initializing :: "heap \<Rightarrow> u32 \<Rightarrow> heap heap_result" where
  "abort_initializing h index =
     (case vec_get_opt (heap_slots h) (unat index) of
        None \<Rightarrow> Inl (Err (Invariant ''initializing slot disappeared''))
      | Some slot \<Rightarrow>
          (case slot_state slot of
             Initializing _ _ \<Rightarrow> Inr ((set_state h (unat index) Vacant)\<lparr>heap_free := heap_free h @ [index]\<rparr>)
           | _ \<Rightarrow> Inl (Err (Invariant ''attempted to abort a published arena slot''))))"

definition publish :: "heap \<Rightarrow> u32 \<Rightarrow> node_data \<Rightarrow> heap heap_result" where
  "publish h index data =
     (case vec_get_opt (heap_slots h) (unat index) of
        None \<Rightarrow> Inl (Err (Invariant ''initializing slot disappeared''))
      | Some slot \<Rightarrow>
          (case slot_state slot of
             Initializing kind strong \<Rightarrow>
               if kind \<noteq> data_kind data \<or> strong \<noteq> 1
               then Inl (Err (Invariant ''initializing slot metadata did not match its payload''))
               else Inr (set_state h (unat index) (Live \<lparr>node_strong = strong, node_payload = data\<rparr>))
           | _ \<Rightarrow> Inl (Err (Invariant ''attempted to publish a non-initializing slot''))))"

end
