(* ===== verification/Heap_Ownership.thy ===== *)
theory Heap_Ownership
  imports Heap_Arena
begin

text \<open>
  Reference counting on the runtime heap (\<open>src/engine/heap/gc.rs\<close>): retaining and releasing
  references, the zero queue and its drain, the intrusive list of weak objects, reclaiming slots, and
  the allocation entry points (\<open>src/engine/heap/allocation.rs\<close>).

  Tracing under \<open>cfg(debug_assertions)\<close> is not modelled. \<open>HashMap\<close> iterates in an unspecified order; the
  order in which \<open>retain_edges_transactionally\<close> visits the distinct edges is a parameter.
\<close>

definition IMMORTAL_STRONG :: u32 where
  "IMMORTAL_STRONG = 0xffffffff"

definition checked_add_u32 :: "u32 \<Rightarrow> u32 \<Rightarrow> u32 option" where
  "checked_add_u32 a b = (if unat a + unat b < 2 ^ 32 then Some (a + b) else None)"

definition saturating_inc :: "nat \<Rightarrow> nat" where
  "saturating_inc n = min USIZE_MAX (n + 1)"

definition saturating_plus :: "nat \<Rightarrow> nat \<Rightarrow> nat" where
  "saturating_plus m n = min USIZE_MAX (m + n)"

section \<open>Cleanup\<close>

record heap_cleanup =
  finalized_objects :: nat
  finalized_shapes :: nat
  finalized_var_refs :: nat
  finalized_contexts :: nat
  finalized_function_bytecodes :: nat
  finalized_strings :: nat
  finalized_bigints :: nat
  finalized_shape_ids :: "node_id list"
  cleanup_atoms :: "u32 list"

definition default_cleanup :: heap_cleanup where
  "default_cleanup = \<lparr>finalized_objects = 0, finalized_shapes = 0, finalized_var_refs = 0,
     finalized_contexts = 0, finalized_function_bytecodes = 0, finalized_strings = 0,
     finalized_bigints = 0, finalized_shape_ids = [], cleanup_atoms = []\<rparr>"

definition merge_cleanup :: "heap_cleanup \<Rightarrow> heap_cleanup \<Rightarrow> heap_cleanup" where
  "merge_cleanup c d =
     \<lparr>finalized_objects = saturating_plus (finalized_objects c) (finalized_objects d),
      finalized_shapes = saturating_plus (finalized_shapes c) (finalized_shapes d),
      finalized_var_refs = saturating_plus (finalized_var_refs c) (finalized_var_refs d),
      finalized_contexts = saturating_plus (finalized_contexts c) (finalized_contexts d),
      finalized_function_bytecodes =
        saturating_plus (finalized_function_bytecodes c) (finalized_function_bytecodes d),
      finalized_strings = saturating_plus (finalized_strings c) (finalized_strings d),
      finalized_bigints = saturating_plus (finalized_bigints c) (finalized_bigints d),
      finalized_shape_ids = finalized_shape_ids c @ finalized_shape_ids d,
      cleanup_atoms = cleanup_atoms c @ cleanup_atoms d\<rparr>"

section \<open>Retaining\<close>

definition set_node_strong :: "heap \<Rightarrow> raw_id \<Rightarrow> heap_node \<Rightarrow> u32 \<Rightarrow> heap" where
  "set_node_strong h i node strong = set_state h (unat (raw_index i)) (Live (node\<lparr>node_strong := strong\<rparr>))"

definition set_leaf_strong :: "heap \<Rightarrow> raw_id \<Rightarrow> leaf_slot \<Rightarrow> u32 \<Rightarrow> heap" where
  "set_leaf_strong h i slot strong = set_leaf h (unat (raw_index i)) strong (leaf_value slot)"

definition preflight_leaf_edge_retain :: "heap \<Rightarrow> raw_id \<Rightarrow> u32 \<Rightarrow> unit heap_result" where
  "preflight_leaf_edge_retain h edge additional =
     and_then (live_leaf_slot h edge) (\<lambda>slot.
       case checked_add_u32 (leaf_strong slot) additional of
         None \<Rightarrow> Inl (Err (Overflow ''retaining outgoing heap edges'')) | Some _ \<Rightarrow> Inr ())"

definition preflight_edge_retain :: "heap \<Rightarrow> raw_id \<Rightarrow> u32 \<Rightarrow> unit heap_result" where
  "preflight_edge_retain h edge additional =
     (if is_leaf edge then preflight_leaf_edge_retain h edge additional
      else and_then (live_node h edge) (\<lambda>node.
        case checked_add_u32 (node_strong node) additional of
          None \<Rightarrow> Inl (Err (Overflow ''retaining outgoing heap edges'')) | Some _ \<Rightarrow> Inr ()))"

definition retain_leaf_raw :: "heap \<Rightarrow> raw_id \<Rightarrow> u32 \<Rightarrow> heap heap_result" where
  "retain_leaf_raw h i additional =
     and_then (live_leaf_slot h i) (\<lambda>slot.
       case checked_add_u32 (leaf_strong slot) additional of
         None \<Rightarrow> Inl (Err (Overflow ''retaining a heap reference''))
       | Some strong \<Rightarrow> Inr (set_leaf_strong h i slot strong))"

definition retain_raw :: "heap \<Rightarrow> raw_id \<Rightarrow> u32 \<Rightarrow> heap heap_result" where
  "retain_raw h i additional =
     (if is_leaf i then retain_leaf_raw h i additional
      else and_then (live_node h i) (\<lambda>node.
        case checked_add_u32 (node_strong node) additional of
          None \<Rightarrow> Inl (Err (Overflow ''retaining a heap reference''))
        | Some strong \<Rightarrow> Inr (set_node_strong h i node strong)))"

definition saturating_add_one :: "u32 \<Rightarrow> u32" where
  "saturating_add_one strong = (if strong = IMMORTAL_STRONG then strong else strong + 1)"

definition retain_leaf_fast :: "heap \<Rightarrow> raw_id \<Rightarrow> heap heap_result" where
  "retain_leaf_fast h i =
     and_then (live_leaf_fast h i) (\<lambda>slot.
       Inr (set_leaf_strong h i slot (saturating_add_one (leaf_strong slot))))"

definition retain_raw_fast :: "heap \<Rightarrow> raw_id \<Rightarrow> heap heap_result" where
  "retain_raw_fast h i =
     (if is_leaf i then retain_leaf_fast h i
      else and_then (live_node_fast h i) (\<lambda>node.
        Inr (set_node_strong h i node (saturating_add_one (node_strong node)))))"

definition retain_leaf_shared :: "heap \<Rightarrow> raw_id \<Rightarrow> heap heap_result" where
  "retain_leaf_shared h i =
     and_then (live_leaf_slot h i) (\<lambda>slot.
       case checked_add_u32 (leaf_strong slot) 1 of
         None \<Rightarrow> Inl (Err (Overflow ''retaining a heap reference''))
       | Some strong \<Rightarrow> Inr (set_leaf_strong h i slot strong))"

definition retain_raw_shared :: "heap \<Rightarrow> raw_id \<Rightarrow> heap heap_result" where
  "retain_raw_shared h i =
     (if is_leaf i then retain_leaf_shared h i
      else and_then (live_node h i) (\<lambda>node.
        case checked_add_u32 (node_strong node) 1 of
          None \<Rightarrow> Inl (Err (Overflow ''retaining a heap reference''))
        | Some strong \<Rightarrow> Inr (set_node_strong h i node strong)))"

text \<open>An \<open>expect\<close> on a result: an error panics.\<close>

definition expect :: "'a heap_result \<Rightarrow> 'a heap_result" where
  "expect r = (case r of Inl _ \<Rightarrow> Inl Panic | Inr x \<Rightarrow> Inr x)"

fun retain_each :: "heap \<Rightarrow> raw_id list \<Rightarrow> (raw_id \<Rightarrow> u32) \<Rightarrow> heap heap_result" where
  "retain_each h [] additional = Inr h"
| "retain_each h (edge # edges) additional =
     and_then (expect (retain_raw h edge (additional edge))) (\<lambda>h. retain_each h edges additional)"

fun preflight_each :: "heap \<Rightarrow> raw_id list \<Rightarrow> (raw_id \<Rightarrow> u32) \<Rightarrow> unit heap_result" where
  "preflight_each h [] additional = Inr ()"
| "preflight_each h (edge # edges) additional =
     and_then (preflight_edge_retain h edge (additional edge)) (\<lambda>_. preflight_each h edges additional)"

definition edge_count :: "raw_id list \<Rightarrow> raw_id \<Rightarrow> u32" where
  "edge_count edges edge = of_nat (count_list edges edge)"

definition retain_edges_transactionally ::
  "(raw_id list \<Rightarrow> raw_id list) \<Rightarrow> heap \<Rightarrow> raw_id list \<Rightarrow> heap heap_result" where
  "retain_edges_transactionally hash_order h edges =
     (if length edges \<le> 2
      then (case edges of
              [] \<Rightarrow> Inr h
            | first # rest \<Rightarrow>
                let duplicate = (rest = [first]) in
                and_then (preflight_edge_retain h first (if duplicate then 2 else 1)) (\<lambda>_.
                and_then (case rest of
                            [] \<Rightarrow> Inr ()
                          | second # _ \<Rightarrow> if duplicate then Inr () else preflight_edge_retain h second 1) (\<lambda>_.
                  retain_each h edges (\<lambda>_. 1))))
      else if \<exists>edge \<in> set edges. 2 ^ 32 \<le> count_list edges edge
      then Inl (Err (Overflow ''counting outgoing heap edges''))
      else and_then (preflight_each h (hash_order edges) (edge_count edges)) (\<lambda>_.
             retain_each h (hash_order edges) (edge_count edges)))"

section \<open>The list of weak objects\<close>

definition weak_registry_slot_index :: "heap \<Rightarrow> node_id \<Rightarrow> nat heap_result" where
  "weak_registry_slot_index h i =
     (let index = unat (node_index i) in
      case vec_get_opt (heap_slots h) index of
        None \<Rightarrow> Inl (Err (Invariant ''weak-collection registry referenced a missing slot''))
      | Some slot \<Rightarrow>
          if slot_generation slot \<noteq> node_generation i
          then Inl (Err (Invariant ''weak-collection registry referenced a stale generation''))
          else Inr index)"

definition set_weak_prev :: "heap \<Rightarrow> nat \<Rightarrow> node_id option \<Rightarrow> heap" where
  "set_weak_prev h i link = h\<lparr>heap_slots := (heap_slots h)[i := (heap_slots h ! i)\<lparr>weak_prev := link\<rparr>]\<rparr>"

definition set_weak_next :: "heap \<Rightarrow> nat \<Rightarrow> node_id option \<Rightarrow> heap" where
  "set_weak_next h i link = h\<lparr>heap_slots := (heap_slots h)[i := (heap_slots h ! i)\<lparr>weak_next := link\<rparr>]\<rparr>"

definition link_weak_object :: "heap \<Rightarrow> node_id \<Rightarrow> heap heap_result" where
  "link_weak_object h i =
     (if (weak_head h = None) \<noteq> (weak_tail h = None)
      then Inl (Err (Invariant ''weak-collection registry endpoints disagreed''))
      else
        and_then (weak_registry_slot_index h i) (\<lambda>index.
        let slot = heap_slots h ! index in
        if weak_prev slot \<noteq> None \<or> weak_next slot \<noteq> None
        then Inl (Err (Invariant ''weak collection was linked more than once''))
        else if \<not> (case slot_state slot of Live node \<Rightarrow> is_weak_object (node_payload node) | _ \<Rightarrow> False)
        then Inl (Err (Invariant ''weak registry received a non-weak object''))
        else
          and_then
            (case weak_tail h of
               Some previous \<Rightarrow>
                 if previous = i
                 then Inl (Err (Invariant ''weak-collection registry linked a node to itself''))
                 else
                   and_then (weak_registry_slot_index h previous) (\<lambda>previous_index.
                     if weak_next (heap_slots h ! previous_index) \<noteq> None
                     then Inl (Err (Invariant ''weak-collection registry tail had a successor''))
                     else Inr (set_weak_next h previous_index (Some i)))
             | None \<Rightarrow> Inr (h\<lparr>weak_head := Some i\<rparr>))
            (\<lambda>h'. Inr ((set_weak_prev h' index (weak_tail h))\<lparr>weak_tail := Some i\<rparr>))))"

text \<open>The consistency checks of \<open>unlink_weak_object\<close>, then its updates.\<close>

definition check_unlink :: "heap \<Rightarrow> node_id \<Rightarrow> node_id option \<Rightarrow> node_id option \<Rightarrow> unit heap_result" where
  "check_unlink h i previous successor =
     and_then
       (case previous of
          Some p \<Rightarrow>
            if weak_head h = Some i
            then Inl (Err (Invariant ''weak-collection registry head had a predecessor''))
            else and_then (weak_registry_slot_index h p) (\<lambda>previous_index.
              if weak_next (heap_slots h ! previous_index) \<noteq> Some i
              then Inl (Err (Invariant ''weak-collection registry predecessor was inconsistent''))
              else Inr ())
        | None \<Rightarrow>
            if weak_head h \<noteq> Some i
            then Inl (Err (Invariant ''unlinked weak collection was not the registry head'')) else Inr ())
       (\<lambda>_.
         case successor of
           Some n \<Rightarrow>
             if weak_tail h = Some i
             then Inl (Err (Invariant ''weak-collection registry tail had a successor''))
             else and_then (weak_registry_slot_index h n) (\<lambda>next_index.
               if weak_prev (heap_slots h ! next_index) \<noteq> Some i
               then Inl (Err (Invariant ''weak-collection registry successor was inconsistent''))
               else Inr ())
         | None \<Rightarrow>
             if weak_tail h \<noteq> Some i
             then Inl (Err (Invariant ''unlinked weak collection was not the registry tail'')) else Inr ())"

definition unlink_weak_object :: "heap \<Rightarrow> node_id \<Rightarrow> heap heap_result" where
  "unlink_weak_object h i =
     and_then (weak_registry_slot_index h i) (\<lambda>index.
     let previous = weak_prev (heap_slots h ! index); successor = weak_next (heap_slots h ! index) in
     and_then (check_unlink h i previous successor) (\<lambda>_.
     and_then
       (case previous of
          Some p \<Rightarrow> and_then (weak_registry_slot_index h p) (\<lambda>previous_index.
            Inr (set_weak_next h previous_index successor))
        | None \<Rightarrow> Inr (h\<lparr>weak_head := successor\<rparr>)) (\<lambda>h.
     and_then
       (case successor of
          Some n \<Rightarrow> and_then (weak_registry_slot_index h n) (\<lambda>next_index.
            Inr (set_weak_prev h next_index previous))
        | None \<Rightarrow> Inr (h\<lparr>weak_tail := previous\<rparr>)) (\<lambda>h.
       Inr (set_weak_next (set_weak_prev h index None) index None)))))"

section \<open>Reclaiming slots\<close>

definition reclaim_vacant_slot :: "heap \<Rightarrow> u32 \<Rightarrow> heap heap_result" where
  "reclaim_vacant_slot h index =
     (case vec_get_opt (heap_slots h) (unat index) of
        None \<Rightarrow> Inl (Err (Invariant ''reclaimed slot disappeared''))
      | Some slot \<Rightarrow>
          let weak_id = \<lparr>node_index = index, node_generation = slot_generation slot\<rparr> in
          if slot_state slot \<noteq> Vacant
          then Inl (Err (Invariant ''generation advanced before node payload was detached''))
          else if weak_prev slot \<noteq> None \<or> weak_next slot \<noteq> None
               \<or> weak_head h = Some weak_id \<or> weak_tail h = Some weak_id
          then Inl (Err (Invariant ''weak-collection slot was reclaimed while still linked''))
          else case checked_add_u32 (slot_generation slot) 1 of
                 Some generation \<Rightarrow>
                   Inr (h\<lparr>heap_slots := (heap_slots h)[unat index := slot\<lparr>slot_generation := generation\<rparr>],
                          heap_free := heap_free h @ [index]\<rparr>)
               | None \<Rightarrow> Inr (set_state h (unat index) Retired))"

definition reclaim_slot :: "heap \<Rightarrow> u32 \<Rightarrow> heap heap_result" where
  "reclaim_slot h index =
     (case vec_get_opt (heap_slots h) (unat index) of
        None \<Rightarrow> Inl (Err (Invariant ''reclaimed slot disappeared''))
      | Some slot \<Rightarrow>
          (case slot_state slot of
             Zombie _ strong \<Rightarrow>
               if strong = 0 then reclaim_vacant_slot (set_state h (unat index) Vacant) index
               else Inl (Err (Invariant ''attempted to reclaim a nonzero or non-zombie slot''))
           | _ \<Rightarrow> Inl (Err (Invariant ''attempted to reclaim a nonzero or non-zombie slot''))))"

definition bump_leaf :: "heap \<Rightarrow> u32 \<Rightarrow> leaf_slot \<Rightarrow> heap" where
  "bump_leaf h index slot =
     (case checked_add_u32 (leaf_generation slot) 1 of
        Some generation \<Rightarrow>
          h\<lparr>leaf_slots := (leaf_slots h)[unat index := slot\<lparr>leaf_generation := generation, leaf_value := LeafVacant\<rparr>],
            leaf_free := leaf_free h @ [index]\<rparr>
      | None \<Rightarrow> h\<lparr>leaf_slots := (leaf_slots h)[unat index := slot\<lparr>leaf_value := LeafRetired\<rparr>]\<rparr>)"

definition reclaim_leaf_vacant :: "heap \<Rightarrow> u32 \<Rightarrow> heap heap_result" where
  "reclaim_leaf_vacant h index =
     (case vec_get_opt (leaf_slots h) (unat index) of
        None \<Rightarrow> Inl (Err (Invariant ''reclaimed leaf slot disappeared''))
      | Some slot \<Rightarrow>
          if leaf_value slot \<noteq> LeafVacant
          then Inl (Err (Invariant ''leaf generation advanced before its payload was detached''))
          else Inr (bump_leaf h index slot))"

definition retire_validated_leaf :: "heap \<Rightarrow> u32 \<Rightarrow> heap heap_result" where
  "retire_validated_leaf h index =
     (case vec_get_opt (leaf_slots h) (unat index) of
        None \<Rightarrow> Inl (Err (Invariant ''reclaimed leaf slot disappeared''))
      | Some slot \<Rightarrow> Inr (bump_leaf h index slot))"


section \<open>Releasing\<close>

definition release_leaf_raw_no_drain :: "heap \<Rightarrow> raw_id \<Rightarrow> heap heap_result" where
  "release_leaf_raw_no_drain h i =
     and_then (validate_leaf_identity h i) (\<lambda>index.
     and_then (vec_get (leaf_slots h) index) (\<lambda>slot.
       if \<not> leaf_is_live slot
       then (if leaf_is_zero_queued slot then underflow i else stale i)
       else if leaf_strong slot = IMMORTAL_STRONG then Inr h
       else if leaf_strong slot = 0 then underflow i
       else let h' = set_leaf_strong h i slot (leaf_strong slot - 1)
            in Inr (if leaf_strong slot - 1 = 0 then h'\<lparr>zero_queue := zero_queue h' @ [i]\<rparr> else h')))"

definition release_raw_no_drain :: "heap \<Rightarrow> raw_id \<Rightarrow> heap heap_result" where
  "release_raw_no_drain h i =
     (if is_leaf i then release_leaf_raw_no_drain h i
      else
        and_then (validate_slot_identity h i) (\<lambda>index.
        and_then (vec_get (heap_slots h) index) (\<lambda>slot.
          case slot_state slot of
            Live node \<Rightarrow>
              if node_strong node = IMMORTAL_STRONG then Inr h
              else if node_strong node = 0 then underflow i
              else let node' = node\<lparr>node_strong := node_strong node - 1\<rparr>
                   in if node_strong node - 1 = 0
                      then Inr ((set_state h index (ZeroQueued node'))\<lparr>zero_queue := zero_queue h @ [i]\<rparr>)
                      else Inr (set_state h index (Live node'))
          | Zombie kind strong \<Rightarrow>
              if strong = IMMORTAL_STRONG then Inr h
              else if strong = 0 then underflow i
              else let h' = set_state h index (Zombie kind (strong - 1))
                   in if strong - 1 = 0 then reclaim_slot h' (raw_index i) else Inr h'
          | Initializing _ _ \<Rightarrow> underflow i
          | ZeroQueued _ \<Rightarrow> underflow i
          | Vacant \<Rightarrow> stale i
          | Retired \<Rightarrow> stale i)))"

fun release_each :: "heap \<Rightarrow> raw_id list \<Rightarrow> heap heap_result" where
  "release_each h [] = Inr h"
| "release_each h (edge # edges) = and_then (release_raw_no_drain h edge) (\<lambda>h. release_each h edges)"

definition finish_node ::
  "heap \<Rightarrow> raw_id \<Rightarrow> node_data \<Rightarrow> heap_cleanup \<Rightarrow> (heap \<times> heap_cleanup) heap_result" where
  "finish_node h i data cleanup =
     (case data of
        ObjectData object \<Rightarrow>
          and_then
            (if is_weak_object data
             then (case i of
                     RObject object_id \<Rightarrow> unlink_weak_object h object_id
                   | _ \<Rightarrow> Inl (Err (Invariant ''weak object finalized through a non-object handle'')))
             else Inr h) (\<lambda>h.
          let cleanup = cleanup\<lparr>finalized_objects := saturating_inc (finalized_objects cleanup),
                                cleanup_atoms := cleanup_atoms cleanup @ object_atoms object\<rparr>
          in and_then (release_each h (object_edges object)) (\<lambda>h. Inr (h, cleanup)))
      | ShapeData shape \<Rightarrow>
          (case i of
             RShape shape_id \<Rightarrow>
               let cleanup = cleanup\<lparr>finalized_shapes := saturating_inc (finalized_shapes cleanup),
                                     finalized_shape_ids := finalized_shape_ids cleanup @ [shape_id],
                                     cleanup_atoms := cleanup_atoms cleanup @ shape_atoms shape\<rparr>
               in and_then (release_each h (shape_edges shape)) (\<lambda>h. Inr (h, cleanup))
           | _ \<Rightarrow> Inl (Err (Invariant ''shape payload finalized through a non-shape handle'')))
      | VarRefData value \<Rightarrow>
          let cleanup = cleanup\<lparr>finalized_var_refs := saturating_inc (finalized_var_refs cleanup),
                                cleanup_atoms := cleanup_atoms cleanup @ option_list (raw_value_atom value)\<rparr>
          in and_then (release_each h (raw_value_edges value)) (\<lambda>h. Inr (h, cleanup))
      | ContextData context \<Rightarrow>
          let cleanup = cleanup\<lparr>finalized_contexts := saturating_inc (finalized_contexts cleanup),
                                cleanup_atoms := cleanup_atoms cleanup @ owner_atoms context\<rparr>
          in and_then (release_each h (owner_edges context)) (\<lambda>h. Inr (h, cleanup))
      | FunctionBytecodeData bytecode \<Rightarrow>
          let cleanup = cleanup\<lparr>finalized_function_bytecodes := saturating_inc (finalized_function_bytecodes cleanup),
                                cleanup_atoms := cleanup_atoms cleanup @ owner_atoms bytecode\<rparr>
          in and_then (release_each h (owner_edges bytecode)) (\<lambda>h. Inr (h, cleanup)))"

fun finish_leaf :: "raw_id \<Rightarrow> leaf_value \<Rightarrow> heap_cleanup \<Rightarrow> heap_cleanup heap_result" where
  "finish_leaf (RString _) (LeafString _) cleanup =
     Inr (cleanup\<lparr>finalized_strings := saturating_inc (finalized_strings cleanup)\<rparr>)"
| "finish_leaf (RBigInt _) (LeafBigInt _) cleanup =
     Inr (cleanup\<lparr>finalized_bigints := saturating_inc (finalized_bigints cleanup)\<rparr>)"
| "finish_leaf _ _ _ = Inl (Err (Invariant ''leaf payload finalized through another handle''))"

text \<open>One iteration of the drain loop, for the identity at the front of the queue.\<close>

definition drain_leaf :: "heap \<Rightarrow> raw_id \<Rightarrow> heap_cleanup \<Rightarrow> (heap \<times> heap_cleanup) heap_result" where
  "drain_leaf h i cleanup =
     and_then (validate_leaf_identity h i) (\<lambda>_.
     and_then (vec_get (leaf_slots h) (unat (raw_index i))) (\<lambda>slot.
       if leaf_strong slot \<noteq> 0
       then Inl (Err (Invariant ''zero queue contained a nonzero reference count''))
       else
         and_then (finish_leaf i (leaf_value slot) cleanup) (\<lambda>cleanup.
         and_then (reclaim_leaf_vacant (set_leaf h (unat (raw_index i)) (leaf_strong slot) LeafVacant) (raw_index i))
           (\<lambda>h. Inr (h, cleanup)))))"

definition drain_node :: "heap \<Rightarrow> raw_id \<Rightarrow> heap_cleanup \<Rightarrow> (heap \<times> heap_cleanup) heap_result" where
  "drain_node h i cleanup =
     and_then (validate_slot_identity h i) (\<lambda>index.
     and_then (vec_get (heap_slots h) index) (\<lambda>slot.
       case slot_state slot of
         ZeroQueued node \<Rightarrow>
           if node_strong node \<noteq> 0
           then Inl (Err (Invariant ''zero queue contained a nonzero reference count''))
           else
             and_then (finish_node (set_state h index Vacant) i (node_payload node) cleanup) (\<lambda>(h, cleanup).
             and_then (reclaim_vacant_slot h (raw_index i)) (\<lambda>h. Inr (h, cleanup)))
       | _ \<Rightarrow> Inl (Err (Invariant ''zero queue referenced a node not in ZeroQueued state''))))"

definition drain_step :: "heap \<Rightarrow> raw_id \<Rightarrow> heap_cleanup \<Rightarrow> (heap \<times> heap_cleanup) heap_result" where
  "drain_step h i cleanup = (if is_leaf i then drain_leaf h i cleanup else drain_node h i cleanup)"


text \<open>
  The drain loop ends: each queued identity is popped once, and an identity enters the queue only when
  a live node leaves its state.
\<close>

definition slot_weight :: "arena_slot \<Rightarrow> nat" where
  "slot_weight s = (case slot_state s of Live _ \<Rightarrow> 2 | _ \<Rightarrow> 0)"

definition leaf_weight :: "leaf_slot \<Rightarrow> nat" where
  "leaf_weight s = (if leaf_is_live s then 2 else 0)"

definition pending :: "heap \<Rightarrow> nat" where
  "pending h = sum_list (map slot_weight (heap_slots h)) + sum_list (map leaf_weight (leaf_slots h))
     + length (zero_queue h)"

lemma sum_list_update_le:
  fixes f :: "'a \<Rightarrow> nat"
  shows "i < length xs \<Longrightarrow> f x + d \<le> f (xs ! i) \<Longrightarrow> sum_list (map f (xs[i := x])) + d \<le> sum_list (map f xs)"
proof (induction xs arbitrary: i)
  case (Cons y ys)
  then show ?case by (cases i) (auto simp: add.assoc)
qed simp

lemma pending_set_state:
  assumes "i < length (heap_slots h)" "slot_weight ((heap_slots h ! i)\<lparr>slot_state := st\<rparr>) + d \<le> slot_weight (heap_slots h ! i)"
  shows "pending (set_state h i st) + d \<le> pending h"
  using sum_list_update_le [OF assms] by (simp add: pending_def set_state_def)

lemma map_update_same: "f y = f (xs ! i) \<Longrightarrow> map f (xs[i := y]) = map f xs"
  by (cases "i < length xs") (auto intro!: nth_equalityI simp: nth_list_update)

lemma slot_weight_links [simp]:
  "slot_weight (s\<lparr>weak_prev := link\<rparr>) = slot_weight s" "slot_weight (s\<lparr>weak_next := link\<rparr>) = slot_weight s"
  "slot_weight (s\<lparr>slot_generation := generation\<rparr>) = slot_weight s"
  by (simp_all add: slot_weight_def)

lemma pending_links [simp]:
  "pending (set_weak_prev h i link) = pending h" "pending (set_weak_next h i link) = pending h"
  "pending (h\<lparr>weak_head := w\<rparr>) = pending h" "pending (h\<lparr>weak_tail := w\<rparr>) = pending h"
  by (simp_all add: pending_def set_weak_prev_def set_weak_next_def map_update_same)

lemma pending_unlink: "unlink_weak_object h i = Inr h' \<Longrightarrow> pending h' = pending h"
  by (auto simp: unlink_weak_object_def and_then_eq_Inr Let_def split: option.splits)

lemma pending_reclaim_vacant: "reclaim_vacant_slot h index = Inr h' \<Longrightarrow> pending h' \<le> pending h"
  using pending_set_state [of "unat index" h Retired 0]
  by (auto simp: reclaim_vacant_slot_def Let_def vec_get_opt_eq_Some pending_def map_update_same slot_weight_def
      split: option.splits if_splits)

lemma validate_slot_identity_Inr:
  "validate_slot_identity h i = Inr index \<Longrightarrow>
     index = unat (raw_index i) \<and> index < length (heap_slots h)
     \<and> slot_generation (heap_slots h ! index) = raw_generation i
     \<and> state_kind (slot_state (heap_slots h ! index)) = Some (raw_kind i)"
  by (auto simp: validate_slot_identity_def stale_def Let_def vec_get_opt_eq_Some split: option.splits if_splits)

lemma validate_leaf_identity_Inr:
  "validate_leaf_identity h i = Inr index \<Longrightarrow>
     index = unat (raw_index i) \<and> index < length (leaf_slots h)
     \<and> leaf_generation (leaf_slots h ! index) = raw_generation i
     \<and> leaf_kind (leaf_value (leaf_slots h ! index)) = Some (raw_kind i)"
  by (auto simp: validate_leaf_identity_def stale_def Let_def vec_get_opt_eq_Some split: option.splits if_splits)

lemma pending_queue: "pending (h\<lparr>zero_queue := q\<rparr>) + length (zero_queue h) = pending h + length q"
  by (simp add: pending_def)

lemma pending_set_leaf:
  assumes "i < length (leaf_slots h)"
    "leaf_weight ((leaf_slots h ! i)\<lparr>leaf_strong := strong, leaf_value := value\<rparr>) + d \<le> leaf_weight (leaf_slots h ! i)"
  shows "pending (set_leaf h i strong value) + d \<le> pending h"
  using sum_list_update_le [OF assms] by (simp add: pending_def set_leaf_def)

lemma pending_release_leaf:
  assumes "release_leaf_raw_no_drain h i = Inr h'"
  shows "pending h' \<le> pending h"
proof -
  let ?index = "unat (raw_index i)"
  let ?slot = "leaf_slots h ! ?index"
  let ?h = "set_leaf_strong h i ?slot (leaf_strong ?slot - 1)"
  from assms have index: "?index < length (leaf_slots h)" and live: "leaf_is_live ?slot"
    and h': "h' = h \<or> h' = (if leaf_strong ?slot - 1 = 0 then ?h\<lparr>zero_queue := zero_queue ?h @ [i]\<rparr> else ?h)"
    by (auto simp: release_leaf_raw_no_drain_def and_then_eq_Inr vec_get_eq_Inr Let_def underflow_def stale_def
        dest!: validate_leaf_identity_Inr split: if_splits)
  have "pending ?h + (if leaf_strong ?slot - 1 = 0 then 1 else 0) \<le> pending h"
    unfolding set_leaf_strong_def using live
    by (intro pending_set_leaf [OF index]) (auto simp: leaf_weight_def leaf_is_live_def)
  then show ?thesis using h' pending_queue [of "zero_queue ?h @ [i]" ?h] by (auto split: if_splits)
qed

lemma pending_reclaim: "reclaim_slot h index = Inr h' \<Longrightarrow> pending h' \<le> pending h"
proof -
  assume reclaim: "reclaim_slot h index = Inr h'"
  then have "reclaim_vacant_slot (set_state h (unat index) Vacant) index = Inr h'"
    and index: "unat index < length (heap_slots h)"
    by (auto simp: reclaim_slot_def vec_get_opt_eq_Some split: option.splits slot_state.splits if_splits)
  from pending_reclaim_vacant [OF this(1)] pending_set_state [OF index, of Vacant 0] show ?thesis
    by (simp add: slot_weight_def)
qed

lemma pending_release:
  assumes "release_raw_no_drain h i = Inr h'"
  shows "pending h' \<le> pending h"
proof (cases "is_leaf i")
  case True
  with assms show ?thesis by (simp add: release_raw_no_drain_def pending_release_leaf)
next
  case False
  let ?index = "unat (raw_index i)"
  from assms False have index: "?index < length (heap_slots h)"
    by (auto simp: release_raw_no_drain_def and_then_eq_Inr dest!: validate_slot_identity_Inr)
  show ?thesis
  proof (cases "slot_state (heap_slots h ! ?index)")
    case (Live node)
    let ?node = "node\<lparr>node_strong := node_strong node - 1\<rparr>"
    have "pending (set_state h ?index (ZeroQueued ?node)) + 1 \<le> pending h"
      "pending (set_state h ?index (Live ?node)) + 0 \<le> pending h"
      by (intro pending_set_state [OF index]; use Live in \<open>simp add: slot_weight_def\<close>)+
    moreover have "h' = h \<or> h' = (set_state h ?index (ZeroQueued ?node))\<lparr>zero_queue := zero_queue h @ [i]\<rparr>
        \<or> h' = set_state h ?index (Live ?node)"
      using assms False Live
      by (auto simp: release_raw_no_drain_def and_then_eq_Inr vec_get_eq_Inr Let_def underflow_def
          dest!: validate_slot_identity_Inr split: if_splits)
    ultimately show ?thesis
      using pending_queue [of "zero_queue h @ [i]" "set_state h ?index (ZeroQueued ?node)"]
      by (auto simp: set_state_def)
  next
    case (Zombie kind strong)
    let ?h = "set_state h ?index (Zombie kind (strong - 1))"
    have "pending ?h + 0 \<le> pending h" using Zombie by (intro pending_set_state [OF index]) (simp add: slot_weight_def)
    moreover have "h' = h \<or> h' = ?h \<or> reclaim_slot ?h (raw_index i) = Inr h'"
      using assms False Zombie
      by (auto simp: release_raw_no_drain_def and_then_eq_Inr vec_get_eq_Inr Let_def underflow_def
          dest!: validate_slot_identity_Inr split: if_splits)
    ultimately show ?thesis using pending_reclaim by fastforce
  qed (use assms False in \<open>auto simp: release_raw_no_drain_def and_then_eq_Inr vec_get_eq_Inr underflow_def
        stale_def dest!: validate_slot_identity_Inr\<close>)
qed

lemma pending_release_each: "release_each h edges = Inr h' \<Longrightarrow> pending h' \<le> pending h"
  by (induction edges arbitrary: h) (auto simp: and_then_eq_Inr dest: pending_release order_trans)

lemma pending_finish_node: "finish_node h i data cleanup = Inr (h', cleanup') \<Longrightarrow> pending h' \<le> pending h"
  by (auto simp: finish_node_def and_then_eq_Inr Let_def pending_unlink dest!: pending_release_each
      split: node_data.splits if_splits raw_id.splits)


lemma pending_drain_step: "drain_step h i cleanup = Inr (h', cleanup') \<Longrightarrow> pending h' \<le> pending h"
proof (cases "is_leaf i")
  case True
  let ?index = "unat (raw_index i)"
  assume "drain_step h i cleanup = Inr (h', cleanup')"
  with True have index: "?index < length (leaf_slots h)" and zero: "leaf_strong (leaf_slots h ! ?index) = 0"
    and h': "reclaim_leaf_vacant (set_leaf h ?index 0 LeafVacant) (raw_index i) = Inr h'"
    by (auto simp: drain_step_def drain_leaf_def and_then_eq_Inr vec_get_eq_Inr dest!: validate_leaf_identity_Inr
        split: if_splits)
  have "pending h' \<le> pending (set_leaf h ?index 0 LeafVacant)"
    using h' index zero
    by (auto simp: reclaim_leaf_vacant_def vec_get_opt_eq_Some bump_leaf_def set_leaf_def pending_def leaf_weight_def
        leaf_is_live_def map_update_same split: option.splits if_splits)
  also have "\<dots> + 0 \<le> pending h" by (intro pending_set_leaf [OF index]) (simp add: leaf_weight_def leaf_is_live_def)
  finally show ?thesis by simp
next
  case False
  let ?index = "unat (raw_index i)"
  assume "drain_step h i cleanup = Inr (h', cleanup')"
  with False have node: "drain_node h i cleanup = Inr (h', cleanup')" by (simp add: drain_step_def)
  then have index: "?index < length (heap_slots h)"
    by (auto simp: drain_node_def and_then_eq_Inr dest!: validate_slot_identity_Inr)
  from node have "\<exists>data h1. finish_node (set_state h ?index Vacant) i data cleanup = Inr (h1, cleanup')
      \<and> reclaim_vacant_slot h1 (raw_index i) = Inr h'"
    by (cases "slot_state (heap_slots h ! ?index)")
      (auto simp: drain_node_def and_then_eq_Inr vec_get_eq_Inr dest!: validate_slot_identity_Inr split: if_splits)
  then obtain data h1 where "finish_node (set_state h ?index Vacant) i data cleanup = Inr (h1, cleanup')"
    "reclaim_vacant_slot h1 (raw_index i) = Inr h'" by blast
  with pending_finish_node pending_reclaim_vacant have "pending h' \<le> pending (set_state h ?index Vacant)"
    using order_trans by blast
  also have "\<dots> + 0 \<le> pending h" by (intro pending_set_state [OF index]) (simp add: slot_weight_def)
  finally show ?thesis by simp
qed

function drain_loop :: "heap \<Rightarrow> heap_cleanup \<Rightarrow> (heap \<times> heap_cleanup) heap_result" where
  "drain_loop h cleanup =
     (case zero_queue h of
        [] \<Rightarrow> Inr (h, cleanup)
      | i # rest \<Rightarrow>
          and_then (drain_step (h\<lparr>zero_queue := rest\<rparr>) i cleanup) (\<lambda>(h, cleanup). drain_loop h cleanup))"
  by pat_completeness auto
termination
proof (relation "measure (\<lambda>(h, cleanup). pending h)")
  fix h cleanup i rest step h' cleanup'
  assume queue: "zero_queue h = i # rest" and step: "drain_step (h\<lparr>zero_queue := rest\<rparr>) i cleanup = Inr step"
    and "(h', cleanup') = step"
  then have "pending h' \<le> pending (h\<lparr>zero_queue := rest\<rparr>)" using pending_drain_step by metis
  also have "\<dots> < pending h" using queue by (simp add: pending_def)
  finally show "((h', cleanup'), (h, cleanup)) \<in> measure (\<lambda>(h, cleanup). pending h)" by simp
qed simp

declare drain_loop.simps [simp del]

definition drain_zero_queue :: "heap \<Rightarrow> (heap \<times> heap_cleanup) heap_result" where
  "drain_zero_queue h =
     (if zero_queue h = [] then Inr (h, default_cleanup) else drain_loop h default_cleanup)"


section \<open>Release entry points\<close>

text \<open>\<open>Some True\<close>: the leaf was retired; \<open>Some False\<close>: the release is consumed; \<open>None\<close>: declined.\<close>

definition try_release_leaf_reference :: "heap \<Rightarrow> raw_id \<Rightarrow> (bool option \<times> heap) heap_result" where
  "try_release_leaf_reference h i =
     (if is_leaf i \<and> zero_queue h = []
      then (case vec_get_opt (leaf_slots h) (unat (raw_index i)) of
              None \<Rightarrow> stale i
            | Some slot \<Rightarrow>
                if leaf_generation slot \<noteq> raw_generation i then stale i
                else case leaf_kind (leaf_value slot) of
                       None \<Rightarrow> stale i
                     | Some actual \<Rightarrow>
                         if actual \<noteq> raw_kind i then Inl (Err (WrongKind (raw_kind i) actual))
                         else if leaf_strong slot = 0 then Inr (None, h)
                         else if leaf_strong slot = IMMORTAL_STRONG then Inr (Some False, h)
                         else if 1 < leaf_strong slot
                         then Inr (Some False, set_leaf_strong h i slot (leaf_strong slot - 1))
                         else if leaf_strong slot = 1
                         then and_then (retire_validated_leaf h (raw_index i)) (\<lambda>h. Inr (Some True, h))
                         else Inr (None, h))
      else Inr (None, h))"

definition try_release_leaf_nonfinal :: "heap \<Rightarrow> raw_id \<Rightarrow> bool \<times> heap" where
  "try_release_leaf_nonfinal h i =
     (case validate_leaf_identity h i of
        Inl _ \<Rightarrow> (False, h)
      | Inr index \<Rightarrow>
          let slot = leaf_slots h ! index in
          if leaf_is_live slot
          then if leaf_strong slot = IMMORTAL_STRONG then (True, h)
               else if 1 < leaf_strong slot then (True, set_leaf_strong h i slot (leaf_strong slot - 1))
               else (False, h)
          else (False, h))"

definition try_release_nonfinal :: "heap \<Rightarrow> raw_id \<Rightarrow> bool \<times> heap" where
  "try_release_nonfinal h i =
     (if zero_queue h \<noteq> [] then (False, h)
      else if is_leaf i then try_release_leaf_nonfinal h i
      else case validate_slot_identity h i of
             Inl _ \<Rightarrow> (False, h)
           | Inr index \<Rightarrow>
               (case slot_state (heap_slots h ! index) of
                  Live node \<Rightarrow>
                    if node_strong node = IMMORTAL_STRONG then (True, h)
                    else if 1 < node_strong node then (True, set_node_strong h i node (node_strong node - 1))
                    else (False, h)
                | _ \<Rightarrow> (False, h)))"

definition release_reference :: "heap \<Rightarrow> raw_id \<Rightarrow> (heap_cleanup option \<times> heap) heap_result" where
  "release_reference h i =
     and_then (try_release_leaf_reference h i) (\<lambda>(consumed, h).
       case consumed of
         Some finalized \<Rightarrow>
           if finalized
           then (case i of
                   RString _ \<Rightarrow> Inr (Some (default_cleanup\<lparr>finalized_strings := 1\<rparr>), h)
                 | RBigInt _ \<Rightarrow> Inr (Some (default_cleanup\<lparr>finalized_bigints := 1\<rparr>), h)
                 | _ \<Rightarrow> Inl Panic)
           else Inr (None, h)
       | None \<Rightarrow>
           and_then (release_raw_no_drain h i) (\<lambda>h.
             if zero_queue h = [] then Inr (None, h)
             else and_then (drain_zero_queue h) (\<lambda>(h, cleanup). Inr (Some cleanup, h))))"

definition release_and_drain :: "heap \<Rightarrow> raw_id \<Rightarrow> (heap_cleanup \<times> heap) heap_result" where
  "release_and_drain h i =
     and_then (release_reference h i) (\<lambda>(cleanup, h).
       Inr (case cleanup of None \<Rightarrow> default_cleanup | Some c \<Rightarrow> c, h))"

section \<open>Allocation\<close>

text \<open>
  Allocation returns the heap also when it fails. A failing \<open>reserve\<close> leaves the heap with at most the
  popped free-list entry gone; a failing retain puts the reserved slot back.
\<close>

definition after_failed_reserve :: "heap \<Rightarrow> heap" where
  "after_failed_reserve h = (case vec_pop (heap_free h) of None \<Rightarrow> h | Some (_, rest) \<Rightarrow> h\<lparr>heap_free := rest\<rparr>)"

definition reserve_and_retain ::
  "(raw_id list \<Rightarrow> raw_id list) \<Rightarrow> heap \<Rightarrow> heap_node_kind \<Rightarrow> raw_id list \<Rightarrow> (u32 \<times> u32) heap_result \<times> heap" where
  "reserve_and_retain hash_order h kind edges =
     (case reserve h kind of
        Inl e \<Rightarrow> (Inl e, after_failed_reserve h)
      | Inr ((index, generation), h) \<Rightarrow>
          (case retain_edges_transactionally hash_order h edges of
             Inl e \<Rightarrow> (case abort_initializing h index of Inl e' \<Rightarrow> (Inl e', h) | Inr h' \<Rightarrow> (Inl e, h'))
           | Inr h' \<Rightarrow> (Inr (index, generation), h')))"

definition publish_as ::
  "node_data \<Rightarrow> (u32 \<times> u32) heap_result \<times> heap \<Rightarrow> node_id heap_result \<times> heap" where
  "publish_as data reserved =
     (case reserved of
        (Inl e, h) \<Rightarrow> (Inl e, h)
      | (Inr (index, generation), h) \<Rightarrow>
          (case publish h index data of
             Inl e \<Rightarrow> (Inl e, h)
           | Inr h' \<Rightarrow> (Inr \<lparr>node_index = index, node_generation = generation\<rparr>, h')))"

definition mark_prototype :: "heap \<Rightarrow> node_id \<Rightarrow> heap heap_result" where
  "mark_prototype h i =
     and_then (heap_object h i) (\<lambda>object.
     and_then (live_node h (RObject i)) (\<lambda>node.
       Inr (set_state h (unat (node_index i))
              (Live (node\<lparr>node_payload := ObjectData (object\<lparr>used_as_prototype := True\<rparr>)\<rparr>)))))"

definition allocate_shape ::
  "(raw_id list \<Rightarrow> raw_id list) \<Rightarrow> heap \<Rightarrow> shape_data \<Rightarrow> node_id heap_result \<times> heap" where
  "allocate_shape hash_order h shape =
     (case reserve_and_retain hash_order h ShapeNode (shape_edges shape) of
        (Inl e, h) \<Rightarrow> (Inl e, h)
      | (Inr slot, h) \<Rightarrow>
          (case shape_prototype shape of
             None \<Rightarrow> publish_as (ShapeData shape) (Inr slot, h)
           | Some prototype \<Rightarrow>
               (case mark_prototype h prototype of
                  Inl e \<Rightarrow> (Inl e, h)
                | Inr h \<Rightarrow> publish_as (ShapeData shape) (Inr slot, h))))"

text \<open>\<open>allocate_object_inner\<close> after the layout check.\<close>

definition allocate_object_inner ::
  "(raw_id list \<Rightarrow> raw_id list) \<Rightarrow> heap \<Rightarrow> object_data \<Rightarrow> node_id heap_result \<times> heap" where
  "allocate_object_inner hash_order h object =
     (case publish_as (ObjectData object) (reserve_and_retain hash_order h ObjectNode (object_edges object)) of
        (Inl e, h) \<Rightarrow> (Inl e, h)
      | (Inr i, h) \<Rightarrow>
          if is_weak_object (ObjectData object)
          then (case link_weak_object h i of Inl e \<Rightarrow> (Inl e, h) | Inr h \<Rightarrow> (Inr i, h))
          else (Inr i, h))"

definition allocate_context ::
  "(raw_id list \<Rightarrow> raw_id list) \<Rightarrow> heap \<Rightarrow> owner_data \<Rightarrow> node_id heap_result \<times> heap" where
  "allocate_context hash_order h context =
     publish_as (ContextData context) (reserve_and_retain hash_order h ContextNode (owner_edges context))"

definition allocate_var_ref ::
  "(raw_id list \<Rightarrow> raw_id list) \<Rightarrow> heap \<Rightarrow> raw_value \<Rightarrow> node_id heap_result \<times> heap" where
  "allocate_var_ref hash_order h value =
     publish_as (VarRefData value) (reserve_and_retain hash_order h VarRefNode (raw_value_edges value))"

end
