(* ===== verification/Heap_Collector.thy ===== *)
theory Heap_Collector
  imports Heap_Ownership
begin

text \<open>
  The cycle collector (\<open>run_gc_with_weak_symbol_hooks_in_mode\<close> of \<open>src/engine/heap/gc.rs\<close>) in the mode of
  \<open>run_gc_for_runtime_teardown\<close>, which leaves weak targets alone: trial deletion of internal
  references, marking from the externally referenced nodes, and finalization of unreachable anchors.
\<close>

section \<open>Trial deletion\<close>

definition initial_trial :: "heap \<Rightarrow> u32 option list" where
  "initial_trial h =
     map (\<lambda>slot. case slot_state slot of Live node \<Rightarrow> Some (node_strong node) | _ \<Rightarrow> None) (heap_slots h)"

fun trial_edges :: "heap \<Rightarrow> u32 option list \<Rightarrow> raw_id list \<Rightarrow> u32 option list heap_result" where
  "trial_edges h trial [] = Inr trial"
| "trial_edges h trial (edge # edges) =
     (if is_leaf edge then trial_edges h trial edges
      else
        and_then (live_index h edge) (\<lambda>target.
        and_then (vec_get trial target) (\<lambda>entry.
          case entry of
            None \<Rightarrow> Inl (Err (Invariant ''live edge targeted a node outside the trial set''))
          | Some count \<Rightarrow>
              if count = 0 then Inl (Err (Invariant ''internal incoming references exceeded strong count''))
              else trial_edges h (trial[target := Some (count - 1)]) edges)))"

fun trial_slots :: "heap \<Rightarrow> u32 option list \<Rightarrow> arena_slot list \<Rightarrow> u32 option list heap_result" where
  "trial_slots h trial [] = Inr trial"
| "trial_slots h trial (slot # rest) =
     (case slot_state slot of
        Live node \<Rightarrow>
          and_then (trial_edges h trial (data_edges (node_payload node))) (\<lambda>trial. trial_slots h trial rest)
      | _ \<Rightarrow> trial_slots h trial rest)"

section \<open>Marking\<close>

definition is_external_root :: "u32 option \<Rightarrow> bool" where
  "is_external_root entry \<longleftrightarrow> (case entry of None \<Rightarrow> False | Some count \<Rightarrow> count \<noteq> 0)"

definition root_indices :: "u32 option list \<Rightarrow> nat list" where
  "root_indices trial = filter (\<lambda>index. is_external_root (trial ! index)) [0..<length trial]"

fun mark_edges :: "heap \<Rightarrow> raw_id list \<Rightarrow> bool list \<Rightarrow> nat list \<Rightarrow> (bool list \<times> nat list) heap_result" where
  "mark_edges h [] reachable work = Inr (reachable, work)"
| "mark_edges h (edge # edges) reachable work =
     (if is_leaf edge then mark_edges h edges reachable work
      else
        and_then (live_index h edge) (\<lambda>target.
        and_then (vec_get reachable target) (\<lambda>marked.
          if marked then mark_edges h edges reachable work
          else mark_edges h edges (reachable[target := True]) (work @ [target]))))"

definition unmarked :: "bool list \<Rightarrow> nat" where
  "unmarked reachable = length (filter Not reachable)"

lemma unmarked_update: "i < length r \<Longrightarrow> \<not> r ! i \<Longrightarrow> Suc (unmarked (r[i := True])) = unmarked r"
proof (induction r arbitrary: i)
  case (Cons b r)
  then show ?case by (cases i) (auto simp: unmarked_def)
qed simp

lemma mark_edges_measure:
  "mark_edges h edges reachable work = Inr (reachable', work') \<Longrightarrow>
   2 * unmarked reachable' + length work' \<le> 2 * unmarked reachable + length work"
proof (induction edges arbitrary: reachable work)
  case (Cons edge edges)
  show ?case
  proof (cases "is_leaf edge")
    case True
    with Cons show ?thesis by simp
  next
    case False
    with Cons.prems obtain target where t: "target < length reachable"
      and step: "(if reachable ! target then mark_edges h edges reachable work
        else mark_edges h edges (reachable[target := True]) (work @ [target])) = Inr (reachable', work')"
      by (auto simp: and_then_eq_Inr vec_get_eq_Inr)
    show ?thesis
    proof (cases "reachable ! target")
      case True
      with step Cons.IH show ?thesis by simp
    next
      case False
      from step False Cons.IH [of "reachable[target := True]" "work @ [target]"]
      show ?thesis using unmarked_update [OF t False] by simp
    qed
  qed
qed simp

function mark_loop :: "heap \<Rightarrow> bool list \<Rightarrow> nat list \<Rightarrow> bool list heap_result" where
  "mark_loop h reachable work =
     (case work of
        [] \<Rightarrow> Inr reachable
      | index # rest \<Rightarrow>
          and_then (vec_get (heap_slots h) index) (\<lambda>slot.
            case slot_state slot of
              Live node \<Rightarrow>
                and_then (mark_edges h (data_edges (node_payload node)) reachable rest) (\<lambda>(reachable, work).
                  mark_loop h reachable work)
            | _ \<Rightarrow> Inl (Err (Invariant ''mark worklist contained a non-live node''))))"
  by pat_completeness auto
termination
proof (relation "measure (\<lambda>(h, reachable, work). 2 * unmarked reachable + length work)")
  fix h reachable work index rest slot node step reachable' work'
  assume "work = index # rest" "mark_edges h (data_edges (node_payload node)) reachable rest = Inr step"
    "(reachable', work') = step"
  with mark_edges_measure [of h _ reachable rest reachable' work']
  show "((h, reachable', work'), h, reachable, work) \<in> measure (\<lambda>(h, reachable, work). 2 * unmarked reachable + length work)"
    by fastforce
qed simp

declare mark_loop.simps [simp del]

section \<open>Finalization of unreachable anchors\<close>

definition anchor_of :: "nat \<Rightarrow> arena_slot \<Rightarrow> node_data \<Rightarrow> raw_id list" where
  "anchor_of index slot data =
     (let i = \<lparr>node_index = of_nat index, node_generation = slot_generation slot\<rparr> in
      case data of
        ObjectData _ \<Rightarrow> [RObject i]
      | FunctionBytecodeData _ \<Rightarrow> [RFunctionBytecode i]
      | ContextData _ \<Rightarrow> [RContext i]
      | ShapeData _ \<Rightarrow> []
      | VarRefData _ \<Rightarrow> [])"

fun collect_anchors ::
  "bool list \<Rightarrow> nat \<Rightarrow> arena_slot list \<Rightarrow> nat \<Rightarrow> raw_id list \<Rightarrow> (nat \<times> raw_id list) heap_result" where
  "collect_anchors reachable index [] candidates anchors = Inr (candidates, anchors)"
| "collect_anchors reachable index (slot # rest) candidates anchors =
     (case slot_state slot of
        Live node \<Rightarrow>
          and_then (vec_get reachable index) (\<lambda>marked.
            if marked then collect_anchors reachable (index + 1) rest candidates anchors
            else if 2 ^ 32 \<le> index then Inl (Err (Overflow ''constructing a collection worklist''))
            else collect_anchors reachable (index + 1) rest (saturating_inc candidates)
                   (anchors @ anchor_of index slot (node_payload node)))
      | _ \<Rightarrow> collect_anchors reachable (index + 1) rest candidates anchors)"

definition finalize_cycle_anchor ::
  "heap \<Rightarrow> raw_id \<Rightarrow> heap_cleanup \<Rightarrow> (heap \<times> heap_cleanup) heap_result" where
  "finalize_cycle_anchor h i cleanup =
     (case i of
        RShape _ \<Rightarrow> Inl (Err (Invariant ''non-anchor node entered active cycle finalization''))
      | RVarRef _ \<Rightarrow> Inl (Err (Invariant ''non-anchor node entered active cycle finalization''))
      | RString _ \<Rightarrow> Inl (Err (Invariant ''non-anchor node entered active cycle finalization''))
      | RBigInt _ \<Rightarrow> Inl (Err (Invariant ''non-anchor node entered active cycle finalization''))
      | _ \<Rightarrow>
          and_then (validate_slot_identity h i) (\<lambda>index.
          and_then (vec_get (heap_slots h) index) (\<lambda>slot.
            case slot_state slot of
              Live node \<Rightarrow>
                if data_kind (node_payload node) \<noteq> raw_kind i
                then Inl (Err (WrongKind (raw_kind i) (data_kind (node_payload node))))
                else finish_node (set_state h index (Zombie (raw_kind i) (node_strong node))) i
                       (node_payload node) cleanup
            | _ \<Rightarrow> Inl (Err (Invariant ''cycle anchor was not live when finalization began'')))))"

fun finalize_anchors :: "heap \<Rightarrow> raw_id list \<Rightarrow> heap_cleanup \<Rightarrow> (heap \<times> heap_cleanup) heap_result" where
  "finalize_anchors h [] cleanup = Inr (h, cleanup)"
| "finalize_anchors h (i # anchors) cleanup =
     (if is_live h i
      then
        and_then (finalize_cycle_anchor h i cleanup) (\<lambda>(h, cleanup).
        and_then (drain_zero_queue h) (\<lambda>(h, drained).
          finalize_anchors h anchors (merge_cleanup cleanup drained)))
      else finalize_anchors h anchors cleanup)"

definition has_zombie :: "heap \<Rightarrow> bool" where
  "has_zombie h \<longleftrightarrow> (\<exists>slot \<in> set (heap_slots h). case slot_state slot of Zombie _ _ \<Rightarrow> True | _ \<Rightarrow> False)"

record gc_stats =
  examined_nodes :: nat
  external_root_nodes :: nat
  candidate_nodes :: nat
  gc_cleanup :: heap_cleanup

definition run_gc_for_runtime_teardown :: "heap \<Rightarrow> (heap \<times> gc_stats) heap_result" where
  "run_gc_for_runtime_teardown h =
     and_then (drain_zero_queue h) (\<lambda>(h, cleanup).
     if has_zombie h
     then Inl (Err (Invariant ''zombie survived past the preceding collection boundary''))
     else
       let trial = initial_trial h in
       and_then (trial_slots h trial (heap_slots h)) (\<lambda>trial'.
       let roots = root_indices trial' in
       and_then (mark_loop h (map is_external_root trial') roots) (\<lambda>reachable.
       and_then (collect_anchors reachable 0 (heap_slots h) 0 []) (\<lambda>(candidates, anchors).
       and_then (finalize_anchors h anchors cleanup) (\<lambda>(h, cleanup).
       and_then (drain_zero_queue h) (\<lambda>(h, drained).
         if has_zombie h
         then Inl (Err (Invariant ''cycle collection left an anchor zombie with incoming references''))
         else Inr (h, \<lparr>examined_nodes = min USIZE_MAX (length (filter (\<lambda>entry. entry \<noteq> None) trial)),
                       external_root_nodes = min USIZE_MAX (length roots),
                       candidate_nodes = candidates,
                       gc_cleanup = merge_cleanup cleanup drained\<rparr>)))))))"
end
