(* ===== verification/Heap_Status.thy ===== *)
theory Heap_Status
  imports Heap_Collector "HOL-Library.Multiset"
begin

text \<open>
  The abstract heap: a status for every handle, and the multiset of references. A handle is absent, or it
  is reserved by an allocation, alive with a reference count and a payload, queued for finalization, or
  undead (its payload is gone but references to it remain). \<open>counted\<close> is the invariant of reference
  counting on this level; the lemmas about it are the rules of the game that the arenas implement.
\<close>

section \<open>Status of handles\<close>

datatype payload = LeafPayload leaf_value | NodePayload node_data

fun payload_refs :: "payload \<Rightarrow> raw_id list" where
  "payload_refs (LeafPayload _) = []"
| "payload_refs (NodePayload data) = data_edges data"

datatype node_status = Absent | Reserved | Alive nat payload | Queued payload | Undead nat

fun status_refs :: "node_status \<Rightarrow> raw_id list" where
  "status_refs (Alive _ p) = payload_refs p"
| "status_refs (Queued p) = payload_refs p"
| "status_refs _ = []"

fun state_status :: "slot_state \<Rightarrow> node_status" where
  "state_status (Initializing _ _) = Reserved"
| "state_status (Live node) = Alive (unat (node_strong node)) (NodePayload (node_payload node))"
| "state_status (ZeroQueued node) = Queued (NodePayload (node_payload node))"
| "state_status (Zombie _ strong) = Undead (unat strong)"
| "state_status Vacant = Absent"
| "state_status Retired = Absent"

definition leaf_status :: "leaf_slot \<Rightarrow> node_status" where
  "leaf_status s =
     (if leaf_kind (leaf_value s) = None then Absent
      else if leaf_strong s = 0 then Queued (LeafPayload (leaf_value s))
      else Alive (unat (leaf_strong s)) (LeafPayload (leaf_value s)))"

definition names_slot :: "raw_id \<Rightarrow> arena_slot \<Rightarrow> bool" where
  "names_slot i s \<longleftrightarrow> slot_generation s = raw_generation i \<and> state_kind (slot_state s) = Some (raw_kind i)"

definition names_leaf :: "raw_id \<Rightarrow> leaf_slot \<Rightarrow> bool" where
  "names_leaf i s \<longleftrightarrow> leaf_generation s = raw_generation i \<and> leaf_kind (leaf_value s) = Some (raw_kind i)"

definition status :: "heap \<Rightarrow> raw_id \<Rightarrow> node_status" where
  "status h i =
     (let k = unat (raw_index i) in
      if is_leaf i
      then if k < length (leaf_slots h) \<and> names_leaf i (leaf_slots h ! k)
           then leaf_status (leaf_slots h ! k) else Absent
      else if k < length (heap_slots h) \<and> names_slot i (heap_slots h ! k)
           then state_status (slot_state (heap_slots h ! k)) else Absent)"

lemma raw_id_eqI:
  "raw_kind i = raw_kind j \<Longrightarrow> raw_index i = raw_index j \<Longrightarrow> raw_generation i = raw_generation j \<Longrightarrow> i = j"
  by (cases i; cases j) auto

lemma state_status_Absent: "state_status st = Absent \<longleftrightarrow> state_kind st = None"
  by (cases st) auto

lemma state_status_None [simp]: "state_kind st = None \<Longrightarrow> state_status st = Absent"
  by (simp add: state_status_Absent)

lemma validate_slot_identity_eq:
  "unat (raw_index i) < length (heap_slots h) \<Longrightarrow> names_slot i (heap_slots h ! unat (raw_index i)) \<Longrightarrow>
   validate_slot_identity h i = Inr (unat (raw_index i))"
  by (simp add: validate_slot_identity_def names_slot_def vec_get_opt_def)

lemma validate_leaf_identity_eq:
  "unat (raw_index i) < length (leaf_slots h) \<Longrightarrow> names_leaf i (leaf_slots h ! unat (raw_index i)) \<Longrightarrow>
   validate_leaf_identity h i = Inr (unat (raw_index i))"
  by (simp add: validate_leaf_identity_def names_leaf_def vec_get_opt_def)

lemma statusE:
  assumes "status h i \<noteq> Absent" "\<not> is_leaf i"
  obtains "unat (raw_index i) < length (heap_slots h)" "names_slot i (heap_slots h ! unat (raw_index i))"
    "status h i = state_status (slot_state (heap_slots h ! unat (raw_index i)))"
    "validate_slot_identity h i = Inr (unat (raw_index i))"
proof -
  from assms have "unat (raw_index i) < length (heap_slots h)" "names_slot i (heap_slots h ! unat (raw_index i))"
    "status h i = state_status (slot_state (heap_slots h ! unat (raw_index i)))"
    by (auto simp: status_def Let_def split: if_splits)
  then show ?thesis using that validate_slot_identity_eq by blast
qed

lemma status_leafE:
  assumes "status h i \<noteq> Absent" "is_leaf i"
  obtains "unat (raw_index i) < length (leaf_slots h)" "names_leaf i (leaf_slots h ! unat (raw_index i))"
    "status h i = leaf_status (leaf_slots h ! unat (raw_index i))"
    "validate_leaf_identity h i = Inr (unat (raw_index i))"
proof -
  from assms have "unat (raw_index i) < length (leaf_slots h)" "names_leaf i (leaf_slots h ! unat (raw_index i))"
    "status h i = leaf_status (leaf_slots h ! unat (raw_index i))"
    by (auto simp: status_def Let_def split: if_splits)
  then show ?thesis using that validate_leaf_identity_eq by blast
qed

text \<open>Writing a slot changes the status of the handle that names it, and of no other.\<close>

lemma status_write_slot:
  assumes k: "unat (raw_index i) < length (heap_slots h)" and i: "\<not> is_leaf i"
    and old: "names_slot i (heap_slots h ! unat (raw_index i)) \<or> state_kind (slot_state (heap_slots h ! unat (raw_index i))) = None"
    and generation: "slot_generation s = raw_generation i"
      "slot_generation (heap_slots h ! unat (raw_index i)) = raw_generation i"
    and kind: "state_kind (slot_state s) = Some (raw_kind i) \<or> state_kind (slot_state s) = None"
    and h': "heap_slots h' = (heap_slots h)[unat (raw_index i) := s]" "leaf_slots h' = leaf_slots h"
  shows "status h' = (status h)(i := state_status (slot_state s))"
proof
  fix j
  consider "is_leaf j" | "\<not> is_leaf j" "raw_index j \<noteq> raw_index i" | "\<not> is_leaf j" "raw_index j = raw_index i"
    by blast
  then show "status h' j = ((status h)(i := state_status (slot_state s))) j"
  proof cases
    case 1
    with i have "j \<noteq> i" by blast
    with 1 h' show ?thesis by (simp add: status_def Let_def)
  next
    case 2
    then have "unat (raw_index j) \<noteq> unat (raw_index i)" "j \<noteq> i" by (auto simp: word_unat_eq_iff)
    with 2 h' show ?thesis by (simp add: status_def Let_def)
  next
    case 3
    show ?thesis
    proof (cases "j = i")
      case True
      with 3 h' k kind generation show ?thesis by (auto simp: status_def names_slot_def state_status_Absent)
    next
      case False
      have differ: "raw_kind j \<noteq> raw_kind i \<or> raw_generation j \<noteq> raw_generation i" using False 3 raw_id_eqI by blast
      have "status h j = Absent" "status h' j = Absent"
        using 3 h' k kind generation old differ by (auto simp: status_def names_slot_def)
      with False show ?thesis by simp
    qed
  qed
qed

lemma status_write_vacant:
  assumes "state_kind (slot_state (heap_slots h ! k)) = None" "state_kind (slot_state s) = None"
    and "heap_slots h' = (heap_slots h)[k := s]" "leaf_slots h' = leaf_slots h"
  shows "status h' = status h"
proof
  fix j
  have "names_slot j (heap_slots h' ! k) = names_slot j (heap_slots h ! k)" if "k < length (heap_slots h)"
    using assms that by (simp add: names_slot_def)
  then show "status h' j = status h j"
    using assms by (cases "unat (raw_index j) = k") (auto simp: status_def Let_def names_slot_def)
qed

lemma status_write_leaf:
  assumes k: "unat (raw_index i) < length (leaf_slots h)" and i: "is_leaf i"
    and old: "names_leaf i (leaf_slots h ! unat (raw_index i)) \<or> leaf_kind (leaf_value (leaf_slots h ! unat (raw_index i))) = None"
    and generation: "leaf_generation s = raw_generation i"
      "leaf_generation (leaf_slots h ! unat (raw_index i)) = raw_generation i"
    and kind: "leaf_kind (leaf_value s) = Some (raw_kind i) \<or> leaf_kind (leaf_value s) = None"
    and h': "leaf_slots h' = (leaf_slots h)[unat (raw_index i) := s]" "heap_slots h' = heap_slots h"
  shows "status h' = (status h)(i := leaf_status s)"
proof
  fix j
  consider "\<not> is_leaf j" | "is_leaf j" "raw_index j \<noteq> raw_index i" | "is_leaf j" "raw_index j = raw_index i"
    by blast
  then show "status h' j = ((status h)(i := leaf_status s)) j"
  proof cases
    case 1
    with i have "j \<noteq> i" by blast
    with 1 h' show ?thesis by (simp add: status_def Let_def)
  next
    case 2
    then have "unat (raw_index j) \<noteq> unat (raw_index i)" "j \<noteq> i" by (auto simp: word_unat_eq_iff)
    with 2 h' show ?thesis by (simp add: status_def Let_def)
  next
    case 3
    show ?thesis
    proof (cases "j = i")
      case True
      with 3 h' k kind generation show ?thesis by (auto simp: status_def names_leaf_def leaf_status_def)
    next
      case False
      have differ: "raw_kind j \<noteq> raw_kind i \<or> raw_generation j \<noteq> raw_generation i" using False 3 raw_id_eqI by blast
      have "status h j = Absent" "status h' j = Absent"
        using 3 h' k kind generation old differ by (auto simp: status_def names_leaf_def)
      with False show ?thesis by simp
    qed
  qed
qed

lemma status_write_vacant_leaf:
  assumes "leaf_kind (leaf_value (leaf_slots h ! k)) = None" "leaf_kind (leaf_value s) = None"
    and "leaf_slots h' = (leaf_slots h)[k := s]" "heap_slots h' = heap_slots h"
  shows "status h' = status h"
proof
  fix j
  show "status h' j = status h j"
    using assms by (cases "unat (raw_index j) = k") (auto simp: status_def Let_def names_leaf_def nth_list_update)
qed

lemma status_same_slots:
  "heap_slots h' = heap_slots h \<Longrightarrow> leaf_slots h' = leaf_slots h \<Longrightarrow> status h' = status h"
  by (rule ext) (simp add: status_def Let_def)

lemma status_links [simp]:
  "status (set_weak_prev h k link) = status h" "status (set_weak_next h k link) = status h"
  by (rule ext, cases "k < length (heap_slots h)",
      auto simp: status_def set_weak_prev_def set_weak_next_def names_slot_def nth_list_update Let_def)+

section \<open>References and counts\<close>

lemma finite_node_id: "finite (UNIV :: node_id set)"
proof (rule finite_imageD)
  show "finite (range (\<lambda>i :: node_id. (node_index i, node_generation i)))" by (rule finite)
  show "inj (\<lambda>i :: node_id. (node_index i, node_generation i))" by (rule injI) (simp add: node_id.equality)
qed

instance raw_id :: finite
proof
  let ?S = "range RObject \<union> range RShape \<union> range RVarRef \<union> range RContext
      \<union> range RFunctionBytecode \<union> range RString \<union> range RBigInt"
  have "i \<in> ?S" for i by (cases i) auto
  then have "UNIV \<subseteq> ?S" by blast
  moreover have "finite ?S" by (intro finite_UnI finite_imageI finite_node_id)
  ultimately show "finite (UNIV :: raw_id set)" by (rule finite_subset)
qed

type_synonym heap_view = "raw_id \<Rightarrow> node_status"

definition held :: "heap_view \<Rightarrow> raw_id multiset" where
  "held v = (\<Sum>i \<in> UNIV. mset (status_refs (v i)))"

lemma held_update: "held (v(i := s)) + mset (status_refs (v i)) = held v + mset (status_refs s)"
proof -
  have "held (v(i := s)) = mset (status_refs s) + (\<Sum>j \<in> UNIV - {i}. mset (status_refs (v j)))"
    by (simp add: held_def sum.remove [of UNIV i])
  moreover have "held v = mset (status_refs (v i)) + (\<Sum>j \<in> UNIV - {i}. mset (status_refs (v j)))"
    by (simp add: held_def sum.remove [of UNIV i])
  ultimately show ?thesis by simp
qed

lemma held_update_same: "status_refs s = status_refs (v i) \<Longrightarrow> held (v(i := s)) = held v"
  using held_update [of v i s] by simp

lemma held_member: "j \<in># held v \<longleftrightarrow> (\<exists>i. j \<in> set (status_refs (v i)))"
  by (auto simp: held_def set_mset_sum)

abbreviation immortal :: nat where
  "immortal \<equiv> 2 ^ 32 - 1"

text \<open>\<open>R\<close> is the multiset of references held outside the heap: roots, and edges of payloads in transit.\<close>

definition refs :: "heap_view \<Rightarrow> raw_id multiset \<Rightarrow> raw_id multiset" where
  "refs v R = held v + R"

fun count_ok :: "node_status \<Rightarrow> nat \<Rightarrow> bool \<Rightarrow> bool" where
  "count_ok (Alive n _) references queued \<longleftrightarrow> 0 < n \<and> (n < immortal \<longrightarrow> references = n) \<and> \<not> queued"
| "count_ok (Undead n) references queued \<longleftrightarrow> 0 < n \<and> (n < immortal \<longrightarrow> references = n) \<and> \<not> queued"
| "count_ok (Queued _) references queued \<longleftrightarrow> references = 0 \<and> queued"
| "count_ok Absent references queued \<longleftrightarrow> references = 0 \<and> \<not> queued"
| "count_ok Reserved references queued \<longleftrightarrow> references = 0 \<and> \<not> queued"

definition counted :: "heap_view \<Rightarrow> raw_id list \<Rightarrow> raw_id multiset \<Rightarrow> bool" where
  "counted v q R \<longleftrightarrow> distinct q \<and> (\<forall>i. count_ok (v i) (count (refs v R) i) (i \<in> set q))"

lemma countedD: "counted v q R \<Longrightarrow> count_ok (v i) (count (refs v R) i) (i \<in> set q)"
  by (simp add: counted_def)

lemma counted_distinct: "counted v q R \<Longrightarrow> distinct q"
  by (simp add: counted_def)

text \<open>A referenced handle is alive or undead.\<close>

lemma counted_referenced:
  assumes "counted v q R" "i \<in># refs v R"
  obtains (alive) n p where "v i = Alive n p" "0 < n" "n < immortal \<Longrightarrow> count (refs v R) i = n"
    | (undead) n where "v i = Undead n" "0 < n" "n < immortal \<Longrightarrow> count (refs v R) i = n"
  using countedD [OF assms(1), of i] assms(2) by (cases "v i") (auto simp: count_eq_zero_iff)

lemma counted_update:
  assumes "counted v q R" "distinct q'" "count_ok s (count (refs (v(i := s)) R') i) (i \<in> set q')"
    and "\<And>j. j \<noteq> i \<Longrightarrow> count (refs (v(i := s)) R') j = count (refs v R) j \<and> (j \<in> set q' \<longleftrightarrow> j \<in> set q)"
  shows "counted (v(i := s)) q' R'"
  using assms by (auto simp: counted_def)

section \<open>The abstract operations\<close>

type_synonym view_queue = "heap_view \<times> raw_id list"

definition release_view :: "raw_id \<Rightarrow> view_queue \<Rightarrow> view_queue" where
  "release_view i vq =
     (case vq of (v, q) \<Rightarrow>
        (case v i of
           Alive n p \<Rightarrow>
             if n = immortal then (v, q)
             else if n = 1 then (v(i := Queued p), q @ [i]) else (v(i := Alive (n - 1) p), q)
         | Undead n \<Rightarrow>
             if n = immortal then (v, q)
             else if n = 1 then (v(i := Absent), q) else (v(i := Undead (n - 1)), q)
         | _ \<Rightarrow> (v, q)))"

definition retain_view :: "raw_id \<Rightarrow> nat \<Rightarrow> heap_view \<Rightarrow> heap_view" where
  "retain_view i k v = (case v i of Alive n p \<Rightarrow> v(i := Alive (n + k) p) | _ \<Rightarrow> v)"

lemma counted_add:
  assumes "counted v q R" "held w = held v" "\<And>j. j \<noteq> i \<Longrightarrow> w j = v j"
    and "distinct q'" "\<And>j. j \<noteq> i \<Longrightarrow> j \<in> set q' \<longleftrightarrow> j \<in> set q"
    and "\<And>j. j \<noteq> i \<Longrightarrow> count R' j = count R j" "count_ok (w i) (count (refs w R') i) (i \<in> set q')"
  shows "counted w q' R'"
proof -
  have "count_ok (w j) (count (refs w R') j) (j \<in> set q')" for j
  proof (cases "j = i")
    case False
    with assms countedD [OF assms(1), of j] show ?thesis by (simp add: refs_def)
  qed (use assms in simp)
  with assms(4) show ?thesis by (simp add: counted_def)
qed

lemma counted_release:
  assumes "counted v q (add_mset i R)" "release_view i (v, q) = (v', q')"
  shows "counted v' q' R"
proof -
  have "i \<in># refs v (add_mset i R)" by (simp add: refs_def)
  with assms(1) show ?thesis
  proof (cases rule: counted_referenced)
    case (alive n p)
    have free: "i \<notin> set q" "distinct q" using countedD [OF assms(1), of i] assms(1) alive(1) by (simp_all add: counted_def)
    have refs: "n = immortal \<or> immortal < n \<or> n = Suc (count (refs v R) i)"
      using alive(3) by (cases "n < immortal") (auto simp: refs_def)
    have held: "held (v(i := Alive m p)) = held v" "held (v(i := Queued p)) = held v" for m
      using alive(1) by (simp_all add: held_update_same)
    show ?thesis
      by (rule counted_add [OF assms(1), of _ i])
        (use assms(2) alive free refs held in \<open>auto simp: release_view_def refs_def count_eq_zero_iff split: if_splits\<close>)
  next
    case (undead n)
    have free: "i \<notin> set q" "distinct q" using countedD [OF assms(1), of i] assms(1) undead(1) by (simp_all add: counted_def)
    have refs: "n = immortal \<or> immortal < n \<or> n = Suc (count (refs v R) i)"
      using undead(3) by (cases "n < immortal") (auto simp: refs_def)
    have held: "held (v(i := Undead m)) = held v" "held (v(i := Absent)) = held v" for m
      using undead(1) by (simp_all add: held_update_same)
    show ?thesis
      by (rule counted_add [OF assms(1), of _ i])
        (use assms(2) undead free refs held in \<open>auto simp: release_view_def refs_def count_eq_zero_iff split: if_splits\<close>)
  qed
qed

lemma counted_retain:
  assumes "counted v q R" "v i = Alive n p" "n + k < 2 ^ 32"
  shows "counted (retain_view i k v) q (R + replicate_mset k i)"
proof -
  have ok: "0 < n" "n < immortal \<longrightarrow> count (refs v R) i = n" "i \<notin> set q" "distinct q"
    using countedD [OF assms(1), of i] assms(1,2) by (simp_all add: counted_def)
  have held: "held (v(i := Alive m p)) = held v" for m using assms(2) by (simp add: held_update_same)
  show ?thesis
    by (rule counted_add [OF assms(1), of _ i])
      (use assms(2,3) ok held in \<open>auto simp: retain_view_def refs_def\<close>)
qed

text \<open>Detaching a payload turns its references into references in transit.\<close>

lemma counted_detach:
  assumes "counted v (i # q) R" "v i = Queued p"
  shows "counted (v(i := Absent)) q (R + mset (payload_refs p))"
proof -
  have held: "held v = held (v(i := Absent)) + mset (payload_refs p)" using held_update [of v i Absent] assms(2) by simp
  have "refs (v(i := Absent)) (R + mset (payload_refs p)) = refs v R" by (simp add: refs_def held)
  moreover have "count (refs v R) i = 0" "distinct q" "i \<notin> set q"
    using countedD [OF assms(1), of i] assms by (simp_all add: counted_def)
  moreover have "count_ok (v j) (count (refs v R) j) (j \<in> set q)" if "j \<noteq> i" for j
    using countedD [OF assms(1), of j] that by simp
  ultimately show ?thesis by (simp add: counted_def)
qed

lemma counted_bury:
  assumes "counted v q R" "v i = Alive n p"
  shows "counted (v(i := Undead n)) q (R + mset (payload_refs p))"
proof -
  have held: "held v = held (v(i := Undead n)) + mset (payload_refs p)" using held_update [of v i "Undead n"] assms(2) by simp
  have "refs (v(i := Undead n)) (R + mset (payload_refs p)) = refs v R" by (simp add: refs_def held)
  with assms countedD [OF assms(1), of i] show ?thesis by (auto simp: counted_def)
qed

lemma counted_reserve:
  assumes "counted v q R" "v i = Absent \<or> v i = Reserved" "s = Absent \<or> s = Reserved"
  shows "counted (v(i := s)) q R"
proof -
  have "held (v(i := s)) = held v" using assms(2,3) by (intro held_update_same) auto
  moreover have "count (refs v R) i = 0" "i \<notin> set q" "distinct q"
    using countedD [OF assms(1), of i] counted_distinct [OF assms(1)] assms(2) by auto
  ultimately show ?thesis using assms(3) by (intro counted_add [OF assms(1), of _ i]) (auto simp: refs_def)
qed

lemma counted_publish:
  assumes "counted v q (R + mset (payload_refs p))" "v i = Reserved \<or> v i = Absent"
  shows "counted (v(i := Alive 1 p)) q (add_mset i R)"
proof -
  have "status_refs (v i) = []" using assms(2) by auto
  with held_update [of v i "Alive 1 p"] have held: "held (v(i := Alive 1 p)) = held v + mset (payload_refs p)" by simp
  have refs: "refs (v(i := Alive 1 p)) (add_mset i R) = add_mset i (refs v (R + mset (payload_refs p)))"
    unfolding refs_def held by simp
  have "count (refs v (R + mset (payload_refs p))) i = 0" "i \<notin> set q" "distinct q"
    using countedD [OF assms(1), of i] counted_distinct [OF assms(1)] assms(2) by auto
  then show ?thesis using assms(1) unfolding counted_def refs by auto
qed
end
