(* ===== verification/Heap_Weak.thy ===== *)
theory Heap_Weak
  imports Heap_Status
begin

text \<open>
  The intrusive list of weak objects: the links stored in the arena slots represent a list of object
  identities, and linking and unlinking append to it and remove from it.
\<close>

section \<open>Neighbours in a list\<close>

fun next_of :: "'a list \<Rightarrow> 'a \<Rightarrow> 'a option" where
  "next_of (y # z # zs) x = (if x = y then Some z else next_of (z # zs) x)"
| "next_of _ x = None"

abbreviation prev_of :: "'a list \<Rightarrow> 'a \<Rightarrow> 'a option" where
  "prev_of xs \<equiv> next_of (rev xs)"

lemma next_of_notin: "x \<notin> set xs \<Longrightarrow> next_of xs x = None"
  by (induction xs x rule: next_of.induct) auto

lemma next_of_Cons: "next_of (y # ys) x = (if x = y \<and> ys \<noteq> [] then Some (hd ys) else next_of ys x)"
  if "y \<notin> set ys"
  using that next_of_notin [of y ys] by (cases ys) auto

lemma next_of_append: "x \<notin> set as \<Longrightarrow> next_of (as @ x # y # bs) x = Some y"
proof (induction as)
  case (Cons a as)
  then show ?case by (cases as) auto
qed simp

lemma next_of_split: "next_of xs x = Some y \<Longrightarrow> \<exists>as bs. xs = as @ x # y # bs"
proof (induction xs x rule: next_of.induct)
  case (1 u v zs x)
  show ?case
  proof (cases "x = u")
    case True
    with 1 have "u # v # zs = [] @ x # y # zs" by simp
    then show ?thesis by blast
  next
    case False
    with 1 obtain as bs where "v # zs = as @ x # y # bs" by auto
    then have "u # v # zs = (u # as) @ x # y # bs" by simp
    then show ?thesis by blast
  qed
qed auto

lemma next_of_iff:
  assumes "distinct xs"
  shows "next_of xs x = Some y \<longleftrightarrow> (\<exists>as bs. xs = as @ x # y # bs)"
  using next_of_split [of xs x y] next_of_append assms by auto

lemma prev_of_iff:
  assumes "distinct xs"
  shows "prev_of xs y = Some x \<longleftrightarrow> next_of xs x = Some y"
proof -
  have "(\<exists>as bs. rev xs = as @ y # x # bs) \<longleftrightarrow> (\<exists>as bs. xs = as @ x # y # bs)"
    by (auto simp: rev_eq_append_conv) (metis rev_rev_ident)+
  with assms show ?thesis by (simp add: next_of_iff)
qed

lemma next_of_SomeD:
  assumes "distinct xs" "next_of xs x = Some y"
  shows "x \<in> set xs" "y \<in> set xs" "x \<noteq> y"
  using next_of_split [OF assms(2)] assms(1) by auto

lemma next_of_None_iff:
  assumes "distinct xs" "x \<in> set xs"
  shows "next_of xs x = None \<longleftrightarrow> x = last xs"
  using assms
proof (induction xs)
  case (Cons y ys)
  then show ?case by (cases "ys = []") (auto simp: next_of_Cons)
qed simp

lemma prev_of_None_iff:
  assumes "distinct xs" "x \<in> set xs"
  shows "prev_of xs x = None \<longleftrightarrow> x = hd xs"
  using next_of_None_iff [of "rev xs" x] assms by (simp add: last_rev)

lemma next_of_snoc:
  assumes "distinct xs" "y \<notin> set xs"
  shows "next_of (xs @ [y]) x = (if xs \<noteq> [] \<and> x = last xs then Some y else next_of xs x)"
  using assms
proof (induction xs)
  case (Cons z zs)
  then show ?case by (cases zs) auto
qed simp

abbreviation drop_elem :: "'a \<Rightarrow> 'a list \<Rightarrow> 'a list" where
  "drop_elem x xs \<equiv> filter (\<lambda>y. y \<noteq> x) xs"

lemma drop_elem_notin: "x \<notin> set xs \<Longrightarrow> drop_elem x xs = xs"
  by (auto simp: filter_id_conv)

lemma hd_drop_elem:
  assumes "distinct xs" "x \<in> set xs"
  shows "(case drop_elem x xs of [] \<Rightarrow> None | y # _ \<Rightarrow> Some y) = (if hd xs = x then next_of xs x else Some (hd xs))"
  using assms
proof (cases xs)
  case (Cons y ys)
  with assms show ?thesis by (cases "y = x"; cases ys) (auto simp: drop_elem_notin)
qed simp

lemma next_of_drop_elem:
  assumes "distinct xs" "x \<in> set xs" "z \<noteq> x"
  shows "next_of (drop_elem x xs) z = (if next_of xs z = Some x then next_of xs x else next_of xs z)"
  using assms
proof (induction xs)
  case (Cons y ys)
  show ?case
  proof (cases "y = x")
    case True
    with Cons.prems have "drop_elem x (y # ys) = ys" by (simp add: drop_elem_notin)
    moreover have "next_of ys z \<noteq> Some x" using Cons.prems True next_of_SomeD(2) [of ys z] by auto
    ultimately show ?thesis using Cons.prems True by (auto simp: next_of_Cons)
  next
    case False
    with Cons.prems have ys: "distinct ys" "x \<in> set ys" "y \<notin> set (drop_elem x ys)" "y \<notin> set ys" by auto
    have "drop_elem x ys \<noteq> [] \<Longrightarrow> hd (drop_elem x ys) = (if hd ys = x then the (next_of ys x) else hd ys)"
      "drop_elem x ys = [] \<Longrightarrow> hd ys = x \<and> next_of ys x = None"
      using hd_drop_elem [OF ys(1,2)] by (auto split: list.splits if_splits) (metis option.sel)
    moreover have "next_of ys y = None" "next_of (drop_elem x ys) y = None" using ys by (simp_all add: next_of_notin)
    ultimately show ?thesis using False Cons ys hd_drop_elem [OF ys(1,2)]
      by (auto simp: next_of_Cons split: list.splits if_splits)
  qed
qed simp

section \<open>The represented list\<close>

definition slot_id :: "heap \<Rightarrow> nat \<Rightarrow> node_id" where
  "slot_id h k = \<lparr>node_index = of_nat k, node_generation = slot_generation (heap_slots h ! k)\<rparr>"

definition names_id :: "heap \<Rightarrow> node_id \<Rightarrow> bool" where
  "names_id h i \<longleftrightarrow> unat (node_index i) < length (heap_slots h)
     \<and> slot_generation (heap_slots h ! unat (node_index i)) = node_generation i"

definition first_of :: "'a list \<Rightarrow> 'a option" where
  "first_of xs = (case xs of [] \<Rightarrow> None | x # _ \<Rightarrow> Some x)"

definition linked :: "heap \<Rightarrow> node_id list \<Rightarrow> bool" where
  "linked h L \<longleftrightarrow>
     distinct L \<and> length (heap_slots h) \<le> 2 ^ 32 \<and> (\<forall>i \<in> set L. names_id h i)
     \<and> weak_head h = first_of L \<and> weak_tail h = first_of (rev L)
     \<and> (\<forall>k < length (heap_slots h). weak_next (heap_slots h ! k) = next_of L (slot_id h k)
          \<and> weak_prev (heap_slots h ! k) = prev_of L (slot_id h k))"

text \<open>Everything but the links.\<close>

definition core :: "heap \<Rightarrow> (u32 \<times> slot_state) list \<times> u32 list \<times> leaf_slot list \<times> u32 list \<times> raw_id list" where
  "core h = (map (\<lambda>s. (slot_generation s, slot_state s)) (heap_slots h), heap_free h, leaf_slots h, leaf_free h,
     zero_queue h)"

lemma core_length: "core h' = core h \<Longrightarrow> length (heap_slots h') = length (heap_slots h)"
  by (auto simp: core_def dest: map_eq_imp_length_eq)

lemma core_nth:
  assumes "core h' = core h" "k < length (heap_slots h)"
  shows "slot_generation (heap_slots h' ! k) = slot_generation (heap_slots h ! k)"
    "slot_state (heap_slots h' ! k) = slot_state (heap_slots h ! k)"
proof -
  have "map (\<lambda>s. (slot_generation s, slot_state s)) (heap_slots h') ! k
      = map (\<lambda>s. (slot_generation s, slot_state s)) (heap_slots h) ! k" using assms(1) by (simp add: core_def)
  with assms(2) core_length [OF assms(1)]
  show "slot_generation (heap_slots h' ! k) = slot_generation (heap_slots h ! k)"
    "slot_state (heap_slots h' ! k) = slot_state (heap_slots h ! k)" by simp_all
qed

lemma core_status: "core h' = core h \<Longrightarrow> status h' = status h"
  using core_nth [of h' h] core_length [of h' h]
  by (intro ext) (auto simp: status_def Let_def names_slot_def core_def)

lemma core_links [simp]:
  "core (set_weak_prev h k link) = core h" "core (set_weak_next h k link) = core h"
  "core (h\<lparr>weak_head := w\<rparr>) = core h" "core (h\<lparr>weak_tail := w\<rparr>) = core h"
  by (simp_all add: core_def set_weak_prev_def set_weak_next_def map_update_same)

lemma link_simps [simp]:
  "length (heap_slots (set_weak_prev h a link)) = length (heap_slots h)"
  "length (heap_slots (set_weak_next h a link)) = length (heap_slots h)"
  "weak_head (set_weak_prev h a link) = weak_head h" "weak_head (set_weak_next h a link) = weak_head h"
  "weak_tail (set_weak_prev h a link) = weak_tail h" "weak_tail (set_weak_next h a link) = weak_tail h"
  by (simp_all add: set_weak_prev_def set_weak_next_def)

lemma link_nth:
  assumes "k < length (heap_slots h)"
  shows "weak_next (heap_slots (set_weak_next h a link) ! k) = (if k = a then link else weak_next (heap_slots h ! k))"
    "weak_prev (heap_slots (set_weak_next h a link) ! k) = weak_prev (heap_slots h ! k)"
    "weak_prev (heap_slots (set_weak_prev h a link) ! k) = (if k = a then link else weak_prev (heap_slots h ! k))"
    "weak_next (heap_slots (set_weak_prev h a link) ! k) = weak_next (heap_slots h ! k)"
    "slot_generation (heap_slots (set_weak_prev h a link) ! k) = slot_generation (heap_slots h ! k)"
    "slot_generation (heap_slots (set_weak_next h a link) ! k) = slot_generation (heap_slots h ! k)"
  using assms by (cases "a = k"; simp add: set_weak_next_def set_weak_prev_def)+

lemma slot_id_eq:
  assumes "length (heap_slots h) \<le> 2 ^ 32" "k < length (heap_slots h)" "names_id h i"
  shows "slot_id h k = i \<longleftrightarrow> k = unat (node_index i)"
proof
  assume "slot_id h k = i"
  then have "node_index i = of_nat k" by (auto simp: slot_id_def)
  then show "k = unat (node_index i)" using assms(1,2) by (simp add: unat_of_nat take_bit_nat_eq_self)
next
  assume "k = unat (node_index i)"
  with assms(3) show "slot_id h k = i" by (simp add: slot_id_def names_id_def)
qed

lemma registry_index: "names_id h i \<Longrightarrow> weak_registry_slot_index h i = Inr (unat (node_index i))"
  by (simp add: weak_registry_slot_index_def names_id_def vec_get_opt_def)

lemma linkedD:
  assumes "linked h L" "names_id h i"
  shows "weak_next (heap_slots h ! unat (node_index i)) = next_of L i"
    "weak_prev (heap_slots h ! unat (node_index i)) = prev_of L i"
  using assms slot_id_eq [of h "unat (node_index i)" i] by (auto simp: linked_def names_id_def)

lemma first_of_eq: "first_of L = Some i \<longleftrightarrow> L \<noteq> [] \<and> hd L = i"
  by (cases L) (auto simp: first_of_def)

lemma first_of_simps [simp]:
  "first_of [] = None" "first_of (x # xs) = Some x" "first_of (xs @ y # ys) = (if xs = [] then Some y else first_of xs)"
  by (cases xs; simp add: first_of_def)+

lemma first_of_None: "first_of xs = None \<longleftrightarrow> xs = []"
  by (cases xs) simp_all

lemma linkedI:
  assumes L: "linked h L" "distinct L'" "set L' \<subseteq> insert i (set L)" "names_id h i" and core: "core h' = core h"
    and head: "weak_head h' = first_of L'" "weak_tail h' = first_of (rev L')"
    and links: "\<And>k. k < length (heap_slots h) \<Longrightarrow> weak_next (heap_slots h' ! k) = next_of L' (slot_id h k)"
      "\<And>k. k < length (heap_slots h) \<Longrightarrow> weak_prev (heap_slots h' ! k) = prev_of L' (slot_id h k)"
  shows "linked h' L'"
proof -
  have names: "names_id h' j = names_id h j" for j
    using core_length [OF core] core_nth [OF core] by (auto simp: names_id_def)
  moreover have "slot_id h' k = slot_id h k" if "k < length (heap_slots h)" for k
    using core_nth [OF core that] by (simp add: slot_id_def)
  ultimately show ?thesis using assms core_length [OF core] by (auto simp: linked_def)
qed


section \<open>Linking and unlinking\<close>

lemma link_linked:
  assumes L: "linked h L" and i: "names_id h i" "i \<notin> set L"
    and weak: "slot_state (heap_slots h ! unat (node_index i)) = Live node" "is_weak_object (node_payload node)"
  shows "\<exists>h'. link_weak_object h i = Inr h' \<and> linked h' (L @ [i]) \<and> core h' = core h"
proof -
  let ?ix = "\<lambda>j. unat (node_index j)"
  have ends: "weak_head h = first_of L" "weak_tail h = first_of (rev L)" "distinct L" "\<forall>j \<in> set L. names_id h j"
    "length (heap_slots h) \<le> 2 ^ 32" using L by (simp_all add: linked_def)
  have none: "weak_next (heap_slots h ! ?ix i) = None" "weak_prev (heap_slots h ! ?ix i) = None"
    using linkedD [OF L i(1)] i(2) by (simp_all add: next_of_notin)
  have old: "weak_next (heap_slots h ! k) = next_of L (slot_id h k)" "weak_prev (heap_slots h ! k) = prev_of L (slot_id h k)"
    if "k < length (heap_slots h)" for k using L that by (simp_all add: linked_def)
  show ?thesis
  proof (cases L rule: rev_cases)
    case Nil
    let ?h = "(set_weak_prev (h\<lparr>weak_head := Some i\<rparr>) (?ix i) None)\<lparr>weak_tail := Some i\<rparr>"
    have "link_weak_object h i = Inr ?h"
      using ends none weak Nil by (simp add: link_weak_object_def registry_index [OF i(1)] first_of_def Let_def)
    moreover have "linked ?h (L @ [i])"
      by (rule linkedI [OF L _ _ i(1)]) (use Nil old in \<open>auto simp: first_of_def link_nth\<close>)
    ultimately show ?thesis by simp
  next
    case (snoc M t)
    let ?h = "(set_weak_prev (set_weak_next h (?ix t) (Some i)) (?ix i) (Some t))\<lparr>weak_tail := Some i\<rparr>"
    have t: "names_id h t" "t \<noteq> i" "weak_tail h = Some t" using ends i(2) snoc by auto
    have head: "(weak_head h = None) = (weak_tail h = None)" using ends(1,2) by (simp add: first_of_None)
    have tail: "weak_next (heap_slots h ! ?ix t) = None"
      using linkedD(1) [OF L t(1)] next_of_None_iff [of L t] ends snoc by simp
    have "link_weak_object h i = Inr ?h"
      using t head none weak tail
      by (simp add: link_weak_object_def registry_index [OF i(1)] registry_index [OF t(1)] Let_def)
    moreover have "linked ?h (L @ [i])"
    proof (rule linkedI [OF L _ _ i(1)])
      fix k assume k: "k < length (heap_slots h)"
      note ids = slot_id_eq [OF ends(5) k t(1)] slot_id_eq [OF ends(5) k i(1)]
      show "weak_next (heap_slots ?h ! k) = next_of (L @ [i]) (slot_id h k)"
        using old(1) [OF k] ids k next_of_snoc [of L i "slot_id h k"] ends(3) i(2) snoc t(2) by (simp add: link_nth)
      show "weak_prev (heap_slots ?h ! k) = prev_of (L @ [i]) (slot_id h k)"
        using old(2) [OF k] ids k i(2) snoc next_of_notin [of i "rev L"] by (auto simp: link_nth)
    qed (use ends i snoc in auto)
    ultimately show ?thesis by simp
  qed
qed

lemma linked_prev:
  assumes L: "linked h L" and i: "i \<in> set L" and p: "prev_of L i = Some p"
  shows "names_id h p" "p \<noteq> i" "weak_next (heap_slots h ! unat (node_index p)) = Some i" "weak_head h \<noteq> Some i"
proof -
  have ends: "distinct L" "\<forall>j \<in> set L. names_id h j" "weak_head h = first_of L" using L by (simp_all add: linked_def)
  have next_p: "next_of L p = Some i" using p prev_of_iff [OF ends(1)] by blast
  show name: "names_id h p" "p \<noteq> i" using next_of_SomeD [OF ends(1) next_p] ends(2) by auto
  show "weak_next (heap_slots h ! unat (node_index p)) = Some i" using linkedD(1) [OF L name(1)] next_p by simp
  show "weak_head h \<noteq> Some i" using p prev_of_None_iff [OF ends(1) i] ends(3) by (auto simp: first_of_eq)
qed

lemma linked_next:
  assumes L: "linked h L" and i: "i \<in> set L" and n: "next_of L i = Some n"
  shows "names_id h n" "n \<noteq> i" "weak_prev (heap_slots h ! unat (node_index n)) = Some i" "weak_tail h \<noteq> Some i"
proof -
  have ends: "distinct L" "\<forall>j \<in> set L. names_id h j" "weak_tail h = first_of (rev L)" using L by (simp_all add: linked_def)
  show name: "names_id h n" "n \<noteq> i" using next_of_SomeD [OF ends(1) n] ends(2) by auto
  show "weak_prev (heap_slots h ! unat (node_index n)) = Some i"
    using linkedD(2) [OF L name(1)] n prev_of_iff [OF ends(1)] by simp
  show "weak_tail h \<noteq> Some i" using n next_of_None_iff [OF ends(1) i] ends(3) by (auto simp: first_of_eq hd_rev)
qed

lemma linked_ends:
  assumes L: "linked h L" and i: "i \<in> set L"
  shows "prev_of L i = None \<Longrightarrow> weak_head h = Some i" "next_of L i = None \<Longrightarrow> weak_tail h = Some i"
  using assms prev_of_None_iff [of L i] next_of_None_iff [of L i] by (auto simp: linked_def first_of_eq hd_rev)

lemma unlink_linked:
  assumes L: "linked h L" and i: "i \<in> set L"
  shows "\<exists>h'. unlink_weak_object h i = Inr h' \<and> linked h' (drop_elem i L) \<and> core h' = core h"
proof -
  let ?ix = "\<lambda>j. unat (node_index j)"
  have ends: "weak_head h = first_of L" "weak_tail h = first_of (rev L)" "distinct L" "\<forall>j \<in> set L. names_id h j"
    "length (heap_slots h) \<le> 2 ^ 32" using L by (simp_all add: linked_def)
  have named: "names_id h i" using ends i by blast
  have old: "weak_next (heap_slots h ! k) = next_of L (slot_id h k)" "weak_prev (heap_slots h ! k) = prev_of L (slot_id h k)"
    if "k < length (heap_slots h)" for k using L that by (simp_all add: linked_def)
  let ?p = "prev_of L i" and ?n = "next_of L i"
  let ?h1 = "case ?p of Some p \<Rightarrow> set_weak_next h (?ix p) ?n | None \<Rightarrow> h\<lparr>weak_head := ?n\<rparr>"
  let ?h2 = "case ?n of Some n \<Rightarrow> set_weak_prev ?h1 (?ix n) ?p | None \<Rightarrow> ?h1\<lparr>weak_tail := ?p\<rparr>"
  let ?h3 = "set_weak_next (set_weak_prev ?h2 (?ix i) None) (?ix i) None"
  note at_i = linkedD [OF L named]
  note p = linked_prev [OF L i] and n = linked_next [OF L i] and ends_i = linked_ends [OF L i]
  have n1: "names_id ?h1 n" if "?n = Some n" for n
    using n(1) [OF that] by (auto simp: names_id_def link_nth split: option.split)
  have "check_unlink h i ?p ?n = Inr ()"
    using p n ends_i by (auto simp: check_unlink_def registry_index split: option.split)
  then have "unlink_weak_object h i = Inr ?h3"
    using p(1) n1 by (auto simp: unlink_weak_object_def registry_index [OF named] registry_index at_i split: option.split)
  moreover have "linked ?h3 (drop_elem i L)"
  proof (rule linkedI [OF L _ _ named])
    show "weak_head ?h3 = first_of (drop_elem i L)"
      using hd_drop_elem [OF ends(3) i] ends(1) p(4) ends_i(1)
      by (cases ?p; cases ?n) (auto simp: first_of_def split: list.splits)
    have "distinct (rev L)" "i \<in> set (rev L)" using ends(3) i by simp_all
    from hd_drop_elem [OF this] show "weak_tail ?h3 = first_of (rev (drop_elem i L))"
      using ends(2) n(4) ends_i(2)
      by (cases ?p; cases ?n) (auto simp: first_of_def rev_filter split: list.splits)
  next
    fix k assume k: "k < length (heap_slots h)"
    let ?x = "slot_id h k"
    have at_k: "k = ?ix i \<longleftrightarrow> ?x = i" "?p = Some q \<Longrightarrow> k = ?ix q \<longleftrightarrow> ?x = q" "?n = Some q \<Longrightarrow> k = ?ix q \<longleftrightarrow> ?x = q" for q
      using slot_id_eq [OF ends(5) k] named p(1) n(1) by blast+
    have "weak_next (heap_slots ?h3 ! k) = (if ?x = i then None else if ?p = Some ?x then ?n else next_of L ?x)"
      using k old(1) [OF k] at_k by (cases ?p; cases ?n) (auto simp: link_nth)
    also have "\<dots> = next_of (drop_elem i L) ?x"
      using next_of_drop_elem [OF ends(3) i, of ?x] prev_of_iff [OF ends(3), of i ?x]
      by (auto simp: next_of_notin)
    finally show "weak_next (heap_slots ?h3 ! k) = next_of (drop_elem i L) ?x" .
    have "weak_prev (heap_slots ?h3 ! k) = (if ?x = i then None else if ?n = Some ?x then ?p else prev_of L ?x)"
      using k old(2) [OF k] at_k by (cases ?p; cases ?n) (auto simp: link_nth)
    also have "\<dots> = prev_of (drop_elem i L) ?x"
      using next_of_drop_elem [of "rev L" i ?x] prev_of_iff [OF ends(3), of ?x i] ends(3) i
      by (auto simp: next_of_notin rev_filter)
    finally show "weak_prev (heap_slots ?h3 ! k) = prev_of (drop_elem i L) ?x" .
  qed (use ends(3) in \<open>auto split: option.split\<close>)
  moreover have "core ?h3 = core h" by (simp split: option.split)
  ultimately show ?thesis by blast
qed
end
