(* ===== verification/Heap_Refinement.thy ===== *)
theory Heap_Refinement
  imports Heap_Weak
begin

text \<open>
  The arenas implement the abstract heap: on a heap that satisfies \<open>heap_ok\<close> (free lists, weak list and
  reference counts are in order), releasing a reference acts on the status of handles as \<open>release_view\<close>,
  retaining as \<open>retain_view\<close>, and none of the internal consistency checks fails.
\<close>

section \<open>Structure of the arenas\<close>

text \<open>A queued node has no references left, a slot under construction has the one of its
  allocation, and zombies are nodes.\<close>

fun state_ok :: "slot_state \<Rightarrow> bool" where
  "state_ok (ZeroQueued node) \<longleftrightarrow> node_strong node = 0"
| "state_ok (Initializing _ strong) \<longleftrightarrow> strong = 1"
| "state_ok (Zombie kind _) \<longleftrightarrow> kind \<noteq> StringNode \<and> kind \<noteq> BigIntNode"
| "state_ok _ \<longleftrightarrow> True"

definition arena_wf :: "heap \<Rightarrow> bool" where
  "arena_wf h \<longleftrightarrow>
     length (heap_slots h) \<le> 2 ^ 32 \<and> length (leaf_slots h) \<le> 2 ^ 32
     \<and> (\<forall>k < length (heap_slots h). state_ok (slot_state (heap_slots h ! k)))
     \<and> distinct (heap_free h)
     \<and> (\<forall>k \<in> set (heap_free h). unat k < length (heap_slots h) \<and> slot_state (heap_slots h ! unat k) = Vacant)
     \<and> distinct (leaf_free h)
     \<and> (\<forall>k \<in> set (leaf_free h). unat k < length (leaf_slots h) \<and> leaf_value (leaf_slots h ! unat k) = LeafVacant)"

definition arena_inv :: "heap \<Rightarrow> node_id list \<Rightarrow> bool" where
  "arena_inv h L \<longleftrightarrow> arena_wf h \<and> linked h L \<and> (\<forall>i \<in> set L. node_index i \<notin> set (heap_free h))"

lemma set_state_simps [simp]:
  "length (heap_slots (set_state h k st)) = length (heap_slots h)" "heap_free (set_state h k st) = heap_free h"
  "leaf_slots (set_state h k st) = leaf_slots h" "leaf_free (set_state h k st) = leaf_free h"
  "zero_queue (set_state h k st) = zero_queue h" "weak_head (set_state h k st) = weak_head h"
  "weak_tail (set_state h k st) = weak_tail h"
  by (simp_all add: set_state_def)

lemma set_state_nth:
  assumes "j < length (heap_slots h)"
  shows "slot_state (heap_slots (set_state h k st) ! j) = (if j = k then st else slot_state (heap_slots h ! j))"
    "slot_generation (heap_slots (set_state h k st) ! j) = slot_generation (heap_slots h ! j)"
    "weak_prev (heap_slots (set_state h k st) ! j) = weak_prev (heap_slots h ! j)"
    "weak_next (heap_slots (set_state h k st) ! j) = weak_next (heap_slots h ! j)"
  using assms by (cases "k = j"; simp add: set_state_def)+

lemma linked_cong:
  assumes "length (heap_slots h') = length (heap_slots h)" "weak_head h' = weak_head h" "weak_tail h' = weak_tail h"
    and "\<And>k. k < length (heap_slots h) \<Longrightarrow> slot_generation (heap_slots h' ! k) = slot_generation (heap_slots h ! k)
      \<and> weak_prev (heap_slots h' ! k) = weak_prev (heap_slots h ! k) \<and> weak_next (heap_slots h' ! k) = weak_next (heap_slots h ! k)"
  shows "linked h' L \<longleftrightarrow> linked h L"
proof -
  have "slot_id h' k = slot_id h k" if "k < length (heap_slots h)" for k using assms(4) [OF that] by (simp add: slot_id_def)
  moreover have "names_id h' i = names_id h i" for i using assms by (auto simp: names_id_def)
  ultimately show ?thesis using assms by (simp add: linked_def)
qed

lemma linked_set_state [simp]: "linked (set_state h k st) L \<longleftrightarrow> linked h L"
  by (rule linked_cong) (simp_all add: set_state_nth)

lemma arena_inv_set_state:
  assumes "arena_inv h L" "slot_state (heap_slots h ! k) \<noteq> Vacant \<or> st = Vacant"
    and "state_ok st"
  shows "arena_inv (set_state h k st) L"
proof -
  have "slot_state (heap_slots (set_state h k st) ! unat j) = Vacant" if "j \<in> set (heap_free h)" for j
    using assms(1,2) that set_state_nth(1) [of "unat j" h k st] by (auto simp: arena_inv_def arena_wf_def)
  with assms show ?thesis by (auto simp: arena_inv_def arena_wf_def set_state_nth split: if_splits)
qed

lemma arena_inv_queue [simp]: "arena_inv (h\<lparr>zero_queue := q\<rparr>) L \<longleftrightarrow> arena_inv h L"
  unfolding arena_inv_def arena_wf_def by (subst linked_cong [of _ h]) simp_all

lemma set_leaf_simps [simp]:
  "length (leaf_slots (set_leaf h k strong value)) = length (leaf_slots h)"
  "heap_free (set_leaf h k strong value) = heap_free h" "heap_slots (set_leaf h k strong value) = heap_slots h"
  "leaf_free (set_leaf h k strong value) = leaf_free h" "zero_queue (set_leaf h k strong value) = zero_queue h"
  "weak_head (set_leaf h k strong value) = weak_head h" "weak_tail (set_leaf h k strong value) = weak_tail h"
  by (simp_all add: set_leaf_def)

lemma set_leaf_nth:
  assumes "j < length (leaf_slots h)"
  shows "leaf_slots (set_leaf h k strong value) ! j =
    (if j = k then (leaf_slots h ! k)\<lparr>leaf_strong := strong, leaf_value := value\<rparr> else leaf_slots h ! j)"
  using assms by (simp add: set_leaf_def)

lemma arena_inv_set_leaf:
  assumes "arena_inv h L" "leaf_value (leaf_slots h ! k) \<noteq> LeafVacant \<or> value = LeafVacant"
  shows "arena_inv (set_leaf h k strong value) L"
proof -
  have "leaf_value (leaf_slots (set_leaf h k strong value) ! unat j) = LeafVacant" if "j \<in> set (leaf_free h)" for j
    using assms that set_leaf_nth [of "unat j" h k strong "value"] by (auto simp: arena_inv_def arena_wf_def)
  moreover have "linked (set_leaf h k strong value) L" if "linked h L"
    using that by (subst linked_cong [of _ h]) simp_all
  ultimately show ?thesis using assms by (auto simp: arena_inv_def arena_wf_def)
qed

section \<open>Reclaiming a slot\<close>

lemma linked_regenerate:
  assumes L: "linked h L" and index: "unat index < length (heap_slots h)" and other: "\<forall>i \<in> set L. node_index i \<noteq> index"
    and h': "heap_slots h' = (heap_slots h)[unat index := (heap_slots h ! unat index)\<lparr>slot_generation := g\<rparr>]"
    "weak_head h' = weak_head h" "weak_tail h' = weak_tail h"
  shows "linked h' L"
proof -
  have at: "weak_next (heap_slots h' ! k) = next_of L (slot_id h' k) \<and> weak_prev (heap_slots h' ! k) = prev_of L (slot_id h' k)"
    if k: "k < length (heap_slots h)" for k
  proof (cases "k = unat index")
    case True
    have "i \<notin> set L" if "node_index i = index" for i using other that by blast
    then have "slot_id h k \<notin> set L" "slot_id h' k \<notin> set L" using True by (simp_all add: slot_id_def)
    moreover have "weak_next (heap_slots h ! k) = next_of L (slot_id h k)" "weak_prev (heap_slots h ! k) = prev_of L (slot_id h k)"
      using L k by (auto simp: linked_def)
    ultimately show ?thesis using True h'(1) k by (simp add: next_of_notin)
  next
    case False
    then have "heap_slots h' ! k = heap_slots h ! k" using h'(1) by simp
    then show ?thesis using L k by (simp add: linked_def slot_id_def)
  qed
  have "names_id h' i" if "i \<in> set L" for i
  proof -
    have "unat (node_index i) \<noteq> unat index" using other that by (simp add: word_unat_eq_iff)
    then show ?thesis using L that h'(1) by (simp add: linked_def names_id_def)
  qed
  with at L h' show ?thesis by (simp add: linked_def)
qed

lemma reclaim_vacant_refines:
  assumes inv: "arena_inv h L" and k: "unat index < length (heap_slots h)" "slot_state (heap_slots h ! unat index) = Vacant"
    and free: "index \<notin> set (heap_free h)" and links: "\<forall>i \<in> set L. node_index i \<noteq> index"
  shows "\<exists>h'. reclaim_vacant_slot h index = Inr h' \<and> arena_inv h' L \<and> status h' = status h \<and> zero_queue h' = zero_queue h"
proof -
  let ?slot = "heap_slots h ! unat index"
  have L: "linked h L" "arena_wf h" "\<forall>i \<in> set L. node_index i \<notin> set (heap_free h)" using inv by (simp_all add: arena_inv_def)
  let ?i = "\<lparr>node_index = index, node_generation = slot_generation ?slot\<rparr>"
  have i: "?i \<notin> set L" "slot_id h (unat index) = ?i" using links by (auto simp: slot_id_def)
  have none: "weak_prev ?slot = None" "weak_next ?slot = None"
    using L(1) k(1) i by (auto simp: linked_def next_of_notin)
  have "hd L \<noteq> ?i" "last L \<noteq> ?i" if "L \<noteq> []" using i(1) hd_in_set [OF that] last_in_set [OF that] by metis+
  then have ends: "weak_head h \<noteq> Some ?i" "weak_tail h \<noteq> Some ?i"
    using L(1) by (auto simp: linked_def first_of_eq hd_rev)
  show ?thesis
  proof (cases "checked_add_u32 (slot_generation ?slot) 1")
    case None
    have "reclaim_vacant_slot h index = Inr (set_state h (unat index) Retired)"
      using None none ends k by (simp add: reclaim_vacant_slot_def vec_get_opt_def Let_def)
    moreover have "arena_inv (set_state h (unat index) Retired) L"
      using inv free set_state_nth(1) [of _ h "unat index" Retired]
      by (auto simp: arena_inv_def arena_wf_def set_state_nth word_unat_eq_iff [symmetric])
    moreover have "status (set_state h (unat index) Retired) = status h"
      using k by (intro status_write_vacant [of h "unat index"]) (simp_all add: set_state_def)
    ultimately show ?thesis by simp
  next
    case (Some g)
    let ?h = "h\<lparr>heap_slots := (heap_slots h)[unat index := ?slot\<lparr>slot_generation := g\<rparr>], heap_free := heap_free h @ [index]\<rparr>"
    have "reclaim_vacant_slot h index = Inr ?h"
      using Some none ends k by (simp add: reclaim_vacant_slot_def vec_get_opt_def Let_def)
    moreover have "status ?h = status h" using k by (intro status_write_vacant [of h "unat index"]) simp_all
    moreover have "linked ?h L" by (rule linked_regenerate [OF L(1) k(1) links]) simp_all
    moreover have "arena_wf ?h"
      using L(2) k free unfolding arena_wf_def by (auto simp: nth_list_update)
    ultimately show ?thesis using L(3) links by (auto simp: arena_inv_def)
  qed
qed
section \<open>The invariant of the heap\<close>

fun payload_of :: "node_status \<Rightarrow> payload option" where
  "payload_of (Alive _ p) = Some p"
| "payload_of (Queued p) = Some p"
| "payload_of _ = None"

definition weak_ids :: "heap_view \<Rightarrow> node_id set" where
  "weak_ids v = {i. \<exists>data. payload_of (v (RObject i)) = Some (NodePayload data) \<and> is_weak_object data}"

definition heap_ok :: "heap \<Rightarrow> node_id list \<Rightarrow> raw_id multiset \<Rightarrow> bool" where
  "heap_ok h L R \<longleftrightarrow> arena_inv h L \<and> set L = weak_ids (status h) \<and> counted (status h) (zero_queue h) R"

lemma status_queue [simp]: "status (h\<lparr>zero_queue := q\<rparr>) = status h"
  by (rule status_same_slots) simp_all

lemma status_set_state:
  assumes "status h i \<noteq> Absent" "\<not> is_leaf i" "state_kind st = Some (raw_kind i) \<or> state_kind st = None"
  shows "status (set_state h (unat (raw_index i)) st) = (status h)(i := state_status st)"
  using assms(1,2)
proof (rule statusE)
  let ?s = "(heap_slots h ! unat (raw_index i))\<lparr>slot_state := st\<rparr>"
  assume *: "unat (raw_index i) < length (heap_slots h)" "names_slot i (heap_slots h ! unat (raw_index i))"
  have "status (set_state h (unat (raw_index i)) st) = (status h)(i := state_status (slot_state ?s))"
    by (rule status_write_slot) (use * assms in \<open>simp_all add: set_state_def names_slot_def\<close>)
  then show ?thesis by simp
qed

lemma status_set_leaf:
  assumes "status h i \<noteq> Absent" "is_leaf i" "leaf_kind value = Some (raw_kind i) \<or> leaf_kind value = None"
  shows "status (set_leaf h (unat (raw_index i)) strong value) = (status h)(i :=
    (if leaf_kind value = None then Absent else if strong = 0 then Queued (LeafPayload value)
     else Alive (unat strong) (LeafPayload value)))"
  using assms(1,2)
proof (rule status_leafE)
  let ?s = "(leaf_slots h ! unat (raw_index i))\<lparr>leaf_strong := strong, leaf_value := value\<rparr>"
  assume *: "unat (raw_index i) < length (leaf_slots h)" "names_leaf i (leaf_slots h ! unat (raw_index i))"
  have "status (set_leaf h (unat (raw_index i)) strong value) = (status h)(i := leaf_status ?s)"
    by (rule status_write_leaf) (use * assms in \<open>simp_all add: set_leaf_def names_leaf_def\<close>)
  then show ?thesis by (simp add: leaf_status_def)
qed

lemma status_inj:
  assumes "status h i \<noteq> Absent" "status h j \<noteq> Absent" "\<not> is_leaf i" "\<not> is_leaf j" "raw_index i = raw_index j"
  shows "i = j"
  using assms(1,3)
proof (rule statusE)
  assume i: "names_slot i (heap_slots h ! unat (raw_index i))"
  show ?thesis using assms(2,4) by (rule statusE) (use i assms(5) in \<open>auto intro!: raw_id_eqI simp: names_slot_def\<close>)
qed

lemma occupied_not_free:
  assumes "arena_wf h" "status h i \<noteq> Absent" "\<not> is_leaf i"
  shows "raw_index i \<notin> set (heap_free h)"
  using assms(2,3) by (rule statusE) (use assms in \<open>auto simp: arena_wf_def\<close>)

lemma weak_ids_update: "payload_of s = payload_of (v i) \<Longrightarrow> weak_ids (v(i := s)) = weak_ids v"
  by (auto simp: weak_ids_def)

lemma weak_list_index:
  assumes "set L = weak_ids (status h)" "payload_of (status h i) = None" "status h i \<noteq> Absent" "\<not> is_leaf i"
  shows "\<forall>j \<in> set L. node_index j \<noteq> raw_index i"
proof (rule ballI, rule notI)
  fix j assume "j \<in> set L" and same: "node_index j = raw_index i"
  then obtain data where j: "payload_of (status h (RObject j)) = Some (NodePayload data)" using assms(1) by (auto simp: weak_ids_def)
  then have "i = RObject j" using same assms by (intro status_inj [of h]) auto
  with j assms(2) show False by simp
qed

section \<open>Releasing a reference\<close>

lemma reclaim_zombie_refines:
  assumes inv: "arena_inv h L" and i: "status h i = Undead n" "\<not> is_leaf i" and L: "set L = weak_ids (status h)"
    and kind: "state_kind (Zombie kind 0) = Some (raw_kind i)"
  shows "\<exists>h'. reclaim_slot (set_state h (unat (raw_index i)) (Zombie kind 0)) (raw_index i) = Inr h' \<and> arena_inv h' L
    \<and> status h' = (status h)(i := Absent) \<and> zero_queue h' = zero_queue h"
proof -
  let ?k = "unat (raw_index i)"
  have here: "status h i \<noteq> Absent" using i by simp
  from here i(2) have k: "?k < length (heap_slots h)"
    and st: "state_status (slot_state (heap_slots h ! ?k)) = Undead n" by (rule statusE, use i in simp)+
  have twice: "set_state (set_state h ?k (Zombie kind 0)) ?k Vacant = set_state h ?k Vacant"
    using k by (simp add: set_state_def)
  have free: "raw_index i \<notin> set (heap_free h)" using inv here i(2) by (auto simp: arena_inv_def dest: occupied_not_free)
  have "arena_inv (set_state h ?k Vacant) L" by (rule arena_inv_set_state [OF inv]) simp_all
  from reclaim_vacant_refines [OF this, of "raw_index i"] obtain h' where
    h': "reclaim_vacant_slot (set_state h ?k Vacant) (raw_index i) = Inr h'" "arena_inv h' L"
      "status h' = status (set_state h ?k Vacant)" "zero_queue h' = zero_queue (set_state h ?k Vacant)"
    using k free weak_list_index [OF L _ here i(2)] i(1) by (auto simp: set_state_nth)
  moreover have "status (set_state h ?k Vacant) = (status h)(i := Absent)"
    using status_set_state [OF here i(2), of Vacant] by simp
  moreover have "reclaim_slot (set_state h ?k (Zombie kind 0)) (raw_index i) = Inr h'"
    using h'(1) k by (simp add: reclaim_slot_def vec_get_opt_def set_state_nth twice)
  ultimately show ?thesis by simp
qed

lemma unat_IMMORTAL [simp]: "unat IMMORTAL_STRONG = immortal"
  by (simp add: IMMORTAL_STRONG_def)

lemma strong_immortal: "strong = IMMORTAL_STRONG \<longleftrightarrow> unat strong = immortal"
  using unat_IMMORTAL by (metis word_unat_eq_iff)

lemma strong_decrement:
  fixes strong :: u32
  assumes "0 < unat strong"
  shows "strong \<noteq> 0" "unat (strong - 1) = unat strong - 1" "strong - 1 = 0 \<longleftrightarrow> unat strong = 1"
proof -
  show nz: "strong \<noteq> 0" using assms by auto
  then show dec: "unat (strong - 1) = unat strong - 1" by (rule unat_minus_one)
  show "strong - 1 = 0 \<longleftrightarrow> unat strong = 1" using dec assms by (auto simp: unat_eq_0 [symmetric])
qed

lemma release_leaf_refines:
  assumes "arena_inv h L" "is_leaf i" "status h i = Alive n p" "0 < n"
  shows "\<exists>h'. release_raw_no_drain h i = Inr h' \<and> arena_inv h' L
    \<and> (status h', zero_queue h') = release_view i (status h, zero_queue h)"
proof -
  let ?k = "unat (raw_index i)"
  have here: "status h i \<noteq> Absent" using assms by simp
  then obtain s where k: "?k < length (leaf_slots h)" and s: "s = leaf_slots h ! ?k" "names_leaf i s"
    "leaf_status s = Alive n p" "validate_leaf_identity h i = Inr ?k"
    using status_leafE [OF here assms(2)] assms(3) by metis
  have kind: "leaf_kind (leaf_value s) = Some (raw_kind i)" "leaf_strong s \<noteq> 0" "n = unat (leaf_strong s)"
    "p = LeafPayload (leaf_value s)"
    using s by (auto simp: leaf_status_def names_leaf_def split: if_splits)
  note dec = strong_decrement [of "leaf_strong s"]
  have frame: "arena_inv (set_leaf h ?k strong (leaf_value s)) L" for strong
    using kind(1) s(1) by (intro arena_inv_set_leaf [OF assms(1)]) auto
  show ?thesis
    using s k kind dec frame assms(1,2,4)
    by (auto simp: release_raw_no_drain_def release_leaf_raw_no_drain_def release_view_def strong_immortal Let_def
        leaf_is_live_def set_leaf_strong_def status_set_leaf [OF here assms(2)] assms(3))
qed

lemma release_node_refines:
  assumes inv: "arena_inv h L" and L: "set L = weak_ids (status h)" and i: "\<not> is_leaf i"
    and alive: "status h i = Alive n p \<or> status h i = Undead n" "0 < n"
  shows "\<exists>h'. release_raw_no_drain h i = Inr h' \<and> arena_inv h' L
    \<and> (status h', zero_queue h') = release_view i (status h, zero_queue h)"
proof -
  let ?k = "unat (raw_index i)"
  have here: "status h i \<noteq> Absent" using alive by auto
  then obtain s where k: "?k < length (heap_slots h)" and s: "s = heap_slots h ! ?k" "names_slot i s"
    "status h i = state_status (slot_state s)" "validate_slot_identity h i = Inr ?k"
    using statusE [OF here i] by metis
  have frame: "arena_inv (set_state h ?k st) L" if "state_ok st" for st
    using that s alive by (intro arena_inv_set_state [OF inv]) auto
  consider (live) node where "slot_state s = Live node" | (zombie) kind strong where "slot_state s = Zombie kind strong"
    using alive s(3) by (cases "slot_state s") auto
  then show ?thesis
  proof cases
    case live
    let ?node = "node\<lparr>node_strong := node_strong node - 1\<rparr>"
    have n: "status h i = Alive n (NodePayload (node_payload node))" "n = unat (node_strong node)"
      using live alive s(3) by auto
    note dec = strong_decrement [of "node_strong node"]
    have kind: "state_kind (Live ?node) = Some (raw_kind i)" "state_kind (ZeroQueued ?node) = Some (raw_kind i)"
      using s(2) live by (simp_all add: names_slot_def)
    note written = status_set_state [OF here i, of "Live ?node"] status_set_state [OF here i, of "ZeroQueued ?node"]
    have "arena_inv (set_state h ?k (Live ?node)) L" "n = 1 \<Longrightarrow> arena_inv (set_state h ?k (ZeroQueued ?node)) L"
      using frame [of "Live ?node"] frame [of "ZeroQueued ?node"] dec n(2) by simp_all
    then show ?thesis
      using k s(1,4) live n dec inv written kind alive(2) i
      by (auto simp: release_raw_no_drain_def release_view_def strong_immortal Let_def)
  next
    case zombie
    have n: "status h i = Undead n" "n = unat strong" using zombie alive s(3) by auto
    note dec = strong_decrement [of strong]
    have kind: "state_kind (Zombie kind 0) = Some (raw_kind i)" "state_kind (Zombie kind (strong - 1)) = Some (raw_kind i)"
      using s(2) zombie by (simp_all add: names_slot_def)
    note written = status_set_state [OF here i, of "Zombie kind (strong - 1)"]
    have "kind \<noteq> StringNode" "kind \<noteq> BigIntNode" using kind(1) i by (cases i; simp)+
    then have "arena_inv (set_state h ?k (Zombie kind (strong - 1))) L" by (intro frame) simp
    then show ?thesis
      using k s(1,4) zombie n dec inv written kind alive(2) i reclaim_zombie_refines [OF inv n(1) i L kind(1)]
      by (auto simp: release_raw_no_drain_def release_view_def strong_immortal Let_def)
  qed
qed

text \<open>
  Nothing comes to life by a release: counts only go down, payloads stay or go, absent handles stay absent,
  reservations and immortal nodes stay.
\<close>

definition fades :: "node_status \<Rightarrow> node_status \<Rightarrow> bool" where
  "fades s t \<longleftrightarrow>
     (case t of
        Absent \<Rightarrow> s \<noteq> Reserved \<and> (\<forall>p. s \<noteq> Alive immortal p)
      | Reserved \<Rightarrow> s = Reserved
      | Alive m p \<Rightarrow> (\<exists>n. s = Alive n p \<and> m \<le> n \<and> (n = immortal \<longrightarrow> m = immortal))
      | Queued p \<Rightarrow> s = Queued p \<or> (\<exists>n. s = Alive n p \<and> n \<noteq> immortal)
      | Undead m \<Rightarrow> (\<exists>n. s = Undead n \<and> m \<le> n))"

lemma fades_refl [simp]: "fades s s"
  by (cases s) (simp_all add: fades_def)

lemma fades_trans: "fades s t \<Longrightarrow> fades t u \<Longrightarrow> fades s u"
  by (cases u; cases t) (auto simp: fades_def)

lemma fades_payload: "fades s t \<Longrightarrow> payload_of t = None \<or> payload_of t = payload_of s"
  by (cases t) (auto simp: fades_def)

definition decay :: "heap_view \<Rightarrow> heap_view \<Rightarrow> bool" where
  "decay v w \<longleftrightarrow> (\<forall>i. fades (v i) (w i))"

lemma decay_refl [simp]: "decay v v"
  by (simp add: decay_def)

lemma decay_trans [trans]: "decay u v \<Longrightarrow> decay v w \<Longrightarrow> decay u w"
  unfolding decay_def by (blast intro: fades_trans)

lemma decayD: "decay v w \<Longrightarrow> fades (v i) (w i)"
  by (simp add: decay_def)

lemma decay_update: "fades (v i) s \<Longrightarrow> decay v (v(i := s))"
  by (simp add: decay_def)

lemma release_view_decay:
  assumes "release_view i (v, q) = (w, q')"
  shows "decay v w" "payload_of (w j) = payload_of (v j)"
  using assms by (auto simp: release_view_def decay_def fades_def split: node_status.splits if_splits)

text \<open>A slot whose payload is detached and that is not yet on the free list.\<close>

definition detached :: "heap \<Rightarrow> u32 \<Rightarrow> bool" where
  "detached h index \<longleftrightarrow> unat index < length (heap_slots h) \<and> slot_state (heap_slots h ! unat index) = Vacant
     \<and> index \<notin> set (heap_free h)"

lemma detached_reclaim:
  assumes "detached h index" "reclaim_vacant_slot h other = Inr h'" "other \<noteq> index"
  shows "detached h' index"
proof -
  have "unat other \<noteq> unat index" using assms(3) by (simp add: word_unat_eq_iff)
  with assms show ?thesis
    by (auto simp: detached_def reclaim_vacant_slot_def Let_def set_state_def split: option.splits if_splits)
qed

lemma detached_set_state: "detached h index \<Longrightarrow> k \<noteq> unat index \<Longrightarrow> detached (set_state h k st) index"
  by (simp add: detached_def set_state_nth)

lemma detached_release:
  assumes "detached h index" "release_raw_no_drain h i = Inr h'"
  shows "detached h' index"
proof (cases "is_leaf i")
  case True
  with assms show ?thesis
    by (auto simp: release_raw_no_drain_def release_leaf_raw_no_drain_def and_then_eq_Inr Let_def set_leaf_strong_def
        detached_def underflow_def stale_def split: if_splits)
next
  case False
  let ?k = "unat (raw_index i)"
  have valid: "validate_slot_identity h i = Inr ?k" "?k < length (heap_slots h)"
    and kind: "state_kind (slot_state (heap_slots h ! ?k)) = Some (raw_kind i)"
    using assms(2) False validate_slot_identity_Inr by (auto simp: release_raw_no_drain_def and_then_eq_Inr)
  have other: "?k \<noteq> unat index" "raw_index i \<noteq> index" using assms(1) kind by (auto simp: detached_def)
  have zombie: "detached h'' index" if "reclaim_slot (set_state h ?k st) (raw_index i) = Inr h''" for st h''
    using that detached_reclaim [OF _ _ other(2)] detached_set_state [OF detached_set_state [OF assms(1) other(1)] other(1)]
    by (auto simp: reclaim_slot_def split: option.splits slot_state.splits if_splits)
  show ?thesis
    using assms(2) False valid zombie detached_set_state [OF assms(1) other(1)] assms(1)
    by (cases "slot_state (heap_slots h ! ?k)")
      (auto simp: release_raw_no_drain_def Let_def underflow_def stale_def detached_def split: if_splits)
qed

lemma release_ok:
  assumes "heap_ok h L (add_mset i R)"
  shows "\<exists>h'. release_raw_no_drain h i = Inr h' \<and> heap_ok h' L R \<and> decay (status h) (status h')
    \<and> (\<forall>j. payload_of (status h' j) = payload_of (status h j))
    \<and> (status h', zero_queue h') = release_view i (status h, zero_queue h)"
proof -
  have inv: "arena_inv h L" "set L = weak_ids (status h)" and counted: "counted (status h) (zero_queue h) (add_mset i R)"
    using assms by (simp_all add: heap_ok_def)
  have "\<exists>h'. release_raw_no_drain h i = Inr h' \<and> arena_inv h' L
    \<and> (status h', zero_queue h') = release_view i (status h, zero_queue h)"
  proof -
    have "i \<in># refs (status h) (add_mset i R)" by (simp add: refs_def)
    with counted show ?thesis
    proof (cases rule: counted_referenced)
      case (alive n p)
      then show ?thesis using release_leaf_refines [OF inv(1)] release_node_refines [OF inv] by (cases "is_leaf i") blast+
    next
      case (undead n)
      then have "\<not> is_leaf i" by (auto simp: status_def leaf_status_def Let_def split: if_splits)
      then show ?thesis using undead release_node_refines [OF inv] by blast
    qed
  qed
  then obtain h' where h': "release_raw_no_drain h i = Inr h'" "arena_inv h' L"
    "release_view i (status h, zero_queue h) = (status h', zero_queue h')" by auto
  note keep = release_view_decay [OF h'(3)]
  have "weak_ids (status h') = weak_ids (status h)" by (simp add: weak_ids_def keep(2))
  with h' keep inv(2) counted_release [OF counted h'(3)] show ?thesis by (auto simp: heap_ok_def)
qed

lemma release_each_ok:
  assumes "heap_ok h L (R + mset edges)"
  shows "\<exists>h'. release_each h edges = Inr h' \<and> heap_ok h' L R \<and> decay (status h) (status h')
    \<and> (\<forall>j. payload_of (status h' j) = payload_of (status h j)) \<and> (\<forall>index. detached h index \<longrightarrow> detached h' index)"
  using assms
proof (induction edges arbitrary: h)
  case (Cons i edges)
  then have "heap_ok h L (add_mset i (R + mset edges))" by simp
  from release_ok [OF this] obtain h1 where h1: "release_raw_no_drain h i = Inr h1" "heap_ok h1 L (R + mset edges)"
    "decay (status h) (status h1)" "\<forall>j. payload_of (status h1 j) = payload_of (status h j)" by blast
  from Cons.IH [OF h1(2)] obtain h' where "release_each h1 edges = Inr h'" "heap_ok h' L R"
    "decay (status h1) (status h')" "\<forall>j. payload_of (status h' j) = payload_of (status h1 j)"
    "\<forall>index. detached h1 index \<longrightarrow> detached h' index" by blast
  with h1 decay_trans detached_release [OF _ h1(1)] show ?case by auto
qed simp

section \<open>Atoms\<close>

text \<open>The atom references that payloads in the heap own.\<close>

definition status_atoms :: "node_status \<Rightarrow> u32 list" where
  "status_atoms s = (case payload_of s of Some (NodePayload data) \<Rightarrow> data_atoms data | _ \<Rightarrow> [])"

definition atoms_held :: "heap_view \<Rightarrow> u32 multiset" where
  "atoms_held v = (\<Sum>i \<in> UNIV. mset (status_atoms (v i)))"

lemma atoms_held_update: "atoms_held (v(i := s)) + mset (status_atoms (v i)) = atoms_held v + mset (status_atoms s)"
proof -
  have "atoms_held (v(i := s)) = mset (status_atoms s) + (\<Sum>j \<in> UNIV - {i}. mset (status_atoms (v j)))"
    by (simp add: atoms_held_def sum.remove [of UNIV i])
  moreover have "atoms_held v = mset (status_atoms (v i)) + (\<Sum>j \<in> UNIV - {i}. mset (status_atoms (v j)))"
    by (simp add: atoms_held_def sum.remove [of UNIV i])
  ultimately show ?thesis by simp
qed

lemma atoms_held_cong: "(\<And>j. payload_of (w j) = payload_of (v j)) \<Longrightarrow> atoms_held w = atoms_held v"
  by (simp add: atoms_held_def status_atoms_def)

section \<open>Finalization\<close>

fun note_finalized :: "raw_id \<Rightarrow> node_data \<Rightarrow> heap_cleanup \<Rightarrow> heap_cleanup" where
  "note_finalized i (ObjectData object) c =
     c\<lparr>finalized_objects := saturating_inc (finalized_objects c), cleanup_atoms := cleanup_atoms c @ object_atoms object\<rparr>"
| "note_finalized i (ShapeData shape) c =
     c\<lparr>finalized_shapes := saturating_inc (finalized_shapes c),
       finalized_shape_ids := finalized_shape_ids c @ [raw_node i], cleanup_atoms := cleanup_atoms c @ shape_atoms shape\<rparr>"
| "note_finalized i (VarRefData value) c =
     c\<lparr>finalized_var_refs := saturating_inc (finalized_var_refs c),
       cleanup_atoms := cleanup_atoms c @ option_list (raw_value_atom value)\<rparr>"
| "note_finalized i (ContextData context) c =
     c\<lparr>finalized_contexts := saturating_inc (finalized_contexts c), cleanup_atoms := cleanup_atoms c @ owner_atoms context\<rparr>"
| "note_finalized i (FunctionBytecodeData bytecode) c =
     c\<lparr>finalized_function_bytecodes := saturating_inc (finalized_function_bytecodes c),
       cleanup_atoms := cleanup_atoms c @ owner_atoms bytecode\<rparr>"

lemma note_finalized_atoms [simp]: "cleanup_atoms (note_finalized i data c) = cleanup_atoms c @ data_atoms data"
  by (cases data) simp_all

lemma finish_node_eq:
  assumes "raw_kind i = data_kind data"
  shows "finish_node h i data cleanup =
    and_then (if is_weak_object data then unlink_weak_object h (raw_node i) else Inr h) (\<lambda>h.
    and_then (release_each h (data_edges data)) (\<lambda>h. Inr (h, note_finalized i data cleanup)))"
  using assms by (cases data; cases i) (simp_all add: finish_node_def Let_def)

lemma arena_inv_core:
  assumes "core h' = core h" "linked h' L'" "\<forall>i \<in> set L'. node_index i \<notin> set (heap_free h)" "arena_wf h"
  shows "arena_inv h' L'"
proof -
  have "heap_free h' = heap_free h" "leaf_slots h' = leaf_slots h" "leaf_free h' = leaf_free h"
    using assms(1) by (simp_all add: core_def)
  with assms core_length [OF assms(1)] core_nth [OF assms(1)] show ?thesis
    by (auto simp: arena_inv_def arena_wf_def)
qed

lemma reclaim_detached:
  assumes "heap_ok h L R" "detached h index" "\<forall>j \<in> set L. node_index j \<noteq> index"
  shows "\<exists>h'. reclaim_vacant_slot h index = Inr h' \<and> heap_ok h' L R \<and> status h' = status h"
  using reclaim_vacant_refines [of h L index] assms by (auto simp: heap_ok_def detached_def)

abbreviation unlinked :: "raw_id \<Rightarrow> node_data \<Rightarrow> node_id list \<Rightarrow> node_id list" where
  "unlinked i data L \<equiv> (if is_weak_object data then drop_elem (raw_node i) L else L)"

lemma unlink_ok:
  assumes inv: "arena_inv h L" and L: "set L = weak_ids v" and v: "payload_of (v i) = Some (NodePayload data)"
    and i: "raw_kind i = data_kind data"
  shows "\<exists>h'. (if is_weak_object data then unlink_weak_object h (raw_node i) else Inr h) = Inr h' \<and> core h' = core h
    \<and> arena_inv h' (unlinked i data L)"
proof (cases "is_weak_object data")
  case True
  then have object: "i = RObject (raw_node i)" using i by (cases i; cases data) simp_all
  with L v True have "raw_node i \<in> set L" by (auto simp: weak_ids_def)
  with inv obtain h' where h': "unlink_weak_object h (raw_node i) = Inr h'" "linked h' (drop_elem (raw_node i) L)" "core h' = core h"
    using unlink_linked [of h L "raw_node i"] by (auto simp: arena_inv_def)
  moreover have "arena_inv h' (drop_elem (raw_node i) L)" by (rule arena_inv_core [OF h'(3,2)]) (use inv in \<open>auto simp: arena_inv_def\<close>)
  ultimately show ?thesis using True by simp
qed (use inv in simp)

lemma weak_ids_unlinked:
  assumes "set L = weak_ids v" "payload_of (v i) = Some (NodePayload data)" "raw_kind i = data_kind data"
    and "payload_of s = None"
  shows "set (unlinked i data L) = weak_ids (v(i := s))"
proof (cases "i = RObject (raw_node i)")
  case True
  have "weak_ids (v(RObject n := s)) = weak_ids v - {n}" for n using assms(4) by (auto simp: weak_ids_def)
  then have "weak_ids (v(i := s)) = weak_ids v - {raw_node i}" using True by metis
  moreover have "raw_node i \<in> weak_ids v \<longleftrightarrow> is_weak_object data" using True assms(2) by (simp add: weak_ids_def)
  ultimately show ?thesis using assms(1) by auto
next
  case False
  have "RObject n \<noteq> i" for n using False by auto
  then have "weak_ids (v(i := s)) = weak_ids v" by (simp add: weak_ids_def)
  moreover have "\<not> is_weak_object data" using False assms(3) by (cases i; cases data) simp_all
  ultimately show ?thesis using assms(1) by simp
qed

lemma detached_core: "core h' = core h \<Longrightarrow> detached h index \<Longrightarrow> detached h' index"
  using core_length [of h' h] core_nth [of h' h] by (auto simp: detached_def core_def)

lemma finish_ok:
  assumes "arena_inv h L" "set L = weak_ids v" "payload_of (v i) = Some (NodePayload data)" "raw_kind i = data_kind data"
    and v: "status h = v(i := s)" "payload_of s = None" and counted: "counted (status h) (zero_queue h) (R + mset (data_edges data))"
  shows "\<exists>h'. finish_node h i data cleanup = Inr (h', note_finalized i data cleanup) \<and> heap_ok h' (unlinked i data L) R
    \<and> decay (status h) (status h') \<and> atoms_held (status h') = atoms_held (status h)
    \<and> (\<forall>index. detached h index \<longrightarrow> detached h' index)"
proof -
  from unlink_ok [OF assms(1-4)] obtain h1 where h1: "core h1 = core h" "arena_inv h1 (unlinked i data L)"
    "(if is_weak_object data then unlink_weak_object h (raw_node i) else Inr h) = Inr h1" by blast
  have same: "status h1 = status h" "zero_queue h1 = zero_queue h" by (rule core_status [OF h1(1)]) (use h1(1) in \<open>simp add: core_def\<close>)
  have "heap_ok h1 (unlinked i data L) (R + mset (data_edges data))"
    using h1(2) counted weak_ids_unlinked [OF assms(2-4) v(2)] unfolding heap_ok_def same v(1) by simp
  from release_each_ok [OF this] obtain h' where h': "release_each h1 (data_edges data) = Inr h'"
    "heap_ok h' (unlinked i data L) R" "decay (status h1) (status h')"
    "\<forall>j. payload_of (status h' j) = payload_of (status h1 j)" "\<forall>index. detached h1 index \<longrightarrow> detached h' index" by blast
  have "finish_node h i data cleanup = Inr (h', note_finalized i data cleanup)"
    unfolding finish_node_eq [OF assms(4)] h1(3) and_then_Inr h'(1) ..
  moreover have "atoms_held (status h') = atoms_held (status h)" using h'(4) same by (intro atoms_held_cong) simp
  ultimately show ?thesis using h'(2,3,5) detached_core [OF h1(1)] unfolding same by blast
qed

lemma unlinked_index:
  assumes "set L = weak_ids (status h)" "payload_of (status h i) = Some (NodePayload data)" "raw_kind i = data_kind data"
    "status h i \<noteq> Absent" "\<not> is_leaf i"
  shows "\<forall>j \<in> set (unlinked i data L). node_index j \<noteq> raw_index i"
proof (rule ballI, rule notI)
  fix j assume "j \<in> set (unlinked i data L)" and same: "node_index j = raw_index i"
  then have j: "j \<in> weak_ids ((status h)(i := Absent))" using weak_ids_unlinked [OF assms(1-3), of Absent] by simp
  then have "RObject j \<noteq> i" by (auto simp: weak_ids_def)
  with j have "status h (RObject j) \<noteq> Absent" by (auto simp: weak_ids_def)
  then have "RObject j = i" using assms(4,5) same by (intro status_inj [of h]) auto
  with \<open>RObject j \<noteq> i\<close> show False ..
qed

lemma drain_node_ok:
  assumes inv: "arena_inv h L" "set L = weak_ids (status h)" and counted: "counted (status h) (i # zero_queue h) R"
    and i: "\<not> is_leaf i"
  shows "\<exists>h' L' cleanup'. drain_node h i cleanup = Inr (h', cleanup') \<and> heap_ok h' L' R \<and> decay (status h) (status h')
    \<and> atoms_held (status h') + mset (cleanup_atoms cleanup') = atoms_held (status h) + mset (cleanup_atoms cleanup)"
proof -
  let ?k = "unat (raw_index i)"
  obtain p where queued: "status h i = Queued p" using countedD [OF counted, of i] by (cases "status h i") auto
  then have here: "status h i \<noteq> Absent" by simp
  then obtain s where k: "?k < length (heap_slots h)" and s: "s = heap_slots h ! ?k" "names_slot i s"
    "status h i = state_status (slot_state s)" "validate_slot_identity h i = Inr ?k" using statusE [OF here i] by metis
  then obtain node where node: "slot_state s = ZeroQueued node" "p = NodePayload (node_payload node)"
    using queued by (cases "slot_state s") auto
  let ?data = "node_payload node" let ?h = "set_state h ?k Vacant"
  have kind: "raw_kind i = data_kind ?data" using s(2) node(1) by (simp add: names_slot_def)
  have zero: "node_strong node = 0" using inv(1) k s(1) node(1) by (auto simp: arena_inv_def arena_wf_def dest!: spec [of _ ?k])
  have v: "status ?h = (status h)(i := Absent)" using status_set_state [OF here i, of Vacant] by simp
  have "arena_inv ?h L" by (rule arena_inv_set_state [OF inv(1)]) simp_all
  moreover have "counted (status ?h) (zero_queue ?h) (R + mset (data_edges ?data))"
    using counted_detach [OF counted queued] node(2) by (simp add: v)
  ultimately obtain h1 where h1: "finish_node ?h i ?data cleanup = Inr (h1, note_finalized i ?data cleanup)"
    "heap_ok h1 (unlinked i ?data L) R" "decay (status ?h) (status h1)" "atoms_held (status h1) = atoms_held (status ?h)"
    "\<forall>index. detached ?h index \<longrightarrow> detached h1 index"
    using finish_ok [of ?h L "status h" i ?data Absent R cleanup] inv(2) queued node(2) kind v by auto
  have "detached ?h (raw_index i)"
    using k occupied_not_free [OF _ here i] inv(1) by (simp add: detached_def set_state_nth arena_inv_def)
  moreover have "\<forall>j \<in> set (unlinked i ?data L). node_index j \<noteq> raw_index i"
    using unlinked_index [OF inv(2) _ kind here i] queued node(2) by simp
  ultimately obtain h' where h': "reclaim_vacant_slot h1 (raw_index i) = Inr h'" "heap_ok h' (unlinked i ?data L) R" "status h' = status h1"
    using reclaim_detached [OF h1(2), of "raw_index i"] h1(5) by auto
  have "drain_node h i cleanup = Inr (h', note_finalized i ?data cleanup)"
    using k s(1,4) node(1) zero h1(1) h'(1) by (simp add: drain_node_def)
  moreover have "atoms_held (status h') + mset (cleanup_atoms (note_finalized i ?data cleanup))
      = atoms_held (status h) + mset (cleanup_atoms cleanup)"
    using atoms_held_update [of "status h" i Absent] queued node(2) h1(4) h'(3) v by (simp add: status_atoms_def)
  moreover have "decay (status h) (status h')"
    using decay_trans [OF _ h1(3)] decay_update [of "status h" i Absent] queued fades_def h'(3) v by simp
  ultimately show ?thesis using h'(2) by blast
qed

lemma bump_leaf_refines:
  assumes inv: "arena_inv h L" and k: "unat index < length (leaf_slots h)" "leaf_value (leaf_slots h ! unat index) = LeafVacant"
    and free: "index \<notin> set (leaf_free h)"
  shows "arena_inv (bump_leaf h index slot) L" "status (bump_leaf h index slot) = status h"
    "zero_queue (bump_leaf h index slot) = zero_queue h"
proof -
  have other: "\<forall>j \<in> set (leaf_free h). unat j \<noteq> unat index \<and> unat index \<noteq> unat j" using free by (metis word_unat_eq_iff)
  have "linked (bump_leaf h index slot) L"
    using inv by (subst linked_cong [of _ h]) (auto simp: arena_inv_def bump_leaf_def split: option.splits)
  then show "arena_inv (bump_leaf h index slot) L"
    using inv k free other by (auto simp: arena_inv_def arena_wf_def bump_leaf_def nth_list_update split: option.splits)
  show "status (bump_leaf h index slot) = status h"
    using k by (cases "checked_add_u32 (leaf_generation slot) 1")
      (auto simp: bump_leaf_def intro!: status_write_vacant_leaf [of h "unat index"])
  show "zero_queue (bump_leaf h index slot) = zero_queue h" by (simp add: bump_leaf_def split: option.splits)
qed

lemma reclaim_leaf_refines:
  assumes inv: "arena_inv h L" and i: "status h i \<noteq> Absent" "is_leaf i"
  shows "\<exists>h'. reclaim_leaf_vacant (set_leaf h (unat (raw_index i)) strong LeafVacant) (raw_index i) = Inr h' \<and> arena_inv h' L
    \<and> status h' = (status h)(i := Absent) \<and> zero_queue h' = zero_queue h"
  using i
proof (rule status_leafE)
  let ?k = "unat (raw_index i)" let ?h = "set_leaf h ?k strong LeafVacant"
  assume k: "?k < length (leaf_slots h)" and named: "names_leaf i (leaf_slots h ! ?k)"
  have free: "raw_index i \<notin> set (leaf_free h)" using inv named by (auto simp: arena_inv_def arena_wf_def names_leaf_def)
  have "arena_inv ?h L" by (rule arena_inv_set_leaf [OF inv]) simp
  with k free have "arena_inv (bump_leaf ?h (raw_index i) slot) L" "status (bump_leaf ?h (raw_index i) slot) = status ?h"
    "zero_queue (bump_leaf ?h (raw_index i) slot) = zero_queue h" for slot
    using bump_leaf_refines [of ?h L "raw_index i" slot] by (simp_all add: set_leaf_nth)
  moreover have "status ?h = (status h)(i := Absent)" using status_set_leaf [OF i, of LeafVacant strong] by simp
  ultimately show ?thesis using k by (simp add: reclaim_leaf_vacant_def vec_get_opt_def set_leaf_nth)
qed

lemma finish_leaf_atoms: "finish_leaf i value c = Inr c' \<Longrightarrow> cleanup_atoms c' = cleanup_atoms c"
  by (cases "(i, value, c)" rule: finish_leaf.cases) auto

lemma finish_leaf_total: "leaf_kind value = Some (raw_kind i) \<Longrightarrow> \<exists>c'. finish_leaf i value c = Inr c'"
  by (cases i; cases "value") auto

lemma drain_leaf_ok:
  assumes inv: "arena_inv h L" "set L = weak_ids (status h)" and counted: "counted (status h) (i # zero_queue h) R"
    and i: "is_leaf i"
  shows "\<exists>h' cleanup'. drain_leaf h i cleanup = Inr (h', cleanup') \<and> heap_ok h' L R \<and> decay (status h) (status h')
    \<and> atoms_held (status h') + mset (cleanup_atoms cleanup') = atoms_held (status h) + mset (cleanup_atoms cleanup)"
proof -
  let ?k = "unat (raw_index i)"
  obtain p where queued: "status h i = Queued p" using countedD [OF counted, of i] by (cases "status h i") auto
  then have here: "status h i \<noteq> Absent" by simp
  then obtain s where k: "?k < length (leaf_slots h)" and s: "s = leaf_slots h ! ?k" "names_leaf i s"
    "status h i = leaf_status s" "validate_leaf_identity h i = Inr ?k" using status_leafE [OF here i] by metis
  then have zero: "leaf_strong s = 0" "p = LeafPayload (leaf_value s)" and kind: "leaf_kind (leaf_value s) = Some (raw_kind i)"
    using queued by (auto simp: leaf_status_def names_leaf_def split: if_splits)
  obtain c where c: "finish_leaf i (leaf_value s) cleanup = Inr c" using finish_leaf_total [OF kind] by blast
  obtain h' where h': "reclaim_leaf_vacant (set_leaf h ?k 0 LeafVacant) (raw_index i) = Inr h'" "arena_inv h' L"
    "status h' = (status h)(i := Absent)" "zero_queue h' = zero_queue h"
    using reclaim_leaf_refines [OF inv(1) here i] by blast
  have plain: "weak_ids (status h') = weak_ids (status h)" "atoms_held (status h') = atoms_held (status h)"
    using atoms_held_update [of "status h" i Absent] queued zero(2) h'(3) by (auto simp: weak_ids_def status_atoms_def)
  have "counted (status h') (zero_queue h') R"
    using counted_detach [OF counted queued] zero(2) h'(3,4) by simp
  moreover have "drain_leaf h i cleanup = Inr (h', c)"
    using k s(1,4) zero c h'(1) by (simp add: drain_leaf_def)
  moreover have "decay (status h) (status h')" using decay_update [of "status h" i Absent] queued fades_def h'(3) by simp
  ultimately show ?thesis using h'(2) plain inv(2) finish_leaf_atoms [OF c] by (auto simp: heap_ok_def)
qed

text \<open>Draining the queue never fails; it empties the queue and hands every released atom to the caller.\<close>

lemma drain_loop_ok:
  assumes "heap_ok h L R"
  shows "\<exists>h' L' cleanup'. drain_loop h cleanup = Inr (h', cleanup') \<and> heap_ok h' L' R \<and> zero_queue h' = []
    \<and> decay (status h) (status h')
    \<and> atoms_held (status h') + mset (cleanup_atoms cleanup') = atoms_held (status h) + mset (cleanup_atoms cleanup)"
  using assms
proof (induction h cleanup arbitrary: L rule: drain_loop.induct)
  case (1 h cleanup)
  show ?case
  proof (cases "zero_queue h")
    case Nil
    then have "drain_loop h cleanup = Inr (h, cleanup)" by (simp add: drain_loop.simps)
    with Nil 1(2) show ?thesis by auto
  next
    case (Cons i rest)
    let ?h = "h\<lparr>zero_queue := rest\<rparr>"
    have inv: "arena_inv ?h L" "set L = weak_ids (status ?h)" and counted: "counted (status ?h) (i # zero_queue ?h) R"
      using 1(2) Cons by (simp_all add: heap_ok_def)
    obtain h1 L1 c1 where h1: "drain_step ?h i cleanup = Inr (h1, c1)" "heap_ok h1 L1 R" "decay (status h) (status h1)"
      "atoms_held (status h1) + mset (cleanup_atoms c1) = atoms_held (status h) + mset (cleanup_atoms cleanup)"
      using drain_node_ok [OF inv counted, of cleanup] drain_leaf_ok [OF inv counted, of cleanup]
      by (cases "is_leaf i") (auto simp: drain_step_def)
    from 1(1) [OF Cons h1(1) refl h1(2)] obtain h' L' c' where h': "drain_loop h1 c1 = Inr (h', c')" "heap_ok h' L' R"
      "zero_queue h' = []" "decay (status h1) (status h')"
      "atoms_held (status h') + mset (cleanup_atoms c') = atoms_held (status h1) + mset (cleanup_atoms c1)" by blast
    have "drain_loop h cleanup = Inr (h', c')" using Cons h1(1) h'(1) by (simp add: drain_loop.simps [of h])
    with h' h1(4) decay_trans [OF h1(3) h'(4)] show ?thesis by auto
  qed
qed

lemma drain_ok:
  assumes "heap_ok h L R"
  shows "\<exists>h' L' cleanup. drain_zero_queue h = Inr (h', cleanup) \<and> heap_ok h' L' R \<and> zero_queue h' = []
    \<and> decay (status h) (status h')
    \<and> atoms_held (status h') + mset (cleanup_atoms cleanup) = atoms_held (status h)"
proof (cases "zero_queue h = []")
  case True
  with assms show ?thesis by (auto simp: drain_zero_queue_def default_cleanup_def)
next
  case False
  with drain_loop_ok [OF assms, of default_cleanup] show ?thesis by (simp add: drain_zero_queue_def default_cleanup_def)
qed

end
