(* ===== verification/Heap_Retain.thy ===== *)
theory Heap_Retain
  imports Heap_Refinement
begin

text \<open>
  Retaining: the checked, the saturating and the transactional retain against the abstract heap. A
  transaction either retains every edge of a payload or changes nothing, and its second phase never
  panics once the first has accepted.
\<close>

definition retain_all :: "raw_id multiset \<Rightarrow> heap_view \<Rightarrow> heap_view" where
  "retain_all M v = (\<lambda>i. case v i of Alive n p \<Rightarrow> Alive (n + count M i) p | s \<Rightarrow> s)"

definition room :: "heap_view \<Rightarrow> raw_id \<Rightarrow> nat \<Rightarrow> bool" where
  "room v i k \<longleftrightarrow> (case v i of Alive n _ \<Rightarrow> n + k < 2 ^ 32 | _ \<Rightarrow> False)"

lemma roomE: assumes "room v i k" obtains n p where "v i = Alive n p" "n + k < 2 ^ 32"
  using assms that by (cases "v i") (auto simp: room_def)

lemma retain_all_empty [simp]: "retain_all {#} v = v"
  by (rule ext) (simp add: retain_all_def split: node_status.split)

lemma retain_all_union: "retain_all (M + N) v = retain_all N (retain_all M v)"
  by (rule ext) (simp add: retain_all_def split: node_status.split)

lemma payload_of_retain_all [simp]: "payload_of (retain_all M v i) = payload_of (v i)"
  by (simp add: retain_all_def split: node_status.split)

lemma retain_all_absent [simp]:
  "retain_all M v i = Absent \<longleftrightarrow> v i = Absent" "retain_all M v i = Reserved \<longleftrightarrow> v i = Reserved"
  by (simp_all add: retain_all_def split: node_status.split)

lemma room_retain_all: "room (retain_all M v) i k \<longleftrightarrow> room v i (count M i + k)"
  by (simp add: room_def retain_all_def add.assoc split: node_status.split)

lemma retain_all_single: "v i = Alive n p \<Longrightarrow> retain_all (replicate_mset k i) v = v(i := Alive (n + k) p)"
  by (rule ext) (simp add: retain_all_def split: node_status.split)

lemma weak_ids_retain_all [simp]: "weak_ids (retain_all M v) = weak_ids v"
  by (simp add: weak_ids_def)

lemma counted_retain_all:
  assumes "counted v q R" "\<forall>i. i \<in># M \<longrightarrow> room v i (count M i)"
  shows "counted (retain_all M v) q (R + M)"
proof -
  have "status_refs (retain_all M v i) = status_refs (v i)" for i by (simp add: retain_all_def split: node_status.split)
  then have held: "held (retain_all M v) = held v" by (simp add: held_def)
  have "count_ok (retain_all M v i) (count (refs (retain_all M v) (R + M)) i) (i \<in> set q)" for i
  proof (cases "i \<in># M")
    case True
    then obtain n p where i: "v i = Alive n p" "n + count M i < 2 ^ 32" using assms(2) roomE by blast
    then have "retain_all M v i = Alive (n + count M i) p" by (simp add: retain_all_def)
    with countedD [OF assms(1), of i] i show ?thesis by (auto simp: refs_def held)
  next
    case False
    then have none: "count M i = 0" by (simp add: count_eq_zero_iff)
    then have "retain_all M v i = v i" by (simp add: retain_all_def split: node_status.split)
    with countedD [OF assms(1), of i] none show ?thesis by (simp add: refs_def held)
  qed
  with assms(1) show ?thesis by (simp add: counted_def)
qed

lemma heap_ok_retain_all:
  assumes "heap_ok h L R" "arena_inv h' L" "status h' = retain_all M (status h)" "zero_queue h' = zero_queue h"
    and "\<forall>i. i \<in># M \<longrightarrow> room (status h) i (count M i)"
  shows "heap_ok h' L (R + M)"
  using assms counted_retain_all [of "status h" "zero_queue h" R M] by (simp add: heap_ok_def)

section \<open>Live handles\<close>

lemma live_node_cases:
  assumes "\<not> is_leaf i"
  obtains (live) node where "live_node h i = Inr node" "unat (raw_index i) < length (heap_slots h)"
      "slot_state (heap_slots h ! unat (raw_index i)) = Live node"
      "names_slot i (heap_slots h ! unat (raw_index i))"
      "status h i = Alive (unat (node_strong node)) (NodePayload (node_payload node))"
    | (dead) e where "live_node h i = Inl (Err e)" "\<And>n p. status h i \<noteq> Alive n p"
proof (cases "validate_slot_identity h i")
  case (Inl e)
  then have "\<exists>e'. e = Err e'"
    by (auto simp: validate_slot_identity_def stale_def Let_def split: option.splits if_splits)
  moreover have "status h i = Absent"
  proof (rule ccontr)
    assume "status h i \<noteq> Absent"
    then show False by (rule statusE [OF _ assms]) (simp add: Inl)
  qed
  ultimately show ?thesis using that(2) Inl by (auto simp: live_node_def)
next
  case (Inr index)
  note valid = validate_slot_identity_Inr [OF Inr]
  then have st: "status h i = state_status (slot_state (heap_slots h ! index))" "names_slot i (heap_slots h ! index)"
    using assms by (auto simp: status_def names_slot_def Let_def)
  show ?thesis
  proof (cases "\<exists>node. slot_state (heap_slots h ! index) = Live node")
    case True
    then obtain node where "slot_state (heap_slots h ! index) = Live node" ..
    with that(1) [of node] valid Inr st show ?thesis by (simp add: live_node_def)
  next
    case False
    then have "live_node h i = stale i" "\<And>n p. status h i \<noteq> Alive n p"
      using Inr valid st(1) by (cases "slot_state (heap_slots h ! index)"; simp add: live_node_def)+
    with that(2) show ?thesis by (simp add: stale_def)
  qed
qed

lemma live_leaf_cases:
  assumes "is_leaf i"
  obtains (live) slot where "live_leaf_slot h i = Inr slot" "unat (raw_index i) < length (leaf_slots h)"
      "slot = leaf_slots h ! unat (raw_index i)" "names_leaf i slot" "leaf_is_live slot"
      "status h i = Alive (unat (leaf_strong slot)) (LeafPayload (leaf_value slot))"
    | (dead) e where "live_leaf_slot h i = Inl (Err e)" "\<And>n p. status h i \<noteq> Alive n p"
proof (cases "validate_leaf_identity h i")
  case (Inl e)
  then have "\<exists>e'. e = Err e'"
    by (auto simp: validate_leaf_identity_def stale_def Let_def split: option.splits if_splits)
  moreover have "status h i = Absent"
  proof (rule ccontr)
    assume "status h i \<noteq> Absent"
    then show False by (rule status_leafE [OF _ assms]) (simp add: Inl)
  qed
  ultimately show ?thesis using that(2) Inl by (auto simp: live_leaf_slot_def)
next
  case (Inr index)
  note valid = validate_leaf_identity_Inr [OF Inr]
  then have st: "status h i = leaf_status (leaf_slots h ! index)" "names_leaf i (leaf_slots h ! index)"
    using assms by (auto simp: status_def names_leaf_def Let_def)
  then show ?thesis using that valid Inr
    by (cases "leaf_is_live (leaf_slots h ! index)")
      (auto simp: live_leaf_slot_def leaf_is_live_def leaf_status_def names_leaf_def stale_def)
qed

lemma set_strong_refines:
  assumes "arena_inv h L" "status h i = Alive n p"
  obtains (node) node where "\<not> is_leaf i" "live_node h i = Inr node" "live_node_fast h i = Inr node" "n = unat (node_strong node)"
      "\<And>s. arena_inv (set_node_strong h i node s) L"
      "\<And>s. status (set_node_strong h i node s) = (status h)(i := Alive (unat s) p)"
      "\<And>s. zero_queue (set_node_strong h i node s) = zero_queue h"
    | (leaf) slot where "is_leaf i" "live_leaf_slot h i = Inr slot" "live_leaf_fast h i = Inr slot" "n = unat (leaf_strong slot)"
      "\<And>s. arena_inv (set_leaf_strong h i slot s) L"
      "\<And>s. s \<noteq> 0 \<Longrightarrow> status (set_leaf_strong h i slot s) = (status h)(i := Alive (unat s) p)"
      "\<And>s. zero_queue (set_leaf_strong h i slot s) = zero_queue h"
proof -
  have here: "status h i \<noteq> Absent" using assms by simp
  show thesis
  proof (cases "is_leaf i")
    case True
    then show ?thesis
    proof (cases rule: live_leaf_cases [where h = h])
      case (live slot)
      have kind: "leaf_kind (leaf_value slot) = Some (raw_kind i)" using live(4) by (simp add: names_leaf_def)
      have "arena_inv (set_leaf_strong h i slot s) L" for s
        unfolding set_leaf_strong_def using kind live(3) by (intro arena_inv_set_leaf [OF assms(1)]) auto
      moreover have "status (set_leaf_strong h i slot s) = (status h)(i := Alive (unat s) p)" if "s \<noteq> 0" for s
        using status_set_leaf [OF here True, of "leaf_value slot" s] kind that assms(2) live(6) by (simp add: set_leaf_strong_def)
      ultimately show ?thesis
        using live assms(2) by (intro leaf [OF True, of slot]) (simp_all add: set_leaf_strong_def live_leaf_fast_def)
    qed (use assms in blast)
  next
    case False
    then show ?thesis
    proof (cases rule: live_node_cases [where h = h])
      case (live node)
      have kind: "data_kind (node_payload node) = raw_kind i" using live(3,4) by (simp add: names_slot_def)
      have "arena_inv (set_node_strong h i node s) L" for s
        unfolding set_node_strong_def using live(3) by (intro arena_inv_set_state [OF assms(1)]) auto
      moreover have "status (set_node_strong h i node s) = (status h)(i := Alive (unat s) p)" for s
        using status_set_state [OF here False, of "Live (node\<lparr>node_strong := s\<rparr>)"] kind assms(2) live(5)
        by (simp add: set_node_strong_def)
      ultimately show ?thesis
        using live assms(2) by (intro node [OF False, of node]) (simp_all add: set_node_strong_def live_node_fast_def)
    qed (use assms in blast)
  qed
qed

section \<open>Retaining one reference\<close>

lemma checked_add_Some: "unat a + unat b < 2 ^ 32 \<Longrightarrow> \<exists>c. checked_add_u32 a b = Some c \<and> unat c = unat a + unat b"
  by (simp add: checked_add_u32_def unat_word_ariths)

lemma retain_raw_ok:
  assumes "arena_inv h L" "room (status h) i (unat k)" "\<And>n p. status h i = Alive n p \<Longrightarrow> 0 < n"
  shows "\<exists>h'. retain_raw h i k = Inr h' \<and> arena_inv h' L \<and> status h' = retain_all (replicate_mset (unat k) i) (status h)
    \<and> zero_queue h' = zero_queue h"
proof -
  obtain n p where alive: "status h i = Alive n p" and fits: "n + unat k < 2 ^ 32" using roomE [OF assms(2)] .
  have n: "0 < n" using assms(3) alive by blast
  show ?thesis using assms(1) alive
  proof (cases rule: set_strong_refines)
    case (node node)
    with fits obtain s where "checked_add_u32 (node_strong node) k = Some s" "unat s = n + unat k"
      using checked_add_Some by metis
    with node alive show ?thesis by (simp add: retain_raw_def retain_all_single)
  next
    case (leaf slot)
    with fits obtain s where s: "checked_add_u32 (leaf_strong slot) k = Some s" "unat s = n + unat k"
      using checked_add_Some by metis
    moreover have "s \<noteq> 0" using s(2) n by auto
    ultimately show ?thesis using leaf alive by (simp add: retain_raw_def retain_leaf_raw_def retain_all_single)
  qed
qed

lemma preflight_room:
  "(preflight_edge_retain h i k = Inr () \<and> room (status h) i (unat k))
   \<or> (\<exists>e. preflight_edge_retain h i k = Inl (Err e)) \<and> \<not> room (status h) i (unat k)"
proof (cases "is_leaf i")
  case True
  then show ?thesis
    by (cases rule: live_leaf_cases [where h = h])
      (auto simp: True preflight_edge_retain_def preflight_leaf_edge_retain_def checked_add_u32_def room_def split: node_status.split)
next
  case False
  then show ?thesis
    by (cases rule: live_node_cases [where h = h])
      (auto simp: False preflight_edge_retain_def checked_add_u32_def room_def split: node_status.split)
qed

text \<open>The fast retain saturates at the immortal count.\<close>

lemma retain_raw_fast_ok:
  assumes "heap_ok h L R" "status h i = Alive n p"
  shows "\<exists>h'. retain_raw_fast h i = Inr h' \<and> heap_ok h' L (add_mset i R)
    \<and> status h' = (status h)(i := Alive (min immortal (n + 1)) p) \<and> zero_queue h' = zero_queue h"
proof -
  have inv: "arena_inv h L" "set L = weak_ids (status h)" and counted: "counted (status h) (zero_queue h) R"
    using assms(1) by (simp_all add: heap_ok_def)
  have n: "0 < n" using countedD [OF counted, of i] assms(2) by simp
  let ?v = "(status h)(i := Alive (min immortal (n + 1)) p)"
  have sat: "unat (saturating_add_one s) = min immortal (unat s + 1)" "saturating_add_one s \<noteq> 0" if "0 < unat s" for s
  proof -
    have bound: "unat s \<le> immortal" using unsigned_less [of s, where ?'a = nat] by simp
    show *: "unat (saturating_add_one s) = min immortal (unat s + 1)"
      using bound by (cases "unat s = immortal")
        (auto simp: saturating_add_one_def strong_immortal unat_word_ariths)
    show "saturating_add_one s \<noteq> 0" using * that by auto
  qed
  have "\<exists>h'. retain_raw_fast h i = Inr h' \<and> arena_inv h' L \<and> status h' = ?v \<and> zero_queue h' = zero_queue h"
    using inv(1) assms(2)
  proof (cases rule: set_strong_refines)
    case (node node)
    with sat(1) n show ?thesis by (simp add: retain_raw_fast_def)
  next
    case (leaf slot)
    with sat n show ?thesis by (simp add: retain_raw_fast_def retain_leaf_fast_def)
  qed
  moreover have held: "held ((status h)(i := Alive m p)) = held (status h)" for m
    using assms(2) by (intro held_update_same) simp
  have "counted ?v (zero_queue h) (add_mset i R)"
  proof (rule counted_add [OF counted, of _ i])
    show "held ?v = held (status h)" by (rule held)
    show "count_ok (?v i) (count (refs ?v (add_mset i R)) i) (i \<in> set (zero_queue h))"
      using countedD [OF counted, of i] assms(2) by (auto simp: refs_def held)
  qed (use counted_distinct [OF counted] in auto)
  moreover have "weak_ids ?v = weak_ids (status h)" using assms(2) by (intro weak_ids_update) simp
  ultimately show ?thesis using inv(2) by (auto simp: heap_ok_def)
qed

section \<open>Transactions\<close>

lemma alive_positive: "heap_ok h L R \<Longrightarrow> status h i = Alive n p \<Longrightarrow> 0 < n"
  using countedD [of "status h" "zero_queue h" R i] by (simp add: heap_ok_def)

abbreviation retained :: "(raw_id \<Rightarrow> u32) \<Rightarrow> raw_id list \<Rightarrow> raw_id multiset" where
  "retained additional edges \<equiv> sum_list (map (\<lambda>e. replicate_mset (unat (additional e)) e) edges)"

lemma retain_each_ok:
  assumes "heap_ok h L R" "\<forall>e \<in> set edges. room (status h) e (count (retained additional edges) e)"
  shows "\<exists>h'. retain_each h edges additional = Inr h' \<and> heap_ok h' L (R + retained additional edges)
    \<and> status h' = retain_all (retained additional edges) (status h) \<and> zero_queue h' = zero_queue h"
  using assms
proof (induction edges arbitrary: h R)
  case (Cons e edges)
  let ?M = "replicate_mset (unat (additional e)) e" let ?N = "retained additional edges"
  have ok: "room (status h) e (unat (additional e) + count ?N e)" using Cons.prems(2) by simp
  then have room: "room (status h) e (unat (additional e))" by (auto simp: room_def split: node_status.splits)
  have inv: "arena_inv h L" using Cons.prems(1) by (simp add: heap_ok_def)
  obtain h1 where h1: "retain_raw h e (additional e) = Inr h1" "arena_inv h1 L"
      "status h1 = retain_all ?M (status h)" "zero_queue h1 = zero_queue h"
    using retain_raw_ok [OF inv room] alive_positive [OF Cons.prems(1)] by blast
  have "\<forall>i. i \<in># ?M \<longrightarrow> room (status h) i (count ?M i)" using room by (auto split: if_splits)
  from heap_ok_retain_all [OF Cons.prems(1) h1(2,3,4) this] have ok1: "heap_ok h1 L (R + ?M)" .
  have "\<forall>i \<in> set edges. room (status h1) i (count ?N i)"
    using Cons.prems(2) ok unfolding h1(3) room_retain_all by (auto simp: count_replicate_mset split: if_splits)
  from Cons.IH [OF ok1 this] obtain h' where "retain_each h1 edges additional = Inr h'" "heap_ok h' L (R + ?M + ?N)"
    "status h' = retain_all ?N (status h1)" "zero_queue h' = zero_queue h1" by blast
  with h1 show ?case by (auto simp: expect_def retain_all_union add.assoc)
qed simp

lemma preflight_each_iff:
  "(preflight_each h edges additional = Inr () \<and> (\<forall>e \<in> set edges. room (status h) e (unat (additional e))))
   \<or> (\<exists>e. preflight_each h edges additional = Inl (Err e)) \<and> \<not> (\<forall>e \<in> set edges. room (status h) e (unat (additional e)))"
proof (induction edges)
  case (Cons e edges)
  then show ?case using preflight_room [of h e "additional e"] by auto
qed simp

lemma count_retained_distinct:
  "distinct edges \<Longrightarrow> count (retained additional edges) i = (if i \<in> set edges then unat (additional i) else 0)"
  by (induction edges) auto

lemma retained_one: "retained (\<lambda>_. 1) edges = mset edges"
  by (induction edges) auto

lemma retained_counts:
  assumes "distinct order" "set order = set edges" "\<forall>e \<in> set edges. count_list edges e < 2 ^ 32"
  shows "retained (edge_count edges) order = mset edges"
proof (rule multiset_eqI)
  fix i
  have "unat (edge_count edges i) = count_list edges i" if "i \<in> set edges"
    using assms(3) that by (simp add: edge_count_def unsigned_of_nat take_bit_nat_eq_self)
  then show "count (retained (edge_count edges) order) i = count (mset edges) i"
    using assms(1,2) by (simp add: count_retained_distinct count_mset count_list_0_iff)
qed

definition edges_fit :: "heap \<Rightarrow> raw_id list \<Rightarrow> bool" where
  "edges_fit h edges \<longleftrightarrow> (\<forall>e \<in> set edges. room (status h) e (count (mset edges) e))"

lemma retain_short:
  assumes "length edges \<le> 2" "edges \<noteq> []"
  shows "(edges_fit h edges \<and> retain_edges_transactionally order h edges = retain_each h edges (\<lambda>_. 1))
    \<or> \<not> edges_fit h edges \<and> (\<exists>e. retain_edges_transactionally order h edges = Inl (Err e))"
proof -
  consider a where "edges = [a]" | a where "edges = [a, a]" | a b where "edges = [a, b]" "a \<noteq> b"
    using assms by (cases edges; cases "tl edges") (fastforce+)
  then show ?thesis
  proof cases
    case 1
    then show ?thesis using preflight_room [of h a 1] by (auto simp: retain_edges_transactionally_def edges_fit_def)
  next
    case 2
    then show ?thesis using preflight_room [of h a 2]
      by (auto simp: retain_edges_transactionally_def edges_fit_def numeral_2_eq_2 [symmetric])
  next
    case 3
    then show ?thesis using preflight_room [of h a 1] preflight_room [of h b 1]
      by (auto simp: retain_edges_transactionally_def edges_fit_def)
  qed
qed

lemma retain_edges_ok:
  assumes ok: "heap_ok h L R" and order: "distinct (hash_order edges)" "set (hash_order edges) = set edges"
  shows "(edges_fit h edges \<and> (\<exists>h'. retain_edges_transactionally hash_order h edges = Inr h' \<and> heap_ok h' L (R + mset edges)
        \<and> status h' = retain_all (mset edges) (status h) \<and> zero_queue h' = zero_queue h))
    \<or> \<not> edges_fit h edges \<and> (\<exists>e. retain_edges_transactionally hash_order h edges = Inl (Err e))"
proof -
  have each: "\<exists>h'. retain_each h es additional = Inr h' \<and> heap_ok h' L (R + mset edges)
      \<and> status h' = retain_all (mset edges) (status h) \<and> zero_queue h' = zero_queue h"
    if "edges_fit h edges" "retained additional es = mset edges" "set es = set edges" for es additional
    using retain_each_ok [OF ok, of es additional] that by (simp add: edges_fit_def)
  consider "edges = []" | "length edges \<le> 2" "edges \<noteq> []" | (overflow) e where "2 < length edges" "e \<in> set edges" "2 ^ 32 \<le> count_list edges e"
    | (many) "2 < length edges" "\<forall>e \<in> set edges. count_list edges e < 2 ^ 32"
    by (metis not_le)
  then show ?thesis
  proof cases
    case 1
    with ok show ?thesis by (simp add: retain_edges_transactionally_def edges_fit_def)
  next
    case 2
    then show ?thesis using retain_short [of edges h hash_order] each [OF _ retained_one refl] by auto
  next
    case overflow
    then have "\<not> room (status h) e (count (mset edges) e)" by (auto simp: room_def count_mset split: node_status.splits)
    with overflow show ?thesis by (auto simp: retain_edges_transactionally_def edges_fit_def)
  next
    case many
    have exact: "retained (edge_count edges) (hash_order edges) = mset edges" by (rule retained_counts [OF order many(2)])
    have "unat (edge_count edges e) = count (mset edges) e" if "e \<in> set edges" for e
      using count_retained_distinct [OF order(1), of "edge_count edges" e] that order(2) exact by simp
    then have fit: "edges_fit h edges \<longleftrightarrow> (\<forall>e \<in> set (hash_order edges). room (status h) e (unat (edge_count edges e)))"
      by (simp add: edges_fit_def order(2))
    have "retain_edges_transactionally hash_order h edges =
        and_then (preflight_each h (hash_order edges) (edge_count edges)) (\<lambda>_. retain_each h (hash_order edges) (edge_count edges))"
      using many by (auto simp: retain_edges_transactionally_def)
    then show ?thesis
      using preflight_each_iff [of h "hash_order edges" "edge_count edges"] each [OF _ exact order(2)] unfolding fit by auto
  qed
qed

end
