(* ===== verification/Heap_Contract.thy ===== *)
theory Heap_Contract
  imports Heap_Retain
begin

text \<open>
  The entry points of the heap on the abstract level: releasing a reference with its fast paths and the
  drain of the zero queue, and allocation, which either publishes a fresh node or leaves no trace.
\<close>

section \<open>Releasing and draining\<close>

lemma bump_leaf_set: "bump_leaf (set_leaf h (unat index) strong value) index slot = bump_leaf h index slot"
  by (simp add: bump_leaf_def set_leaf_def split: option.split)

lemma retire_leaf_refines:
  assumes inv: "arena_inv h L" and i: "status h i \<noteq> Absent" "is_leaf i"
  shows "\<exists>h'. retire_validated_leaf h (raw_index i) = Inr h' \<and> arena_inv h' L
    \<and> status h' = (status h)(i := Absent) \<and> zero_queue h' = zero_queue h"
proof -
  obtain slot where slot: "vec_get_opt (leaf_slots h) (unat (raw_index i)) = Some slot"
    using i by (rule status_leafE) (simp add: vec_get_opt_def)
  have reclaimed: "reclaim_leaf_vacant (set_leaf h (unat (raw_index i)) (leaf_strong slot) LeafVacant) (raw_index i)
      = Inr (bump_leaf h (raw_index i) (slot\<lparr>leaf_value := LeafVacant\<rparr>))"
    using slot by (auto simp: reclaim_leaf_vacant_def vec_get_opt_def set_leaf_nth bump_leaf_set split: if_splits)
  have "bump_leaf h (raw_index i) (slot\<lparr>leaf_value := LeafVacant\<rparr>) = bump_leaf h (raw_index i) slot"
    by (simp add: bump_leaf_def split: option.split)
  with reclaim_leaf_refines [OF inv i, of "leaf_strong slot"] reclaimed slot show ?thesis
    by (simp add: retire_validated_leaf_def)
qed

abbreviation cleanup_of :: "heap_cleanup option \<Rightarrow> heap_cleanup" where
  "cleanup_of c \<equiv> (case c of None \<Rightarrow> default_cleanup | Some c \<Rightarrow> c)"

lemma leaf_no_payload:
  assumes "is_leaf i"
  shows "weak_ids (v(i := s)) = weak_ids v"
  using assms by (cases i) (simp_all add: weak_ids_def)

lemma leaf_no_atoms:
  assumes "is_leaf i"
  shows "status_atoms (status h i) = []"
  using assms by (auto simp: status_def leaf_status_def status_atoms_def Let_def)

text \<open>The leaf fast path consumes the reference as the general path would, including a final release.\<close>

lemma release_leaf_path:
  assumes ok: "heap_ok h L (add_mset i R)" and i: "is_leaf i" "zero_queue h = []"
  shows "\<exists>cleanup h'. release_reference h i = Inr (cleanup, h') \<and> heap_ok h' L R \<and> zero_queue h' = []
    \<and> decay (status h) (status h') \<and> cleanup_atoms (cleanup_of cleanup) = [] \<and> atoms_held (status h') = atoms_held (status h)"
proof -
  have inv: "arena_inv h L" "set L = weak_ids (status h)" and counted: "counted (status h) [] (add_mset i R)"
    using ok i(2) by (simp_all add: heap_ok_def)
  have "i \<in># refs (status h) (add_mset i R)" by (simp add: refs_def)
  with counted obtain n p where alive: "status h i = Alive n p" "0 < n"
    using i(1) by (cases rule: counted_referenced) (auto simp: status_def leaf_status_def Let_def split: if_splits)
  then have here: "status h i \<noteq> Absent" by simp
  obtain slot where slot: "vec_get_opt (leaf_slots h) (unat (raw_index i)) = Some slot" "leaf_generation slot = raw_generation i"
      "leaf_kind (leaf_value slot) = Some (raw_kind i)" and n: "n = unat (leaf_strong slot)" "leaf_strong slot \<noteq> 0"
      and frame: "\<And>s. arena_inv (set_leaf_strong h i slot s) L"
        "\<And>s. s \<noteq> 0 \<Longrightarrow> status (set_leaf_strong h i slot s) = (status h)(i := Alive (unat s) p)"
        "\<And>s. zero_queue (set_leaf_strong h i slot s) = []"
    using inv(1) alive(1)
  proof (cases rule: set_strong_refines)
    case (leaf slot)
    from i(1) show ?thesis
    proof (cases rule: live_leaf_cases [where h = h])
      case (live slot')
      with leaf i(2) alive that [of slot] show ?thesis by (auto simp: vec_get_opt_def names_leaf_def leaf_is_live_def)
    qed (use alive in blast)
  qed (use i in blast)
  have released: "counted v' q' R" if "release_view i (status h, []) = (v', q')" for v' q'
    by (rule counted_release [OF counted that])
  have plain: "weak_ids ((status h)(i := s)) = weak_ids (status h)" "atoms_held ((status h)(i := Alive m p)) = atoms_held (status h)"
    "atoms_held ((status h)(i := Absent)) = atoms_held (status h)" for s m
    using leaf_no_payload [OF i(1)] leaf_no_atoms [OF i(1), of h] alive atoms_held_update [of "status h" i "Alive m p"]
      atoms_held_update [of "status h" i Absent] by (simp_all add: status_atoms_def)
  note dec = strong_decrement [of "leaf_strong slot"]
  consider (immortal) "n = immortal" | (more) "1 < n" "n \<noteq> immortal" | (last) "n = 1" using alive(2) by linarith
  then show ?thesis
  proof cases
    case immortal
    then have "release_reference h i = Inr (None, h)"
      using slot n i by (simp add: release_reference_def try_release_leaf_reference_def strong_immortal)
    moreover have "counted (status h) [] R" using released immortal alive(1) by (simp add: release_view_def)
    ultimately show ?thesis using inv i(2) by (auto simp: heap_ok_def default_cleanup_def)
  next
    case more
    let ?h = "set_leaf_strong h i slot (leaf_strong slot - 1)"
    have v: "status ?h = (status h)(i := Alive (n - 1) p)" using frame(2) dec more n by simp
    have "release_reference h i = Inr (None, ?h)"
      using slot n i more by (simp add: release_reference_def try_release_leaf_reference_def strong_immortal word_less_nat_alt)
    moreover have "counted (status ?h) [] R" using released more alive(1) by (simp add: release_view_def v)
    ultimately show ?thesis
      using frame(1,3) inv(2) plain v alive(1) more(2) by (auto simp: heap_ok_def default_cleanup_def intro!: decay_update) (simp add: fades_def)
  next
    case last
    obtain h' where h': "retire_validated_leaf h (raw_index i) = Inr h'" "arena_inv h' L" "status h' = (status h)(i := Absent)"
      "zero_queue h' = []" using retire_leaf_refines [OF inv(1) here i(1)] i(2) by auto
    have one: "leaf_strong slot = 1" using last n by (simp add: word_unat_eq_iff)
    have "\<exists>c. release_reference h i = Inr (Some c, h') \<and> cleanup_atoms c = []"
      using slot n i last h'(1) one IMMORTAL_STRONG_def
      by (cases i) (auto simp: release_reference_def try_release_leaf_reference_def default_cleanup_def)
    moreover have "payload_refs p = []" using i(1) alive(1) by (auto simp: status_def leaf_status_def Let_def split: if_splits)
    moreover have "counted ((status h)(i := Queued p)) [i] R" using released last alive(1) by (simp add: release_view_def)
    ultimately have "counted (status h') [] R" "\<exists>c. release_reference h i = Inr (Some c, h') \<and> cleanup_atoms c = []"
      using counted_detach [of "(status h)(i := Queued p)" i "[]" R p] h'(3) by simp_all
    then show ?thesis
      using h' inv(2) plain alive(1) last by (auto simp: heap_ok_def intro!: decay_update) (simp add: fades_def)
  qed
qed

lemma release_reference_ok:
  assumes ok: "heap_ok h L (add_mset i R)"
  shows "\<exists>cleanup h' L'. release_reference h i = Inr (cleanup, h') \<and> heap_ok h' L' R \<and> zero_queue h' = []
    \<and> decay (status h) (status h')
    \<and> atoms_held (status h') + mset (cleanup_atoms (cleanup_of cleanup)) = atoms_held (status h)"
proof (cases "is_leaf i \<and> zero_queue h = []")
  case True
  with release_leaf_path [OF ok] show ?thesis by fastforce
next
  case False
  obtain h1 where h1: "release_raw_no_drain h i = Inr h1" "heap_ok h1 L R" "decay (status h) (status h1)"
    "atoms_held (status h1) = atoms_held (status h)"
    using release_ok [OF ok] atoms_held_cong by blast
  have path: "release_reference h i = (if zero_queue h1 = [] then Inr (None, h1)
      else and_then (drain_zero_queue h1) (\<lambda>(h, cleanup). Inr (Some cleanup, h)))"
    using False h1(1) by (auto simp: release_reference_def try_release_leaf_reference_def)
  show ?thesis
  proof (cases "zero_queue h1 = []")
    case True
    with path h1 show ?thesis by (auto simp: default_cleanup_def)
  next
    case False
    obtain h' L' cleanup where "drain_zero_queue h1 = Inr (h', cleanup)" "heap_ok h' L' R" "zero_queue h' = []"
      "decay (status h1) (status h')" "atoms_held (status h') + mset (cleanup_atoms cleanup) = atoms_held (status h1)"
      using drain_ok [OF h1(2)] by blast
    with path False h1(3,4) decay_trans [OF h1(3)] show ?thesis by auto
  qed
qed

text \<open>The non-final fast path does what the release entry point does, or declines without a change.\<close>

lemma nonfinal_release:
  assumes "try_release_nonfinal h i = (consumed, h')"
  shows "if consumed then release_reference h i = Inr (None, h') \<and> zero_queue h' = [] else h' = h"
proof (cases "zero_queue h = []")
  case empty: True
  show ?thesis
  proof (cases "is_leaf i")
    case True
    show ?thesis
    proof (cases "validate_leaf_identity h i")
      case (Inr index)
      then show ?thesis using True empty assms validate_leaf_identity_Inr [OF Inr]
        by (auto simp: try_release_nonfinal_def try_release_leaf_nonfinal_def release_reference_def
            try_release_leaf_reference_def vec_get_opt_def leaf_is_live_def Let_def set_leaf_strong_def split: if_splits)
    qed (use True empty assms in \<open>auto simp: try_release_nonfinal_def try_release_leaf_nonfinal_def\<close>)
  next
    case False
    show ?thesis
    proof (cases "validate_slot_identity h i")
      case (Inr index)
      then show ?thesis using False empty assms validate_slot_identity_Inr [OF Inr]
        by (cases "slot_state (heap_slots h ! index)")
          (auto simp: try_release_nonfinal_def release_reference_def try_release_leaf_reference_def release_raw_no_drain_def
            set_node_strong_def Let_def word_less_nat_alt split: if_splits)
    qed (use False empty assms in \<open>auto simp: try_release_nonfinal_def\<close>)
  qed
qed (use assms in \<open>auto simp: try_release_nonfinal_def\<close>)

section \<open>Reserving a slot\<close>

abbreviation new_slot :: arena_slot where
  "new_slot \<equiv> \<lparr>slot_generation = 1, slot_state = Vacant, weak_prev = None, weak_next = None\<rparr>"

lemma append_slot:
  assumes "arena_inv h L" "length (heap_slots h) < 2 ^ 32"
  shows "arena_inv (h\<lparr>heap_slots := heap_slots h @ [new_slot]\<rparr>) L" "status (h\<lparr>heap_slots := heap_slots h @ [new_slot]\<rparr>) = status h"
    "\<forall>i \<in> set L. unat (node_index i) \<noteq> length (heap_slots h)"
proof -
  let ?h = "h\<lparr>heap_slots := heap_slots h @ [new_slot]\<rparr>"
  have L: "linked h L" using assms by (simp add: arena_inv_def)
  show inside: "\<forall>i \<in> set L. unat (node_index i) \<noteq> length (heap_slots h)" using L by (auto simp: linked_def names_id_def)
  have same: "slot_id ?h k = slot_id h k" if "k < length (heap_slots h)" for k
    using that by (simp add: slot_id_def nth_append)
  have "unat (node_index (slot_id ?h (length (heap_slots h)))) = length (heap_slots h)"
    using assms(2) by (simp add: slot_id_def unsigned_of_nat take_bit_nat_eq_self)
  with inside have "slot_id ?h (length (heap_slots h)) \<notin> set L" by auto
  then have "next_of L (slot_id ?h (length (heap_slots h))) = None" "prev_of L (slot_id ?h (length (heap_slots h))) = None"
    by (simp_all add: next_of_notin)
  with L assms(2) same have "linked ?h L" by (auto simp: linked_def names_id_def nth_append less_Suc_eq)
  with assms show "arena_inv ?h L" by (auto simp: arena_inv_def arena_wf_def nth_append less_Suc_eq)
  show "status ?h = status h"
    by (rule ext) (auto simp: status_def names_slot_def nth_append Let_def less_Suc_eq)
qed

lemma reserve_vacant_ok:
  assumes inv: "arena_inv h L" and room: "heap_free h \<noteq> [] \<or> length (heap_slots h) < 2 ^ 32"
  shows "\<exists>index h'. reserve_vacant h = Inr ((index, slot_generation (heap_slots h' ! unat index)), h') \<and> arena_inv h' L \<and> detached h' index
    \<and> (\<forall>i \<in> set L. node_index i \<noteq> index) \<and> status h' = status h \<and> zero_queue h' = zero_queue h"
proof (cases "heap_free h = []")
  case True
  let ?h = "h\<lparr>heap_slots := heap_slots h @ [new_slot]\<rparr>" let ?index = "of_nat (length (heap_slots h)) :: u32"
  have small: "length (heap_slots h) < 2 ^ 32" using room True by simp
  then have index: "unat ?index = length (heap_slots h)" by (simp add: unsigned_of_nat take_bit_nat_eq_self)
  note new = append_slot [OF inv small]
  have "reserve_vacant h = Inr ((?index, 1), ?h)"
    using True small index by (simp add: reserve_vacant_def vec_pop_def vec_get_opt_def)
  moreover have "detached ?h ?index" using True index by (simp add: detached_def)
  moreover have "\<forall>i \<in> set L. node_index i \<noteq> ?index" using new(3) index by auto
  ultimately show ?thesis using new(1,2) index by (intro exI [of _ ?index] exI [of _ ?h]) simp
next
  case False
  let ?index = "last (heap_free h)" let ?h = "h\<lparr>heap_free := butlast (heap_free h)\<rparr>"
  have wf: "arena_wf h" "linked h L" "\<forall>i \<in> set L. node_index i \<notin> set (heap_free h)" using inv by (simp_all add: arena_inv_def)
  have member: "?index \<in> set (heap_free h)" using False by simp
  have split: "heap_free h = butlast (heap_free h) @ [?index]" using False by simp
  have fresh: "?index \<notin> set (butlast (heap_free h))" "distinct (butlast (heap_free h))"
    using wf(1) split by (metis arena_wf_def distinct_append not_distinct_conv_prefix, metis arena_wf_def distinct_butlast)
  have k: "unat ?index < length (heap_slots h)" "slot_state (heap_slots h ! unat ?index) = Vacant"
    using wf(1) member by (auto simp: arena_wf_def)
  have "slot_id h (unat ?index) \<notin> set L" using wf(3) member by (auto simp: slot_id_def)
  then have none: "weak_next (heap_slots h ! unat ?index) = None" "weak_prev (heap_slots h ! unat ?index) = None"
    using wf(2) k(1) by (simp_all add: linked_def next_of_notin)
  have "reserve_vacant h = Inr ((?index, slot_generation (heap_slots h ! unat ?index)), ?h)"
    using False k none by (simp add: reserve_vacant_def vec_pop_def vec_get_opt_def)
  moreover have "linked ?h L" using wf(2) by (subst linked_cong [of _ h]) simp_all
  then have "arena_inv ?h L"
    using wf fresh by (auto simp: arena_inv_def arena_wf_def dest: in_set_butlastD)
  moreover have "status ?h = status h" by (rule status_same_slots) simp_all
  ultimately show ?thesis using fresh k wf(3) member
    by (intro exI [of _ ?index] exI [of _ ?h]) (auto simp: detached_def)
qed

lemma reserve_vacant_full:
  assumes "heap_free h = []" "length (heap_slots h) \<ge> 2 ^ 32"
  shows "reserve_vacant h = Inl (Err (Overflow ''allocating an arena slot''))" "after_failed_reserve h = h"
  using assms by (simp_all add: reserve_vacant_def after_failed_reserve_def vec_pop_def)

fun raw_of :: "heap_node_kind \<Rightarrow> node_id \<Rightarrow> raw_id" where
  "raw_of ObjectNode i = RObject i"
| "raw_of ShapeNode i = RShape i"
| "raw_of VarRefNode i = RVarRef i"
| "raw_of ContextNode i = RContext i"
| "raw_of FunctionBytecodeNode i = RFunctionBytecode i"
| "raw_of StringNode i = RString i"
| "raw_of BigIntNode i = RBigInt i"

lemma raw_of_simps [simp]: "raw_kind (raw_of kind i) = kind" "raw_node (raw_of kind i) = i"
  "is_leaf (raw_of kind i) \<longleftrightarrow> kind = StringNode \<or> kind = BigIntNode"
  by (cases kind; simp)+

abbreviation room_left :: "heap \<Rightarrow> bool" where
  "room_left h \<equiv> heap_free h \<noteq> [] \<or> length (heap_slots h) < 2 ^ 32"

lemma reserve_ok:
  assumes ok: "heap_ok h L R" and room: "room_left h" and kind: "kind \<noteq> StringNode" "kind \<noteq> BigIntNode"
  obtains n h1 where "reserve h kind = Inr ((node_index n, node_generation n), h1)" "heap_ok h1 L R" "status h (raw_of kind n) = Absent"
    "status h1 = (status h)(raw_of kind n := Reserved)" "zero_queue h1 = zero_queue h" "\<forall>j \<in> set L. node_index j \<noteq> node_index n"
proof -
  have inv: "arena_inv h L" and L: "set L = weak_ids (status h)" and counted: "counted (status h) (zero_queue h) R"
    using ok by (simp_all add: heap_ok_def)
  obtain index h0 where h0: "reserve_vacant h = Inr ((index, slot_generation (heap_slots h0 ! unat index)), h0)" "arena_inv h0 L"
    "detached h0 index" "\<forall>i \<in> set L. node_index i \<noteq> index" "status h0 = status h" "zero_queue h0 = zero_queue h"
    using reserve_vacant_ok [OF inv room] by blast
  let ?n = "\<lparr>node_index = index, node_generation = slot_generation (heap_slots h0 ! unat index)\<rparr>"
  let ?i = "raw_of kind ?n" let ?h = "set_state h0 (unat index) (Initializing kind 1)"
  have slot: "unat index < length (heap_slots h0)" "slot_state (heap_slots h0 ! unat index) = Vacant"
    "index \<notin> set (heap_free h0)" using h0(3) by (simp_all add: detached_def)
  have absent: "status h0 ?i = Absent" using slot kind by (simp add: status_def names_slot_def)
  let ?s = "(heap_slots h0 ! unat index)\<lparr>slot_state := Initializing kind 1\<rparr>"
  have "status ?h = (status h0)(?i := state_status (slot_state ?s))"
    by (rule status_write_slot) (use slot kind in \<open>simp_all add: set_state_def\<close>)
  then have v: "status ?h = (status h)(?i := Reserved)" using h0(5) by simp
  have "unat j \<noteq> unat index" if "j \<in> set (heap_free h0)" for j using slot(3) that by (metis word_unat_eq_iff)
  then have "arena_inv ?h L" using h0(2) by (auto simp: arena_inv_def arena_wf_def set_state_nth)
  moreover have "weak_ids (status ?h) = weak_ids (status h)"
    unfolding v using absent h0(5) by (intro weak_ids_update) simp
  moreover have "counted (status ?h) (zero_queue ?h) R"
    unfolding v using counted_reserve [OF counted, of ?i Reserved] absent h0(5,6) by simp
  ultimately have "heap_ok ?h L R" using L by (simp add: heap_ok_def)
  with that [of ?n ?h] h0 v absent show ?thesis by (simp add: reserve_def)
qed

lemma abort_ok:
  assumes ok: "heap_ok h1 L R" and v: "status h1 = v(raw_of kind n := Reserved)" "v (raw_of kind n) = Absent"
    and kind: "kind \<noteq> StringNode" "kind \<noteq> BigIntNode" and L: "\<forall>j \<in> set L. node_index j \<noteq> node_index n"
  shows "\<exists>h'. abort_initializing h1 (node_index n) = Inr h' \<and> status h' = v \<and> heap_ok h' L R"
proof -
  let ?i = "raw_of kind n" let ?k = "unat (node_index n)"
  have i: "status h1 ?i \<noteq> Absent" "\<not> is_leaf ?i" using v kind by simp_all
  obtain kind' strong where slot: "?k < length (heap_slots h1)" "slot_state (heap_slots h1 ! ?k) = Initializing kind' strong"
    using i
  proof (rule statusE)
    assume "status h1 ?i = state_status (slot_state (heap_slots h1 ! unat (raw_index ?i)))" "unat (raw_index ?i) < length (heap_slots h1)"
    then show ?thesis using v that by (cases "slot_state (heap_slots h1 ! ?k)") auto
  qed
  let ?vacated = "set_state h1 ?k Vacant" let ?h = "?vacated\<lparr>heap_free := heap_free h1 @ [node_index n]\<rparr>"
  have inv: "arena_inv h1 L" using ok by (simp add: heap_ok_def)
  have free: "node_index n \<notin> set (heap_free h1)" using occupied_not_free [OF _ i] inv by (simp add: arena_inv_def)
  have "status ?h = status ?vacated" by (rule status_same_slots) simp_all
  also have "status ?vacated = (status h1)(?i := Absent)" using status_set_state [OF i, of Vacant] by simp
  also have "\<dots> = v" using v by (simp add: fun_upd_idem)
  finally have restored: "status ?h = v" .
  have "arena_inv ?vacated L" by (rule arena_inv_set_state [OF inv]) simp_all
  moreover have "linked ?h L" using inv by (subst linked_cong [of _ ?vacated]) (simp_all add: arena_inv_def)
  ultimately have "arena_inv ?h L" using free L slot(1) by (auto simp: arena_inv_def arena_wf_def set_state_nth)
  moreover have "counted v (zero_queue h1) R"
    using counted_reserve [of "status h1" "zero_queue h1" R ?i Absent] ok v by (auto simp: heap_ok_def fun_upd_idem)
  moreover have "weak_ids (status h1) = weak_ids v" unfolding v(1) using v(2) by (intro weak_ids_update) simp
  ultimately have "heap_ok ?h L R" using ok restored by (simp add: heap_ok_def)
  moreover have "abort_initializing h1 (node_index n) = Inr ?h" using slot by (simp add: abort_initializing_def vec_get_opt_def)
  ultimately show ?thesis using restored by blast
qed

section \<open>Allocation\<close>

lemma publish_ok:
  assumes ok: "heap_ok h2 L (R + mset (data_edges data))" and v: "status h2 (raw_of (data_kind data) n) = Reserved"
  shows "\<exists>h'. publish h2 (node_index n) data = Inr h' \<and> arena_inv h' L
    \<and> status h' = (status h2)(raw_of (data_kind data) n := Alive 1 (NodePayload data)) \<and> zero_queue h' = zero_queue h2
    \<and> counted (status h') (zero_queue h') (add_mset (raw_of (data_kind data) n) R)
    \<and> slot_state (heap_slots h' ! unat (node_index n)) = Live \<lparr>node_strong = 1, node_payload = data\<rparr> \<and> names_id h' n"
proof -
  let ?i = "raw_of (data_kind data) n" let ?k = "unat (node_index n)"
  have i: "status h2 ?i \<noteq> Absent" "\<not> is_leaf ?i" using v by (cases data; simp)+
  then obtain kind strong where slot: "?k < length (heap_slots h2)" "slot_state (heap_slots h2 ! ?k) = Initializing kind strong"
    "names_slot ?i (heap_slots h2 ! ?k)"
  proof (rule statusE)
    assume "status h2 ?i = state_status (slot_state (heap_slots h2 ! unat (raw_index ?i)))" "unat (raw_index ?i) < length (heap_slots h2)"
      "names_slot ?i (heap_slots h2 ! unat (raw_index ?i))"
    then show ?thesis using v that by (cases "slot_state (heap_slots h2 ! ?k)") auto
  qed
  have inv: "arena_inv h2 L" using ok by (simp add: heap_ok_def)
  have "state_ok (slot_state (heap_slots h2 ! ?k))" using inv slot(1) by (simp add: arena_inv_def arena_wf_def)
  then have fields: "strong = 1" "kind = data_kind data" using slot(2,3) by (simp_all add: names_slot_def)
  let ?st = "Live \<lparr>node_strong = 1, node_payload = data\<rparr>" let ?h = "set_state h2 ?k ?st"
  have "publish h2 (node_index n) data = Inr ?h" using slot fields by (simp add: publish_def vec_get_opt_def)
  moreover have "arena_inv ?h L" using slot(2) by (intro arena_inv_set_state [OF inv]) simp_all
  moreover have w: "status ?h = (status h2)(?i := Alive 1 (NodePayload data))" using status_set_state [OF i, of ?st] by simp
  moreover have "counted (status ?h) (zero_queue ?h) (add_mset ?i R)"
    unfolding w using counted_publish [of "status h2" "zero_queue h2" R "NodePayload data" ?i] ok v by (simp add: heap_ok_def)
  moreover have "names_id ?h n" using slot(1,3) by (simp add: names_id_def names_slot_def set_state_nth)
  ultimately show ?thesis using slot(1) by (intro exI [of _ ?h]) (simp add: set_state_nth)
qed

text \<open>
  The outcome of an allocation: a fresh handle, alive with one reference and owning its edges, or an
  error and the heap as it was.
\<close>

definition allocated :: "heap \<Rightarrow> node_id list \<Rightarrow> raw_id multiset \<Rightarrow> node_data \<Rightarrow> node_id heap_result \<times> heap \<Rightarrow> bool" where
  "allocated h L R data result \<longleftrightarrow>
     (case result of
        (Inr n, h') \<Rightarrow> room_left h \<and> edges_fit h (data_edges data) \<and> status h (raw_of (data_kind data) n) = Absent
          \<and> status h' = (retain_all (mset (data_edges data)) (status h))(raw_of (data_kind data) n := Alive 1 (NodePayload data))
          \<and> heap_ok h' (if is_weak_object data then L @ [n] else L) (add_mset (raw_of (data_kind data) n) R)
      | (Inl e, h') \<Rightarrow> \<not> (room_left h \<and> edges_fit h (data_edges data)) \<and> status h' = status h \<and> heap_ok h' L R \<and> e \<noteq> Panic)"

lemma edges_fit_reserved:
  assumes "status h1 = (status h)(i := Reserved)" "status h i = Absent"
  shows "edges_fit h1 edges \<longleftrightarrow> edges_fit h edges"
proof -
  have "room (status h1) e k \<longleftrightarrow> room (status h) e k" for e k using assms by (simp add: room_def)
  then show ?thesis by (simp add: edges_fit_def)
qed

lemma reserve_and_retain_ok:
  assumes ok: "heap_ok h L R" and order: "distinct (hash_order edges)" "set (hash_order edges) = set edges"
    and kind: "kind \<noteq> StringNode" "kind \<noteq> BigIntNode"
  obtains (reserved) n h2 where "reserve_and_retain hash_order h kind edges = (Inr (node_index n, node_generation n), h2)"
      "room_left h" "edges_fit h edges" "heap_ok h2 L (R + mset edges)" "status h (raw_of kind n) = Absent"
      "status h2 = retain_all (mset edges) ((status h)(raw_of kind n := Reserved))" "\<forall>j \<in> set L. node_index j \<noteq> node_index n"
    | (failed) e h2 where "reserve_and_retain hash_order h kind edges = (Inl (Err e), h2)"
      "\<not> (room_left h \<and> edges_fit h edges)" "status h2 = status h" "heap_ok h2 L R"
proof (cases "room_left h")
  case True
  obtain n h1 where h1: "reserve h kind = Inr ((node_index n, node_generation n), h1)" "heap_ok h1 L R" "status h (raw_of kind n) = Absent"
    "status h1 = (status h)(raw_of kind n := Reserved)" "zero_queue h1 = zero_queue h" "\<forall>j \<in> set L. node_index j \<noteq> node_index n"
    using reserve_ok [OF ok True kind] .
  note fit = edges_fit_reserved [OF h1(4,3), of edges]
  from retain_edges_ok [OF h1(2), where hash_order = hash_order and edges = edges, OF order] show ?thesis
  proof (elim disjE conjE exE)
    fix h2 assume "edges_fit h1 edges" "retain_edges_transactionally hash_order h1 edges = Inr h2"
      "heap_ok h2 L (R + mset edges)" "status h2 = retain_all (mset edges) (status h1)"
    with h1 True fit show ?thesis by (intro reserved [of n h2]) (auto simp: reserve_and_retain_def)
  next
    fix e assume "\<not> edges_fit h1 edges" and e: "retain_edges_transactionally hash_order h1 edges = Inl (Err e)"
    moreover obtain h' where "abort_initializing h1 (node_index n) = Inr h'" "status h' = status h" "heap_ok h' L R"
      using abort_ok [OF h1(2,4,3) kind h1(6)] by blast
    ultimately show ?thesis using h1(1) fit by (intro failed [of e h']) (auto simp: reserve_and_retain_def)
  qed
next
  case False
  with ok reserve_vacant_full [of h] show ?thesis by (intro failed) (auto simp: reserve_and_retain_def reserve_def)
qed

lemma publish_reserved:
  assumes h2: "heap_ok h2 L (R + mset (data_edges data))" "status h (raw_of (data_kind data) n) = Absent"
    and v: "status h2 = retain_all (mset (data_edges data)) (w(raw_of (data_kind data) n := Reserved))"
    and L: "\<forall>j \<in> set L. node_index j \<noteq> node_index n"
  obtains h' where "publish_as data (Inr (node_index n, node_generation n), h2) = (Inr n, h')" "arena_inv h' L"
    "status h' = (retain_all (mset (data_edges data)) w)(raw_of (data_kind data) n := Alive 1 (NodePayload data))"
    "counted (status h') (zero_queue h') (add_mset (raw_of (data_kind data) n) R)" "weak_ids (status h2) = set L"
    "slot_state (heap_slots h' ! unat (node_index n)) = Live \<lparr>node_strong = 1, node_payload = data\<rparr>" "names_id h' n"
proof -
  let ?i = "raw_of (data_kind data) n"
  have "status h2 ?i = Reserved" using v by (simp add: retain_all_def)
  from publish_ok [OF h2(1) this] obtain h' where h': "publish h2 (node_index n) data = Inr h'" "arena_inv h' L"
    "status h' = (status h2)(?i := Alive 1 (NodePayload data))" "counted (status h') (zero_queue h') (add_mset ?i R)"
    "slot_state (heap_slots h' ! unat (node_index n)) = Live \<lparr>node_strong = 1, node_payload = data\<rparr>" "names_id h' n" by blast
  have "status h' = (retain_all (mset (data_edges data)) w)(?i := Alive 1 (NodePayload data))"
    unfolding h'(3) v by (rule ext) (simp add: retain_all_def)
  with that h' h2(1) show ?thesis by (simp add: publish_as_def heap_ok_def)
qed

lemma weak_ids_fresh:
  assumes "w (raw_of (data_kind data) n) = Absent" "\<And>j. payload_of (v j) = payload_of (w j)"
  shows "weak_ids (v(raw_of (data_kind data) n := Alive 1 (NodePayload data)))
    = (if is_weak_object data then insert n (weak_ids w) else weak_ids w)"
proof (cases "\<exists>object. data = ObjectData object")
  case True
  then obtain object where object: "data = ObjectData object" ..
  show ?thesis
  proof (rule set_eqI)
    fix j
    show "j \<in> weak_ids (v(raw_of (data_kind data) n := Alive 1 (NodePayload data)))
        \<longleftrightarrow> j \<in> (if is_weak_object data then insert n (weak_ids w) else weak_ids w)"
      using assms object by (cases "j = n") (auto simp: weak_ids_def)
  qed
next
  case False
  then show ?thesis using assms by (cases data) (auto simp: weak_ids_def)
qed

lemma allocate_plain:
  assumes ok: "heap_ok h L R" and order: "distinct (hash_order (data_edges data))" "set (hash_order (data_edges data)) = set (data_edges data)"
    and plain: "\<not> is_weak_object data"
  shows "allocated h L R data (publish_as data (reserve_and_retain hash_order h (data_kind data) (data_edges data)))"
proof -
  have kind: "data_kind data \<noteq> StringNode" "data_kind data \<noteq> BigIntNode" by (cases data; simp)+
  from ok order kind show ?thesis
  proof (cases rule: reserve_and_retain_ok)
    case (reserved n h2)
    obtain h' where h': "publish_as data (Inr (node_index n, node_generation n), h2) = (Inr n, h')" "arena_inv h' L"
      "status h' = (retain_all (mset (data_edges data)) (status h))(raw_of (data_kind data) n := Alive 1 (NodePayload data))"
      "counted (status h') (zero_queue h') (add_mset (raw_of (data_kind data) n) R)"
      using publish_reserved [OF reserved(4,5,6,7)] by blast
    have "weak_ids (status h') = weak_ids (status h)"
      unfolding h'(3) using weak_ids_fresh [of "status h" data n] reserved(5) plain by simp
    with h' reserved(1,2,3,5) ok plain show ?thesis by (simp add: allocated_def heap_ok_def)
  next
    case (failed e h2)
    then show ?thesis by (auto simp: allocated_def publish_as_def)
  qed
qed

lemma allocate_object_ok:
  assumes ok: "heap_ok h L R"
    and order: "distinct (hash_order (object_edges object))" "set (hash_order (object_edges object)) = set (object_edges object)"
  shows "allocated h L R (ObjectData object) (allocate_object_inner hash_order h object)"
proof (cases "is_weak_object (ObjectData object)")
  case False
  then show ?thesis using allocate_plain [OF ok, of hash_order "ObjectData object"] order
    by (auto simp: allocate_object_inner_def allocated_def split: prod.splits sum.splits)
next
  case True
  let ?data = "ObjectData object"
  have kind: "ObjectNode \<noteq> StringNode" "ObjectNode \<noteq> BigIntNode" by simp_all
  from ok order kind show ?thesis
  proof (cases rule: reserve_and_retain_ok)
    case (reserved n h2)
    have ready: "heap_ok h2 L (R + mset (data_edges ?data))" "status h (raw_of (data_kind ?data) n) = Absent"
      "status h2 = retain_all (mset (data_edges ?data)) ((status h)(raw_of (data_kind ?data) n := Reserved))"
      using reserved(4,5,6) by simp_all
    obtain h1 where h1: "publish_as ?data (Inr (node_index n, node_generation n), h2) = (Inr n, h1)" "arena_inv h1 L"
      "status h1 = (retain_all (mset (data_edges ?data)) (status h))(RObject n := Alive 1 (NodePayload ?data))"
      "counted (status h1) (zero_queue h1) (add_mset (RObject n) R)"
      "slot_state (heap_slots h1 ! unat (node_index n)) = Live \<lparr>node_strong = 1, node_payload = ?data\<rparr>" "names_id h1 n"
      using publish_reserved [OF ready reserved(7)] by auto
    have new: "n \<notin> set L" using reserved(7) by auto
    obtain h' where h': "link_weak_object h1 n = Inr h'" "linked h' (L @ [n])" "core h' = core h1"
      using link_linked [of h1 L n] h1(2,5,6) new True by (auto simp: arena_inv_def)
    have same: "status h' = status h1" "zero_queue h' = zero_queue h1" by (rule core_status [OF h'(3)]) (use h'(3) in \<open>simp add: core_def\<close>)
    have "node_index n \<notin> set (heap_free h1)"
      using occupied_not_free [of h1 "RObject n"] h1(2,3) by (simp add: arena_inv_def)
    then have "arena_inv h' (L @ [n])"
      using h1(2) by (intro arena_inv_core [OF h'(3,2)]) (auto simp: arena_inv_def)
    moreover have "weak_ids (status h') = insert n (weak_ids (status h))"
      unfolding same h1(3) using weak_ids_fresh [of "status h" ?data n] reserved(5) True by simp
    ultimately show ?thesis using reserved h1 h'(1) True same ok
      by (simp add: allocated_def allocate_object_inner_def heap_ok_def)
  next
    case (failed e h2)
    then show ?thesis by (auto simp: allocated_def allocate_object_inner_def publish_as_def)
  qed
qed

text \<open>A prototype of a new shape is marked; nothing that it owns changes.\<close>

fun mark_used :: "payload \<Rightarrow> payload" where
  "mark_used (NodePayload (ObjectData object)) = NodePayload (ObjectData (object\<lparr>used_as_prototype := True\<rparr>))"
| "mark_used p = p"

lemma mark_used_simps [simp]: "payload_refs (mark_used p) = payload_refs p"
  by (cases p rule: mark_used.cases) (simp_all add: object_edges_def)

definition mark_view :: "node_id option \<Rightarrow> heap_view \<Rightarrow> heap_view" where
  "mark_view prototype v = (case prototype of None \<Rightarrow> v
     | Some i \<Rightarrow> (case v (RObject i) of Alive n p \<Rightarrow> v(RObject i := Alive n (mark_used p)) | _ \<Rightarrow> v))"

lemma weak_ids_mark [simp]: "weak_ids (mark_view prototype v) = weak_ids v"
proof -
  have "(\<exists>data. mark_used p = NodePayload data \<and> is_weak_object data) \<longleftrightarrow> (\<exists>data. p = NodePayload data \<and> is_weak_object data)" for p
    by (cases p rule: mark_used.cases) auto
  then show ?thesis by (auto simp: mark_view_def weak_ids_def split: option.split node_status.split)
qed

lemma mark_view_other: "v i = Reserved \<Longrightarrow> mark_view prototype v i = Reserved"
  by (auto simp: mark_view_def split: option.split node_status.split)

lemma mark_retain: "mark_view prototype (retain_all M v) = retain_all M (mark_view prototype v)"
  by (rule ext) (auto simp: mark_view_def retain_all_def split: option.split node_status.split)

lemma mark_reserved: "v i = Absent \<Longrightarrow> mark_view prototype (v(i := Reserved)) = (mark_view prototype v)(i := Reserved)"
  by (rule ext) (auto simp: mark_view_def split: option.split node_status.split)

lemma mark_prototype_ok:
  assumes ok: "heap_ok h L R" and alive: "status h (RObject i) = Alive n p"
  shows "\<exists>h'. mark_prototype h i = Inr h' \<and> heap_ok h' L R \<and> status h' = mark_view (Some i) (status h)"
proof -
  have plain: "\<not> is_leaf (RObject i)" by simp
  then show ?thesis
  proof (cases rule: live_node_cases [where h = h])
    case (live node)
    then obtain object where object: "node_payload node = ObjectData object"
      by (cases "node_payload node") (auto simp: names_slot_def)
    let ?st = "Live (node\<lparr>node_payload := ObjectData (object\<lparr>used_as_prototype := True\<rparr>)\<rparr>)"
    let ?h = "set_state h (unat (node_index i)) ?st"
    have "mark_prototype h i = Inr ?h" using live(1) object by (simp add: mark_prototype_def heap_object_def)
    moreover have v: "status ?h = mark_view (Some i) (status h)"
      using status_set_state [of h "RObject i" ?st] live(5) alive object by (auto simp: mark_view_def)
    moreover have "arena_inv ?h L" using ok live(3) by (intro arena_inv_set_state) (auto simp: heap_ok_def)
    moreover have "counted (mark_view (Some i) (status h)) (zero_queue h) R"
    proof (rule counted_add [of "status h" _ _ _ "RObject i"])
      show counted: "counted (status h) (zero_queue h) R" using ok by (simp add: heap_ok_def)
      show held: "held (mark_view (Some i) (status h)) = held (status h)"
        using alive by (auto simp: mark_view_def intro!: held_update_same)
      show "count_ok (mark_view (Some i) (status h) (RObject i)) (count (refs (mark_view (Some i) (status h)) R) (RObject i))
          (RObject i \<in> set (zero_queue h))"
        using countedD [OF counted, of "RObject i"] alive unfolding refs_def held by (simp add: mark_view_def)
    qed (use ok counted_distinct in \<open>auto simp: mark_view_def heap_ok_def split: node_status.split\<close>)
    ultimately show ?thesis using ok by (auto simp: heap_ok_def)
  qed (use alive in blast)
qed

lemma weak_ids_shape: "weak_ids (v(RShape n := s)) = weak_ids v"
  by (simp add: weak_ids_def)

lemma allocate_shape_ok:
  assumes ok: "heap_ok h L R"
    and order: "distinct (hash_order (shape_edges shape))" "set (hash_order (shape_edges shape)) = set (shape_edges shape)"
  shows "case allocate_shape hash_order h shape of
      (Inr n, h') \<Rightarrow> room_left h \<and> edges_fit h (shape_edges shape) \<and> status h (RShape n) = Absent
        \<and> status h' = (retain_all (mset (shape_edges shape)) (mark_view (shape_prototype shape) (status h)))
            (RShape n := Alive 1 (NodePayload (ShapeData shape)))
        \<and> heap_ok h' L (add_mset (RShape n) R)
    | (Inl e, h') \<Rightarrow> \<not> (room_left h \<and> edges_fit h (shape_edges shape)) \<and> status h' = status h \<and> heap_ok h' L R \<and> e \<noteq> Panic"
proof -
  let ?data = "ShapeData shape" let ?w = "mark_view (shape_prototype shape) (status h)"
  have kind: "ShapeNode \<noteq> StringNode" "ShapeNode \<noteq> BigIntNode" by simp_all
  from ok order kind show ?thesis
  proof (cases rule: reserve_and_retain_ok)
    case (reserved n h2)
    have marked: "mark_view (shape_prototype shape) (status h2) = retain_all (mset (data_edges ?data)) (?w(RShape n := Reserved))"
      unfolding reserved(6) mark_retain using mark_reserved [of "status h" "RShape n"] reserved(5) by simp
    have "\<exists>h1. allocate_shape hash_order h shape = publish_as ?data (Inr (node_index n, node_generation n), h1)
        \<and> heap_ok h1 L (R + mset (data_edges ?data)) \<and> status h1 = mark_view (shape_prototype shape) (status h2)"
    proof (cases "shape_prototype shape")
      case None
      with reserved show ?thesis by (intro exI [of _ h2]) (simp add: allocate_shape_def mark_view_def)
    next
      case (Some prototype)
      then have "room (status h) (RObject prototype) 1" using reserved(3) by (simp add: edges_fit_def shape_edges_def)
      then obtain k p where "status h (RObject prototype) = Alive k p" using roomE by blast
      then have "status h2 (RObject prototype) = Alive (k + count (mset (shape_edges shape)) (RObject prototype)) p"
        unfolding reserved(6) by (simp add: retain_all_def)
      from mark_prototype_ok [OF reserved(4) this] obtain h1 where "mark_prototype h2 prototype = Inr h1"
        "heap_ok h1 L (R + mset (shape_edges shape))" "status h1 = mark_view (Some prototype) (status h2)" by blast
      with Some reserved(1) show ?thesis by (intro exI [of _ h1]) (simp add: allocate_shape_def)
    qed
    then obtain h1 where h1: "allocate_shape hash_order h shape = publish_as ?data (Inr (node_index n, node_generation n), h1)"
      "heap_ok h1 L (R + mset (data_edges ?data))" "status h1 = retain_all (mset (data_edges ?data)) (?w(RShape n := Reserved))"
      using marked by auto
    have ready: "status h (raw_of (data_kind ?data) n) = Absent"
      "status h1 = retain_all (mset (data_edges ?data)) (?w(raw_of (data_kind ?data) n := Reserved))"
      using reserved(5) h1(3) by simp_all
    obtain h' where "publish_as ?data (Inr (node_index n, node_generation n), h1) = (Inr n, h')" "arena_inv h' L"
      "status h' = (retain_all (mset (data_edges ?data)) ?w)(RShape n := Alive 1 (NodePayload ?data))"
      "counted (status h') (zero_queue h') (add_mset (RShape n) R)"
      using publish_reserved [OF h1(2) ready reserved(7)] by auto
    moreover from this(3) have "weak_ids (status h') = weak_ids (status h)" by (simp add: weak_ids_shape)
    ultimately show ?thesis using h1(1) reserved(2,3,5) ok by (simp add: heap_ok_def)
  next
    case (failed e h2)
    then show ?thesis by (auto simp: allocate_shape_def)
  qed
qed

end
