(* ===== verification/Heap_Reachability.thy ===== *)
theory Heap_Reachability
  imports Heap_Contract
begin

text \<open>
  Correctness of the cycle collector: trial deletion finds the nodes with references from outside, marking
  finds what is reachable from them, and finalizing the unreachable anchors frees exactly the rest.
\<close>

section \<open>Roots and reachability\<close>

definition root :: "heap_view \<Rightarrow> raw_id multiset \<Rightarrow> raw_id \<Rightarrow> bool" where
  "root v R i \<longleftrightarrow> i \<in># R \<or> (\<exists>p. v i = Alive immortal p)"

inductive reach :: "heap_view \<Rightarrow> raw_id multiset \<Rightarrow> raw_id \<Rightarrow> bool" for v R where
  reach_root: "root v R i \<Longrightarrow> reach v R i"
| reach_edge: "reach v R i \<Longrightarrow> j \<in> set (status_refs (v i)) \<Longrightarrow> reach v R j"

text \<open>
  A heap at rest: nothing is queued, no node is undead, and an immortal node has fewer references inside
  the heap than its count.
\<close>

definition at_rest :: "heap \<Rightarrow> bool" where
  "at_rest h \<longleftrightarrow> zero_queue h = [] \<and> (\<forall>i n. status h i \<noteq> Undead n)
     \<and> (\<forall>i p. status h i = Alive immortal p \<longrightarrow> count (held (status h)) i < immortal)"

lemma rest_statuses:
  assumes "heap_ok h L R" "at_rest h"
  shows "status h i = Absent \<or> status h i = Reserved \<or> (\<exists>n p. status h i = Alive n p)"
  using assms countedD [of "status h" "zero_queue h" R i] by (cases "status h i") (auto simp: heap_ok_def at_rest_def)

lemma alive_bound:
  assumes "status h i = Alive n p"
  shows "n \<le> immortal"
proof -
  have bound: "unat (s :: u32) \<le> immortal" for s using unsigned_less [of s, where ?'a = nat] by simp
  show ?thesis
  proof (cases "is_leaf i")
    case True
    with assms bound show ?thesis by (auto simp: status_def leaf_status_def Let_def split: if_splits)
  next
    case False
    with assms have "state_status (slot_state (heap_slots h ! unat (raw_index i))) = Alive n p"
      by (auto simp: status_def Let_def split: if_splits)
    with bound show ?thesis by (cases "slot_state (heap_slots h ! unat (raw_index i))") auto
  qed
qed

lemma rest_counts:
  assumes ok: "heap_ok h L R" and rest: "at_rest h" and alive: "status h i = Alive n p"
  shows "count (held (status h)) i \<le> n" "count (held (status h)) i < n \<longleftrightarrow> root (status h) R i"
proof -
  have n: "0 < n" "n < immortal \<longrightarrow> count (held (status h)) i + count R i = n"
    using countedD [of "status h" "zero_queue h" R i] ok alive by (simp_all add: heap_ok_def refs_def)
  have big: "n < immortal \<or> n = immortal" using alive_bound [OF alive] by linarith
  have "count (held (status h)) i \<le> n \<and> (count (held (status h)) i < n \<longleftrightarrow> root (status h) R i)"
    using big
  proof
    assume "n < immortal"
    moreover have "i \<in># R \<longleftrightarrow> 0 < count R i" by simp
    ultimately show ?thesis
      using n(2) alive unfolding root_def by auto
  next
    assume "n = immortal"
    then have "count (held (status h)) i < n" "root (status h) R i" using rest alive by (auto simp: at_rest_def root_def)
    then show ?thesis by auto
  qed
  then show "count (held (status h)) i \<le> n" "count (held (status h)) i < n \<longleftrightarrow> root (status h) R i" by auto
qed

lemma rest_edge_alive:
  assumes "heap_ok h L R" "at_rest h" "j \<in># held (status h)"
  shows "\<exists>n p. status h j = Alive n p"
proof -
  have "counted (status h) (zero_queue h) R" "j \<in># refs (status h) R" using assms by (simp_all add: heap_ok_def refs_def)
  then show ?thesis by (cases rule: counted_referenced) (use assms in \<open>auto simp: at_rest_def\<close>)
qed

section \<open>The edges of the arena\<close>

definition slot_edges :: "arena_slot \<Rightarrow> raw_id list" where
  "slot_edges s = (case slot_state s of Live node \<Rightarrow> data_edges (node_payload node) | _ \<Rightarrow> [])"

definition slot_raw :: "heap \<Rightarrow> nat \<Rightarrow> raw_id" where
  "slot_raw h k = raw_of (case slot_state (heap_slots h ! k) of Live node \<Rightarrow> data_kind (node_payload node) | _ \<Rightarrow> ObjectNode) (slot_id h k)"

definition live_slots :: "heap \<Rightarrow> nat set" where
  "live_slots h = {k. k < length (heap_slots h) \<and> (\<exists>node. slot_state (heap_slots h ! k) = Live node)}"

lemma data_kind_node [simp]: "data_kind data \<noteq> StringNode" "data_kind data \<noteq> BigIntNode"
  by (cases data; simp)+

lemma slot_raw_live:
  assumes wf: "arena_wf h" and k: "k < length (heap_slots h)" "slot_state (heap_slots h ! k) = Live node"
  shows "unat (raw_index (slot_raw h k)) = k" "\<not> is_leaf (slot_raw h k)"
    "status h (slot_raw h k) = Alive (unat (node_strong node)) (NodePayload (node_payload node))"
proof -
  have "k < 2 ^ 32" using wf k by (simp add: arena_wf_def)
  then show index: "unat (raw_index (slot_raw h k)) = k"
    by (simp add: slot_raw_def slot_id_def unsigned_of_nat take_bit_nat_eq_self)
  show leaf: "\<not> is_leaf (slot_raw h k)" using k by (simp add: slot_raw_def)
  have "names_slot (slot_raw h k) (heap_slots h ! k)" using k by (simp add: names_slot_def slot_raw_def slot_id_def)
  with index leaf k show "status h (slot_raw h k) = Alive (unat (node_strong node)) (NodePayload (node_payload node))"
    by (simp add: status_def)
qed

lemma alive_slot:
  assumes wf: "arena_wf h" and i: "\<not> is_leaf i" "status h i = Alive n p"
  obtains node where "unat (raw_index i) < length (heap_slots h)" "slot_state (heap_slots h ! unat (raw_index i)) = Live node"
    "n = unat (node_strong node)" "p = NodePayload (node_payload node)" "slot_raw h (unat (raw_index i)) = i"
  using i(1)
proof (cases rule: live_node_cases [where h = h])
  case (live node)
  have "slot_raw h (unat (raw_index i)) = i"
    using live(3,4) by (intro raw_id_eqI) (simp_all add: slot_raw_def slot_id_def names_slot_def)
  with that live i(2) show ?thesis by simp
qed (use i(2) in blast)

lemma held_arena:
  assumes ok: "heap_ok h L R" and rest: "at_rest h"
  shows "held (status h) = mset (concat (map slot_edges (heap_slots h)))"
proof -
  let ?f = "\<lambda>i. mset (status_refs (status h i))" let ?K = "live_slots h"
  have wf: "arena_wf h" using ok by (simp add: heap_ok_def arena_inv_def)
  have "inj_on (slot_raw h) ?K"
    by (rule inj_on_inverseI [of _ "\<lambda>i. unat (raw_index i)"]) (use slot_raw_live [OF wf] in \<open>auto simp: live_slots_def\<close>)
  have outside: "?f i = {#}" if "i \<notin> slot_raw h ` ?K" for i
  proof (cases "\<exists>n data. status h i = Alive n (NodePayload data)")
    case True
    then obtain n data where alive: "status h i = Alive n (NodePayload data)" by blast
    then have "\<not> is_leaf i" by (auto simp: status_def leaf_status_def Let_def split: if_splits)
    then obtain node where "unat (raw_index i) \<in> ?K" "slot_raw h (unat (raw_index i)) = i"
      using alive_slot [OF wf _ alive] by (metis (mono_tags, lifting) live_slots_def mem_Collect_eq)
    with that show ?thesis by (metis image_eqI)
  next
    case False
    with rest_statuses [OF ok rest, of i] show ?thesis by (auto elim!: payload_refs.elims) (metis payload.exhaust payload_refs.simps(1))
  qed
  have "held (status h) = sum ?f (slot_raw h ` ?K)"
    unfolding held_def by (rule sum.mono_neutral_right) (use outside in auto)
  also have "\<dots> = (\<Sum>k \<in> ?K. ?f (slot_raw h k))" by (simp add: sum.reindex [OF \<open>inj_on (slot_raw h) ?K\<close>])
  also have "\<dots> = (\<Sum>k \<in> ?K. mset (slot_edges (heap_slots h ! k)))"
    by (rule sum.cong) (use slot_raw_live(3) [OF wf] in \<open>auto simp: live_slots_def slot_edges_def\<close>)
  also have "\<dots> = (\<Sum>k < length (heap_slots h). mset (slot_edges (heap_slots h ! k)))"
    by (rule sum.mono_neutral_left) (auto simp: live_slots_def slot_edges_def split: slot_state.split)
  also have "\<dots> = mset (concat (map slot_edges (heap_slots h)))"
    by (simp add: mset_concat sum_list_sum_nth atLeast0LessThan comp_def)
  finally show ?thesis .
qed

section \<open>Trial deletion\<close>

lemma live_index_ok:
  assumes "arena_wf h" "\<not> is_leaf i" "status h i = Alive n p"
  shows "live_index h i = Inr (unat (raw_index i))"
proof -
  obtain node where node: "unat (raw_index i) < length (heap_slots h)" "slot_state (heap_slots h ! unat (raw_index i)) = Live node"
    using alive_slot [OF assms] .
  have "status h i \<noteq> Absent" using assms(3) by simp
  then have "validate_slot_identity h i = Inr (unat (raw_index i))" using statusE [OF _ assms(2)] by metis
  with node show ?thesis by (simp add: live_index_def)
qed

text \<open>The trial table holds a number for every live slot and nothing for the others.\<close>

definition trial_rep :: "heap \<Rightarrow> u32 option list \<Rightarrow> (raw_id \<Rightarrow> nat) \<Rightarrow> bool" where
  "trial_rep h trial c \<longleftrightarrow> length trial = length (heap_slots h)
     \<and> (\<forall>k < length (heap_slots h). if k \<in> live_slots h then \<exists>s. trial ! k = Some s \<and> unat s = c (slot_raw h k) else trial ! k = None)"

lemma trial_rep_live: "trial_rep h trial c \<Longrightarrow> k \<in> live_slots h \<Longrightarrow> \<exists>s. trial ! k = Some s \<and> unat s = c (slot_raw h k)"
  by (auto simp: trial_rep_def live_slots_def split: if_splits)

lemma trial_rep_other: "trial_rep h trial c \<Longrightarrow> k < length (heap_slots h) \<Longrightarrow> k \<notin> live_slots h \<Longrightarrow> trial ! k = None"
  by (auto simp: trial_rep_def)

lemma trial_rep_cong: "trial_rep h trial c \<Longrightarrow> (\<And>k. k \<in> live_slots h \<Longrightarrow> c (slot_raw h k) = c' (slot_raw h k)) \<Longrightarrow> trial_rep h trial c'"
  by (simp add: trial_rep_def split: if_splits)

lemma trial_rep_initial: "trial_rep h (initial_trial h) (\<lambda>i. case status h i of Alive n _ \<Rightarrow> n | _ \<Rightarrow> 0)" if "arena_wf h"
  using slot_raw_live(3) [OF that]
  by (auto simp: trial_rep_def initial_trial_def live_slots_def split: slot_state.split)

lemma trial_edges_append:
  "trial_edges h trial (xs @ ys) = and_then (trial_edges h trial xs) (\<lambda>trial. trial_edges h trial ys)"
proof (induction xs arbitrary: trial)
  case (Cons x xs)
  then show ?case by (auto simp: and_then_assoc intro!: and_then_cong split: option.split)
qed simp

lemma trial_slots_edges: "trial_slots h trial ss = trial_edges h trial (concat (map slot_edges ss))"
proof (induction ss arbitrary: trial)
  case (Cons s ss)
  then show ?case by (cases "slot_state s") (simp_all add: slot_edges_def trial_edges_append)
qed simp

lemma trial_edges_ok:
  assumes wf: "arena_wf h" and "trial_rep h trial (\<lambda>i. c i + count (mset edges) i)"
    and "\<forall>e \<in> set edges. \<not> is_leaf e \<longrightarrow> (\<exists>n p. status h e = Alive n p)"
  shows "\<exists>trial'. trial_edges h trial edges = Inr trial' \<and> trial_rep h trial' c"
  using assms(2,3)
proof (induction edges arbitrary: trial)
  case (Cons e edges)
  show ?case
  proof (cases "is_leaf e")
    case True
    have "slot_raw h k \<noteq> e" if "k \<in> live_slots h" for k
      using slot_raw_live(2) [OF wf] that True by (auto simp: live_slots_def)
    then have "trial_rep h trial (\<lambda>i. c i + count (mset edges) i)" by (intro trial_rep_cong [OF Cons.prems(1)]) auto
    with Cons True show ?thesis by simp
  next
    case False
    let ?k = "unat (raw_index e)"
    obtain n p where alive: "status h e = Alive n p" using Cons.prems(2) False by auto
    obtain node where slot: "?k < length (heap_slots h)" "slot_state (heap_slots h ! ?k) = Live node" "slot_raw h ?k = e"
      using alive_slot [OF wf False alive] .
    then have live: "?k \<in> live_slots h" by (simp add: live_slots_def)
    obtain s where s: "trial ! ?k = Some s" "unat s = c e + Suc (count (mset edges) e)"
      using trial_rep_live [OF Cons.prems(1) live] slot(3) by auto
    have nz: "s \<noteq> 0" using s(2) by auto
    let ?trial = "trial[?k := Some (s - 1)]"
    have "trial_rep h ?trial (\<lambda>i. c i + count (mset edges) i)"
      unfolding trial_rep_def
    proof (intro conjI allI impI)
      show "length ?trial = length (heap_slots h)" using Cons.prems(1) by (simp add: trial_rep_def)
      fix k assume k: "k < length (heap_slots h)"
      have other: "slot_raw h k \<noteq> e" if "k \<noteq> ?k" "k \<in> live_slots h"
        using that slot_raw_live(1) [OF wf k] by (auto simp: live_slots_def)
      show "if k \<in> live_slots h then \<exists>t. ?trial ! k = Some t \<and> unat t = c (slot_raw h k) + count (mset edges) (slot_raw h k)
          else ?trial ! k = None"
        using trial_rep_live [OF Cons.prems(1), of k] trial_rep_other [OF Cons.prems(1) k] k live s nz slot other Cons.prems(1)
        by (cases "k = ?k") (auto simp: unat_minus_one trial_rep_def [of h trial])
    qed
    from Cons.IH [OF this] Cons.prems(2) obtain trial' where "trial_edges h ?trial edges = Inr trial'" "trial_rep h trial' c" by auto
    moreover have "?k < length trial" using Cons.prems(1) slot(1) by (simp add: trial_rep_def)
    ultimately show ?thesis using False live_index_ok [OF wf False alive] s(1) nz by simp
  qed
qed auto

lemma trial_ok:
  assumes ok: "heap_ok h L R" and rest: "at_rest h"
  shows "\<exists>trial. trial_slots h (initial_trial h) (heap_slots h) = Inr trial \<and> length trial = length (heap_slots h)
    \<and> (\<forall>k < length (heap_slots h). is_external_root (trial ! k) \<longleftrightarrow> k \<in> live_slots h \<and> root (status h) R (slot_raw h k))"
proof -
  have wf: "arena_wf h" using ok by (simp add: heap_ok_def arena_inv_def)
  let ?edges = "concat (map slot_edges (heap_slots h))"
  let ?c = "\<lambda>i. case status h i of Alive n _ \<Rightarrow> n - count (held (status h)) i | _ \<Rightarrow> 0"
  have alive: "\<exists>n p. status h (slot_raw h k) = Alive n p" if "k \<in> live_slots h" for k
    using that slot_raw_live(3) [OF wf] by (auto simp: live_slots_def)
  have "trial_rep h (initial_trial h) (\<lambda>i. ?c i + count (mset ?edges) i)"
  proof (rule trial_rep_cong [OF trial_rep_initial [OF wf]])
    fix k assume "k \<in> live_slots h"
    then obtain n p where "status h (slot_raw h k) = Alive n p" using alive by blast
    with rest_counts(1) [OF ok rest this] show "(case status h (slot_raw h k) of Alive n _ \<Rightarrow> n | _ \<Rightarrow> 0)
        = ?c (slot_raw h k) + count (mset ?edges) (slot_raw h k)" unfolding held_arena [OF ok rest] by simp
  qed
  moreover have "\<forall>e \<in> set ?edges. \<not> is_leaf e \<longrightarrow> (\<exists>n p. status h e = Alive n p)"
    using rest_edge_alive [OF ok rest] unfolding held_arena [OF ok rest] set_mset_mset by blast
  ultimately obtain trial where trial: "trial_edges h (initial_trial h) ?edges = Inr trial" "trial_rep h trial ?c"
    using trial_edges_ok [OF wf, of "initial_trial h" ?c ?edges] by blast
  have "is_external_root (trial ! k) \<longleftrightarrow> k \<in> live_slots h \<and> root (status h) R (slot_raw h k)" if k: "k < length (heap_slots h)" for k
  proof (cases "k \<in> live_slots h")
    case True
    then obtain n p where n: "status h (slot_raw h k) = Alive n p" using alive by blast
    moreover obtain s where "trial ! k = Some s" "unat s = ?c (slot_raw h k)" using trial_rep_live [OF trial(2) True] by blast
    ultimately show ?thesis using True rest_counts(2) [OF ok rest n]
      by (auto simp: is_external_root_def unat_eq_0 [symmetric])
  next
    case False
    with trial_rep_other [OF trial(2) k] show ?thesis by (simp add: is_external_root_def)
  qed
  with trial show ?thesis by (auto simp: trial_slots_edges trial_rep_def)
qed

section \<open>Marking\<close>

lemma mark_edges_ok:
  assumes wf: "arena_wf h" and "length r = length (heap_slots h)"
    and "\<forall>e \<in> set edges. \<not> is_leaf e \<longrightarrow> (\<exists>n p. status h e = Alive n p)"
  shows "\<exists>r' w'. mark_edges h edges r w = Inr (r', w') \<and> length r' = length r
    \<and> (\<forall>k < length r. r' ! k \<longleftrightarrow> r ! k \<or> (\<exists>e \<in> set edges. \<not> is_leaf e \<and> unat (raw_index e) = k))
    \<and> set w' = set w \<union> {k. k < length r \<and> r' ! k \<and> \<not> r ! k}"
  using assms(2,3)
proof (induction edges arbitrary: r w)
  case (Cons e edges)
  show ?case
  proof (cases "is_leaf e")
    case True
    with Cons.IH [of r w] Cons.prems show ?thesis by simp
  next
    case False
    let ?k = "unat (raw_index e)"
    obtain n p where alive: "status h e = Alive n p" using Cons.prems(2) False by auto
    have k: "?k < length r" using alive_slot [OF wf False alive] Cons.prems(1) by metis
    let ?r = "r[?k := True]" let ?w = "if r ! ?k then w else w @ [?k]"
    have step: "mark_edges h (e # edges) r w = mark_edges h edges ?r ?w"
      using False live_index_ok [OF wf False alive] k by (simp add: list_update_id split: if_split) (metis list_update_id)
    obtain r' w' where r': "mark_edges h edges ?r ?w = Inr (r', w')" "length r' = length r"
        "\<forall>k < length r. r' ! k \<longleftrightarrow> ?r ! k \<or> (\<exists>e \<in> set edges. \<not> is_leaf e \<and> unat (raw_index e) = k)"
        "set w' = set ?w \<union> {k. k < length r \<and> r' ! k \<and> \<not> ?r ! k}"
      using Cons.IH [of ?r ?w] Cons.prems by auto
    have "\<forall>k < length r. r' ! k \<longleftrightarrow> r ! k \<or> (\<exists>e' \<in> set (e # edges). \<not> is_leaf e' \<and> unat (raw_index e') = k)"
      using r'(3) False k by (auto simp: nth_list_update)
    moreover have "set w' = set w \<union> {k. k < length r \<and> r' ! k \<and> \<not> r ! k}"
      using r'(3,4) k by (auto simp: nth_list_update split: if_splits)
    ultimately show ?thesis using step r'(1,2) by auto
  qed
qed auto

definition mark_inv :: "heap \<Rightarrow> raw_id multiset \<Rightarrow> bool list \<Rightarrow> nat list \<Rightarrow> bool" where
  "mark_inv h R r w \<longleftrightarrow> length r = length (heap_slots h) \<and> set w \<subseteq> {k. k < length r \<and> r ! k}
     \<and> (\<forall>k < length r. r ! k \<longrightarrow> k \<in> live_slots h \<and> reach (status h) R (slot_raw h k))
     \<and> (\<forall>k \<in> live_slots h. root (status h) R (slot_raw h k) \<longrightarrow> r ! k)
     \<and> (\<forall>k < length r. r ! k \<longrightarrow> k \<notin> set w \<longrightarrow> (\<forall>e \<in> set (slot_edges (heap_slots h ! k)). \<not> is_leaf e \<longrightarrow> r ! unat (raw_index e)))"

lemma mark_invD:
  assumes "mark_inv h R r w"
  shows "length r = length (heap_slots h)" "set w \<subseteq> {k. k < length r \<and> r ! k}"
    "\<And>k. k < length r \<Longrightarrow> r ! k \<Longrightarrow> k \<in> live_slots h \<and> reach (status h) R (slot_raw h k)"
    "\<And>k. k \<in> live_slots h \<Longrightarrow> root (status h) R (slot_raw h k) \<Longrightarrow> r ! k"
    "\<And>k e. k < length r \<Longrightarrow> r ! k \<Longrightarrow> k \<notin> set w \<Longrightarrow> e \<in> set (slot_edges (heap_slots h ! k)) \<Longrightarrow> \<not> is_leaf e
       \<Longrightarrow> r ! unat (raw_index e)"
  using assms unfolding mark_inv_def by blast+

lemma slot_edges_held:
  assumes "heap_ok h L R" "at_rest h" "k < length (heap_slots h)" "e \<in> set (slot_edges (heap_slots h ! k))"
  shows "\<exists>n p. status h e = Alive n p"
proof (rule rest_edge_alive [OF assms(1,2)])
  show "e \<in># held (status h)" unfolding held_arena [OF assms(1,2)] using assms(3,4) by auto
qed

lemma slot_edges_status:
  assumes "arena_wf h" "k \<in> live_slots h"
  shows "status_refs (status h (slot_raw h k)) = slot_edges (heap_slots h ! k)"
  using assms slot_raw_live(3) [OF assms(1)] by (auto simp: live_slots_def slot_edges_def)

lemma mark_step:
  assumes ok: "heap_ok h L R" "at_rest h" and inv: "mark_inv h R r (k # w)"
  shows "\<exists>node r' w'. slot_state (heap_slots h ! k) = Live node \<and> k < length (heap_slots h)
    \<and> mark_edges h (data_edges (node_payload node)) r w = Inr (r', w') \<and> mark_inv h R r' w'"
proof -
  have wf: "arena_wf h" using ok(1) by (simp add: heap_ok_def arena_inv_def)
  have len: "length r = length (heap_slots h)" and k: "k < length r" "r ! k" using inv by (simp_all add: mark_inv_def)
  then have live: "k \<in> live_slots h" and reached: "reach (status h) R (slot_raw h k)" using inv by (auto simp: mark_inv_def)
  then obtain node where node: "slot_state (heap_slots h ! k) = Live node" by (auto simp: live_slots_def)
  let ?edges = "slot_edges (heap_slots h ! k)"
  have edges: "?edges = data_edges (node_payload node)" using node by (simp add: slot_edges_def)
  have alive: "\<exists>n p. status h e = Alive n p" if "e \<in> set ?edges" for e using slot_edges_held [OF ok _ that] k(1) len by simp
  then obtain r' w' where r': "mark_edges h ?edges r w = Inr (r', w')" "length r' = length r"
      "\<forall>k < length r. r' ! k \<longleftrightarrow> r ! k \<or> (\<exists>e \<in> set ?edges. \<not> is_leaf e \<and> unat (raw_index e) = k)"
      "set w' = set w \<union> {k. k < length r \<and> r' ! k \<and> \<not> r ! k}"
    using mark_edges_ok [OF wf len, of ?edges w] by blast
  have target: "unat (raw_index e) \<in> live_slots h \<and> reach (status h) R (slot_raw h (unat (raw_index e)))"
    if e: "e \<in> set ?edges" "\<not> is_leaf e" for e
  proof -
    obtain n p where "status h e = Alive n p" using alive [OF e(1)] by blast
    with alive_slot [OF wf e(2)] have "unat (raw_index e) \<in> live_slots h" "slot_raw h (unat (raw_index e)) = e"
      by (metis (mono_tags, lifting) live_slots_def mem_Collect_eq)+
    with reach_edge [OF reached] e(1) slot_edges_status [OF wf live] show ?thesis by simp
  qed
  have inside: "unat (raw_index e) < length r" if "j < length r" "e \<in> set (slot_edges (heap_slots h ! j))" "\<not> is_leaf e" for j e
    using slot_edges_held [OF ok, of j e] alive_slot [OF wf that(3)] that len by metis
  have "mark_inv h R r' w'"
    unfolding mark_inv_def r'(2)
  proof (intro conjI allI impI ballI)
    show "length r = length (heap_slots h)" by (rule len)
    have "set (k # w) \<subseteq> {k. k < length r \<and> r ! k}" using mark_invD(2) [OF inv] .
    moreover have "{k. k < length r \<and> r ! k} \<subseteq> {k. k < length r \<and> r' ! k}" using r'(3) by blast
    ultimately show "set w' \<subseteq> {k. k < length r \<and> r' ! k}" unfolding r'(4) by auto
  next
    fix j assume "j < length r" "r' ! j"
    then show "j \<in> live_slots h" "reach (status h) R (slot_raw h j)"
      using r'(3) target mark_invD(3) [OF inv] by blast+
  next
    fix j assume "j \<in> live_slots h" "root (status h) R (slot_raw h j)"
    then show "r' ! j" using mark_invD(4) [OF inv] r'(3) len by (simp add: live_slots_def)
  next
    fix j e assume j: "j < length r" "r' ! j" "j \<notin> set w'" and e: "e \<in> set (slot_edges (heap_slots h ! j))" "\<not> is_leaf e"
    from j have old: "r ! j" "j \<notin> set w" using r'(4) by auto
    show "r' ! unat (raw_index e)"
    proof (cases "j = k")
      case True
      with e r'(3) inside [OF j(1) e] show ?thesis by auto
    next
      case False
      with mark_invD(5) [OF inv j(1) old(1) _ e] old(2) have "r ! unat (raw_index e)" by simp
      with r'(3) inside [OF j(1) e] show ?thesis by simp
    qed
  qed
  with node edges r'(1) k(1) len show ?thesis by auto
qed

lemma mark_loop_ok:
  assumes ok: "heap_ok h L R" "at_rest h" and "mark_inv h R r w"
  shows "\<exists>r'. mark_loop h r w = Inr r' \<and> mark_inv h R r' []"
  using assms
proof (induction h r w rule: mark_loop.induct)
  case (1 h r w)
  show ?case
  proof (cases w)
    case Nil
    with 1(4) show ?thesis by (simp add: mark_loop.simps)
  next
    case (Cons k rest)
    obtain node r' w' where step: "slot_state (heap_slots h ! k) = Live node" "k < length (heap_slots h)"
        "mark_edges h (data_edges (node_payload node)) r rest = Inr (r', w')" "mark_inv h R r' w'"
      using mark_step [OF 1(2,3)] 1(4) Cons by blast
    then have slot: "vec_get (heap_slots h) k = Inr (heap_slots h ! k)" by simp
    have "mark_loop h r w = mark_loop h r' w'" using Cons step slot by (simp add: mark_loop.simps [of h r])
    with 1(1) [OF Cons slot step(1,3) refl 1(2,3) step(4)] show ?thesis by simp
  qed
qed

lemma marked_iff:
  assumes ok: "heap_ok h L R" "at_rest h" and inv: "mark_inv h R r []" and k: "k \<in> live_slots h"
  shows "r ! k \<longleftrightarrow> reach (status h) R (slot_raw h k)"
proof
  have wf: "arena_wf h" using ok(1) by (simp add: heap_ok_def arena_inv_def)
  have len: "length r = length (heap_slots h)" using mark_invD(1) [OF inv] .
  show "reach (status h) R (slot_raw h k)" if "r ! k" using that mark_invD(3) [OF inv] k len by (simp add: live_slots_def)
  have "r ! unat (raw_index i)" if "reach (status h) R i" "\<not> is_leaf i" "status h i = Alive n p" for i n p
    using that
  proof (induction arbitrary: n p rule: reach.induct)
    case (reach_root i)
    with alive_slot [OF wf] have "unat (raw_index i) \<in> live_slots h" "slot_raw h (unat (raw_index i)) = i"
      by (metis (mono_tags, lifting) live_slots_def mem_Collect_eq)+
    with reach_root mark_invD(4) [OF inv] show ?case by simp
  next
    case (reach_edge i j)
    from reach_edge(2) obtain m data where alive: "status h i = Alive m (NodePayload data)" "j \<in> set (data_edges data)"
      using rest_statuses [OF ok, of i] by (auto elim!: payload_refs.elims) (metis payload.exhaust payload_refs.simps empty_iff empty_set)
    then have node: "\<not> is_leaf i" by (auto simp: status_def leaf_status_def Let_def split: if_splits)
    let ?i = "unat (raw_index i)"
    have "?i \<in> live_slots h" "slot_raw h ?i = i" using alive_slot [OF wf node alive(1)] by (metis (mono_tags, lifting) live_slots_def mem_Collect_eq)+
    then have "j \<in> set (slot_edges (heap_slots h ! ?i))" "?i < length r"
      using slot_edges_status [OF wf, of ?i] alive len by (auto simp: live_slots_def)
    with mark_invD(5) [OF inv _ reach_edge.IH [OF node alive(1)]] reach_edge.prems(1) show ?case by simp
  qed
  moreover obtain node where "slot_state (heap_slots h ! k) = Live node" "k < length (heap_slots h)" using k by (auto simp: live_slots_def)
  ultimately show "r ! k" if "reach (status h) R (slot_raw h k)" using that slot_raw_live [OF wf, of k node] by metis
qed

section \<open>Anchors\<close>

definition is_anchor :: "raw_id \<Rightarrow> bool" where
  "is_anchor i \<longleftrightarrow> raw_kind i \<in> {ObjectNode, FunctionBytecodeNode, ContextNode}"

lemma anchor_of_slot:
  assumes "slot_state (heap_slots h ! k) = Live node"
  shows "set (anchor_of k (heap_slots h ! k) (node_payload node)) = (if is_anchor (slot_raw h k) then {slot_raw h k} else {})"
  using assms by (cases "node_payload node") (simp_all add: anchor_of_def is_anchor_def slot_raw_def slot_id_def Let_def)

definition garbage_anchors :: "heap \<Rightarrow> bool list \<Rightarrow> nat \<Rightarrow> raw_id set" where
  "garbage_anchors h r n = {slot_raw h k |k. n \<le> k \<and> k \<in> live_slots h \<and> \<not> r ! k \<and> is_anchor (slot_raw h k)}"

lemma garbage_anchors_step:
  "garbage_anchors h r n = (if n \<in> live_slots h \<and> \<not> r ! n \<and> is_anchor (slot_raw h n) then {slot_raw h n} else {}) \<union> garbage_anchors h r (Suc n)"
proof -
  have "n \<le> k \<longleftrightarrow> k = n \<or> Suc n \<le> k" for k by auto
  then show ?thesis unfolding garbage_anchors_def by (auto split: if_splits)
qed

lemma collect_anchors_ok:
  assumes "arena_wf h" "length r = length (heap_slots h)" "ss = drop n (heap_slots h)"
  shows "\<exists>c anchors'. collect_anchors r n ss candidates anchors = Inr (c, anchors') \<and> set anchors' = set anchors \<union> garbage_anchors h r n"
  using assms(3)
proof (induction ss arbitrary: n candidates anchors)
  case Nil
  then have "k \<notin> live_slots h" if "n \<le> k" for k using that by (simp add: live_slots_def)
  then show ?case by (auto simp: garbage_anchors_def)
next
  case (Cons s ss)
  then have n: "n < length (heap_slots h)" "s = heap_slots h ! n" "ss = drop (Suc n) (heap_slots h)"
    by (metis drop_eq_Nil leI list.distinct(1), metis nth_via_drop, metis drop_Suc list.sel(3) tl_drop)
  have small: "n < 2 ^ 32" using n(1) assms(1) by (simp add: arena_wf_def)
  note IH = Cons.IH [OF n(3)]
  show ?case
  proof (cases "\<exists>node. slot_state s = Live node")
    case True
    then obtain node where node: "slot_state s = Live node" ..
    then have live: "n \<in> live_slots h" using n by (simp add: live_slots_def)
    obtain c anchors' where "collect_anchors r (Suc n) ss (if r ! n then candidates else saturating_inc candidates)
          (if r ! n then anchors else anchors @ anchor_of n s (node_payload node)) = Inr (c, anchors')"
        "set anchors' = set (if r ! n then anchors else anchors @ anchor_of n s (node_payload node)) \<union> garbage_anchors h r (Suc n)"
      using IH by blast
    then show ?thesis
      using node live small n assms(2) anchor_of_slot [of h n node] garbage_anchors_step [of h r n] by (auto split: if_splits)
  next
    case False
    then have "n \<notin> live_slots h" using n by (simp add: live_slots_def)
    moreover have "collect_anchors r n (s # ss) candidates anchors = collect_anchors r (Suc n) ss candidates anchors"
      using False by (cases "slot_state s") simp_all
    ultimately show ?thesis using IH [of candidates anchors] garbage_anchors_step [of h r n] by simp
  qed
qed

lemma anchors_found:
  assumes ok: "heap_ok h L R" "at_rest h"
  shows "\<exists>trial r c anchors. trial_slots h (initial_trial h) (heap_slots h) = Inr trial
    \<and> mark_loop h (map is_external_root trial) (root_indices trial) = Inr r
    \<and> collect_anchors r 0 (heap_slots h) 0 [] = Inr (c, anchors)
    \<and> set anchors = {i. is_anchor i \<and> (\<exists>n p. status h i = Alive n p) \<and> \<not> reach (status h) R i}"
proof -
  have wf: "arena_wf h" using ok(1) by (simp add: heap_ok_def arena_inv_def)
  obtain trial where trial: "trial_slots h (initial_trial h) (heap_slots h) = Inr trial" "length trial = length (heap_slots h)"
    and roots: "\<forall>k < length (heap_slots h). is_external_root (trial ! k) \<longleftrightarrow> k \<in> live_slots h \<and> root (status h) R (slot_raw h k)"
    using trial_ok [OF ok] by blast
  have "mark_inv h R (map is_external_root trial) (root_indices trial)"
    using roots trial(2) by (auto simp: mark_inv_def root_indices_def live_slots_def intro: reach_root)
  then obtain r where r: "mark_loop h (map is_external_root trial) (root_indices trial) = Inr r" "mark_inv h R r []"
    using mark_loop_ok [OF ok] by blast
  obtain c anchors where anchors: "collect_anchors r 0 (heap_slots h) 0 [] = Inr (c, anchors)" "set anchors = garbage_anchors h r 0"
    using collect_anchors_ok [OF wf mark_invD(1) [OF r(2)], of "heap_slots h" 0 0 "[]"] by auto
  have "garbage_anchors h r 0 = {i. is_anchor i \<and> (\<exists>n p. status h i = Alive n p) \<and> \<not> reach (status h) R i}" (is "_ = ?G")
  proof (intro equalityI subsetI)
    fix i assume "i \<in> garbage_anchors h r 0"
    then obtain k where k: "i = slot_raw h k" "k \<in> live_slots h" "\<not> r ! k" "is_anchor i" by (auto simp: garbage_anchors_def)
    then show "i \<in> ?G" using marked_iff [OF ok r(2) k(2)] slot_raw_live(3) [OF wf] by (auto simp: live_slots_def)
  next
    fix i assume i: "i \<in> ?G"
    then obtain n p where alive: "\<not> is_leaf i" "status h i = Alive n p" by (cases i) (auto simp: is_anchor_def)
    then have "unat (raw_index i) \<in> live_slots h" "slot_raw h (unat (raw_index i)) = i"
      using alive_slot [OF wf] by (metis (mono_tags, lifting) live_slots_def mem_Collect_eq)+
    with marked_iff [OF ok r(2)] i show "i \<in> garbage_anchors h r 0" unfolding garbage_anchors_def by (smt (verit) mem_Collect_eq zero_le)
  qed
  with trial(1) r(1) anchors show ?thesis by auto
qed

section \<open>Sweeping\<close>

text \<open>
  While anchors are finalized, every node has faded from its state before the collection, or is an
  unreachable node whose payload is gone.
\<close>

definition swept :: "heap_view \<Rightarrow> raw_id multiset \<Rightarrow> heap_view \<Rightarrow> bool" where
  "swept v\<^sub>0 R v \<longleftrightarrow> (\<forall>i. fades (v\<^sub>0 i) (v i)
     \<or> (\<exists>n m p. v\<^sub>0 i = Alive n p \<and> v i = Undead m \<and> m \<le> n \<and> \<not> reach v\<^sub>0 R i))"

lemma sweptE:
  assumes "swept v\<^sub>0 R v"
  obtains "fades (v\<^sub>0 i) (v i)" | n m p where "v\<^sub>0 i = Alive n p" "v i = Undead m" "m \<le> n" "\<not> reach v\<^sub>0 R i"
  using assms unfolding swept_def by blast

lemma swept_decay:
  assumes "swept v\<^sub>0 R v" "decay v w"
  shows "swept v\<^sub>0 R w"
  unfolding swept_def
proof
  fix i
  have step: "fades (v i) (w i)" using decayD [OF assms(2)] .
  show "fades (v\<^sub>0 i) (w i) \<or> (\<exists>n m p. v\<^sub>0 i = Alive n p \<and> w i = Undead m \<and> m \<le> n \<and> \<not> reach v\<^sub>0 R i)"
    using assms(1)
  proof (cases rule: sweptE [where i = i])
    case 1
    then show ?thesis using fades_trans [OF _ step] by blast
  next
    case (2 n m p)
    then have "n \<noteq> immortal" using reach_root [of v\<^sub>0 R i] by (auto simp: root_def)
    then show ?thesis using 2 step by (cases "w i") (auto simp: fades_def)
  qed
qed

lemma swept_bury:
  assumes "swept v\<^sub>0 R v" "v i = Alive n p" "\<not> reach v\<^sub>0 R i"
  shows "swept v\<^sub>0 R (v(i := Undead n))"
proof -
  obtain m where "v\<^sub>0 i = Alive m p" "n \<le> m"
    using assms(1) by (cases rule: sweptE [where i = i]) (use assms(2) in \<open>auto simp: fades_def\<close>)
  with assms show ?thesis by (auto simp: swept_def)
qed

lemma swept_alive:
  assumes "swept v\<^sub>0 R v" "v i = Alive n p"
  shows "\<exists>m. v\<^sub>0 i = Alive m p \<and> n \<le> m"
  using assms(1) by (cases rule: sweptE [where i = i]) (use assms(2) in \<open>auto simp: fades_def\<close>)

text \<open>What is reachable before the collection stays alive as long as the counts are right.\<close>

lemma reach_alive:
  assumes ok: "heap_ok h L R" and swept: "swept v\<^sub>0 R (status h)" and rest: "\<And>i n. v\<^sub>0 i \<noteq> Undead n"
    and "reach v\<^sub>0 R i"
  shows "\<exists>n m p. status h i = Alive n p \<and> v\<^sub>0 i = Alive m p"
proof -
  have counted: "counted (status h) (zero_queue h) R" using ok by (simp add: heap_ok_def)
  have referenced: "\<exists>n m p. status h i = Alive n p \<and> v\<^sub>0 i = Alive m p"
    if "i \<in># refs (status h) R" "reach v\<^sub>0 R i" for i
    using counted that(1)
  proof (cases rule: counted_referenced)
    case (alive n p)
    then show ?thesis using swept_alive [OF swept] by blast
  next
    case (undead n)
    show ?thesis using swept
      by (cases rule: sweptE [where i = i]) (use undead that(2) rest in \<open>auto simp: fades_def\<close>)
  qed
  from assms(4) show ?thesis
  proof (induction rule: reach.induct)
    case (reach_root i)
    then have r: "reach v\<^sub>0 R i" by (rule reach.reach_root)
    from reach_root show ?case unfolding root_def
    proof
      assume "i \<in># R"
      with referenced r show ?thesis by (simp add: refs_def)
    next
      assume "\<exists>p. v\<^sub>0 i = Alive immortal p"
      then obtain p where p: "v\<^sub>0 i = Alive immortal p" ..
      show ?thesis using swept
        by (cases rule: sweptE [where i = i]) (use p r in \<open>auto simp: fades_def split: node_status.splits\<close>)
    qed
  next
    case (reach_edge i j)
    then obtain n m p where i: "status h i = Alive n p" "v\<^sub>0 i = Alive m p" by blast
    with reach_edge(2) have "j \<in> set (status_refs (status h i))" by simp
    then have "j \<in># held (status h)" by (auto simp: held_member)
    with referenced reach.reach_edge [OF reach_edge(1,2)] show ?case by (simp add: refs_def)
  qed
qed

lemma is_live_iff: "is_live h i \<longleftrightarrow> (\<exists>n p. status h i = Alive n p)"
proof (cases "status h i = Absent")
  case True
  then show ?thesis using validate_leaf_identity_Inr [of h i] validate_slot_identity_Inr [of h i]
    by (auto simp: is_live_def status_def names_leaf_def names_slot_def leaf_status_def leaf_is_live_def state_status_Absent Let_def
        split: sum.split if_splits slot_state.split)
next
  case False
  show ?thesis
  proof (cases "is_leaf i")
    case True
    from False True show ?thesis
      by (rule status_leafE) (auto simp: True is_live_def leaf_status_def leaf_is_live_def names_leaf_def)
  next
    case node: False
    from False node show ?thesis
    proof (rule statusE)
      assume "status h i = state_status (slot_state (heap_slots h ! unat (raw_index i)))"
        "validate_slot_identity h i = Inr (unat (raw_index i))"
      then show ?thesis using node by (cases "slot_state (heap_slots h ! unat (raw_index i))") (auto simp: is_live_def)
    qed
  qed
qed

lemma finalize_anchor_ok:
  assumes ok: "heap_ok h L R" and i: "is_anchor i" "status h i = Alive n p"
  shows "\<exists>h' L' cleanup'. finalize_cycle_anchor h i cleanup = Inr (h', cleanup') \<and> heap_ok h' L' R
    \<and> decay ((status h)(i := Undead n)) (status h')
    \<and> atoms_held (status h') + mset (cleanup_atoms cleanup') = atoms_held (status h) + mset (cleanup_atoms cleanup)"
proof -
  have inv: "arena_inv h L" "arena_wf h" and L: "set L = weak_ids (status h)" and counted: "counted (status h) (zero_queue h) R"
    using ok by (simp_all add: heap_ok_def arena_inv_def)
  have node: "\<not> is_leaf i" using i(1) by (cases i) (simp_all add: is_anchor_def)
  have here: "status h i \<noteq> Absent" using i(2) by simp
  let ?k = "unat (raw_index i)"
  obtain nd where slot: "?k < length (heap_slots h)" "slot_state (heap_slots h ! ?k) = Live nd" "n = unat (node_strong nd)"
    "p = NodePayload (node_payload nd)" using alive_slot [OF inv(2) node i(2)] .
  obtain valid: "validate_slot_identity h i = Inr ?k" and kind: "raw_kind i = data_kind (node_payload nd)"
    using here node by (rule statusE) (use slot(2) in \<open>auto simp: names_slot_def\<close>)
  let ?data = "node_payload nd" let ?st = "Zombie (raw_kind i) (node_strong nd)" let ?h = "set_state h ?k ?st"
  have v: "status ?h = (status h)(i := Undead n)" using status_set_state [OF here node, of ?st] slot(3) by simp
  have "arena_inv ?h L" using slot(2) kind by (intro arena_inv_set_state [OF inv(1)]) simp_all
  moreover have "counted (status ?h) (zero_queue ?h) (R + mset (data_edges ?data))"
    using counted_bury [OF counted i(2)] slot(4) by (simp add: v)
  ultimately obtain h' where h': "finish_node ?h i ?data cleanup = Inr (h', note_finalized i ?data cleanup)"
    "heap_ok h' (unlinked i ?data L) R" "decay (status ?h) (status h')" "atoms_held (status h') = atoms_held (status ?h)"
    using finish_ok [of ?h L "status h" i ?data "Undead n" R cleanup] L i(2) slot(4) kind v by auto
  have "finalize_cycle_anchor h i cleanup = Inr (h', note_finalized i ?data cleanup)"
    using i(1) valid slot(1,2) kind h'(1) by (cases i) (simp_all add: finalize_cycle_anchor_def is_anchor_def)
  moreover have "atoms_held (status h') + mset (cleanup_atoms (note_finalized i ?data cleanup))
      = atoms_held (status h) + mset (cleanup_atoms cleanup)"
    using atoms_held_update [of "status h" i "Undead n"] i(2) slot(4) h'(4) v by (simp add: status_atoms_def)
  ultimately show ?thesis using h'(2,3) v by auto
qed

lemma decay_alive: "decay v w \<Longrightarrow> w i = Alive n p \<Longrightarrow> \<exists>m. v i = Alive m p"
  using decayD [of v w i] by (auto simp: fades_def)

lemma merge_cleanup_atoms [simp]: "cleanup_atoms (merge_cleanup c d) = cleanup_atoms c @ cleanup_atoms d"
  by (simp add: merge_cleanup_def)

lemma finalize_anchors_ok:
  assumes "heap_ok h L R" "swept v\<^sub>0 R (status h)" "zero_queue h = []" "\<forall>a \<in> set anchors. is_anchor a \<and> \<not> reach v\<^sub>0 R a"
  shows "\<exists>h' L' cleanup'. finalize_anchors h anchors cleanup = Inr (h', cleanup') \<and> heap_ok h' L' R \<and> swept v\<^sub>0 R (status h')
    \<and> zero_queue h' = [] \<and> (\<forall>a \<in> set anchors. \<forall>n p. status h' a \<noteq> Alive n p)
    \<and> (\<forall>i n p. status h' i = Alive n p \<longrightarrow> (\<exists>m. status h i = Alive m p))
    \<and> atoms_held (status h') + mset (cleanup_atoms cleanup') = atoms_held (status h) + mset (cleanup_atoms cleanup)"
  using assms
proof (induction anchors arbitrary: h L cleanup)
  case (Cons a anchors)
  show ?case
  proof (cases "is_live h a")
    case True
    then obtain n p where alive: "status h a = Alive n p" by (auto simp: is_live_iff)
    have a: "is_anchor a" "\<not> reach v\<^sub>0 R a" using Cons.prems(4) by simp_all
    let ?v = "(status h)(a := Undead n)"
    obtain h1 L1 c1 where h1: "finalize_cycle_anchor h a cleanup = Inr (h1, c1)" "heap_ok h1 L1 R" "decay ?v (status h1)"
        "atoms_held (status h1) + mset (cleanup_atoms c1) = atoms_held (status h) + mset (cleanup_atoms cleanup)"
      using finalize_anchor_ok [OF Cons.prems(1) a(1) alive] by blast
    obtain h2 L2 c2 where h2: "drain_zero_queue h1 = Inr (h2, c2)" "heap_ok h2 L2 R" "zero_queue h2 = []"
        "decay (status h1) (status h2)" "atoms_held (status h2) + mset (cleanup_atoms c2) = atoms_held (status h1)"
      using drain_ok [OF h1(2)] by blast
    have faded: "decay ?v (status h2)" using decay_trans [OF h1(3) h2(4)] .
    have later: "\<forall>a \<in> set anchors. is_anchor a \<and> \<not> reach v\<^sub>0 R a" using Cons.prems(4) by simp
    have "swept v\<^sub>0 R (status h2)" using swept_decay [OF swept_bury [OF Cons.prems(2) alive a(2)] faded] .
    from Cons.IH [OF h2(2) this h2(3) later, of "merge_cleanup c1 c2"]
    obtain h' L' c' where h': "finalize_anchors h2 anchors (merge_cleanup c1 c2) = Inr (h', c')" "heap_ok h' L' R"
        "swept v\<^sub>0 R (status h')" "zero_queue h' = []" "\<forall>a \<in> set anchors. \<forall>n p. status h' a \<noteq> Alive n p"
        "\<forall>i n p. status h' i = Alive n p \<longrightarrow> (\<exists>m. status h2 i = Alive m p)"
        "atoms_held (status h') + mset (cleanup_atoms c') = atoms_held (status h2) + mset (cleanup_atoms (merge_cleanup c1 c2))"
      by blast
    have fresh: "(\<exists>m. status h i = Alive m p) \<and> i \<noteq> a" if now: "status h' i = Alive n p" for i n p
    proof -
      obtain m where "status h2 i = Alive m p" using now h'(6) by blast
      from decay_alive [OF faded this] show ?thesis by (auto split: if_splits)
    qed
    then have dead: "\<forall>n p. status h' a \<noteq> Alive n p" "\<forall>i n p. status h' i = Alive n p \<longrightarrow> (\<exists>m. status h i = Alive m p)" by blast+
    have "atoms_held (status h') + mset (cleanup_atoms c') = atoms_held (status h2) + mset (cleanup_atoms c2) + mset (cleanup_atoms c1)"
      using h'(7) by (simp add: ac_simps)
    then have "atoms_held (status h') + mset (cleanup_atoms c') = atoms_held (status h) + mset (cleanup_atoms cleanup)"
      unfolding h2(5) h1(4) .
    with h'(1-5) h1(1) h2(1) True dead show ?thesis by simp blast
  next
    case False
    then have "\<forall>n p. status h a \<noteq> Alive n p" by (simp add: is_live_iff)
    moreover obtain h' L' c' where "finalize_anchors h anchors cleanup = Inr (h', c')" "heap_ok h' L' R"
        "swept v\<^sub>0 R (status h')" "zero_queue h' = []" "\<forall>a \<in> set anchors. \<forall>n p. status h' a \<noteq> Alive n p"
        "\<forall>i n p. status h' i = Alive n p \<longrightarrow> (\<exists>m. status h i = Alive m p)"
        "atoms_held (status h') + mset (cleanup_atoms c') = atoms_held (status h) + mset (cleanup_atoms cleanup)"
      using Cons.IH [OF Cons.prems(1-3), of cleanup] Cons.prems(4) by auto
    ultimately show ?thesis using False by simp blast
  qed
qed auto

section \<open>Completeness\<close>

lemma status_kind:
  assumes "status h i = Alive n (NodePayload data)"
  shows "raw_kind i = data_kind data"
proof -
  have node: "\<not> is_leaf i" using assms by (auto simp: status_def leaf_status_def Let_def split: if_splits)
  have here: "status h i \<noteq> Absent" using assms by simp
  from here node show ?thesis
  proof (rule statusE)
    assume "status h i = state_status (slot_state (heap_slots h ! unat (raw_index i)))"
      "names_slot i (heap_slots h ! unat (raw_index i))"
    then show ?thesis using assms by (cases "slot_state (heap_slots h ! unat (raw_index i))") (auto simp: names_slot_def)
  qed
qed

text \<open>Nodes that are no anchors refer only to objects, strings and big integers.\<close>

lemma raw_value_edge_kind: "i \<in> set (option_list (raw_value_edge value)) \<Longrightarrow> raw_kind i \<in> {ObjectNode, StringNode, BigIntNode}"
  by (cases "value") auto

lemma passive_edges:
  assumes "status h j = Alive n p" "\<not> is_anchor j" "i \<in> set (payload_refs p)"
  shows "raw_kind i \<in> {ObjectNode, StringNode, BigIntNode}"
proof (cases p)
  case (NodePayload data)
  with assms status_kind [of h j n data] show ?thesis
    by (cases data) (auto simp: is_anchor_def shape_edges_def raw_value_edges_def dest: raw_value_edge_kind)
qed (use assms in simp)

lemma garbage_gone:
  assumes ok: "heap_ok h L R" and queue: "zero_queue h = []" and swept: "swept v\<^sub>0 R (status h)"
    and rest: "\<And>i n. v\<^sub>0 i \<noteq> Undead n" "\<And>i n p. v\<^sub>0 i = Alive n p \<Longrightarrow> n \<le> immortal"
    and anchors: "\<And>i n p. is_anchor i \<Longrightarrow> status h i = Alive n p \<Longrightarrow> reach v\<^sub>0 R i"
    and i: "status h i = Alive n p \<or> status h i = Undead n"
  shows "reach v\<^sub>0 R i"
proof (rule ccontr)
  have counted: "counted (status h) [] R" using ok queue by (simp add: heap_ok_def)
  have referrer: "\<exists>j m q. status h j = Alive m q \<and> i \<in> set (payload_refs q) \<and> \<not> reach v\<^sub>0 R j"
    if i: "status h i = Alive n p \<or> status h i = Undead n" "\<not> reach v\<^sub>0 R i" for i n p
  proof -
    obtain m p' where "v\<^sub>0 i = Alive m p'" "n \<le> m"
      using swept by (cases rule: sweptE [where i = i]) (use i rest(1) in \<open>auto simp: fades_def\<close>)
    moreover have "m \<noteq> immortal" using i(2) reach_root [of v\<^sub>0 R i] \<open>v\<^sub>0 i = Alive m p'\<close> by (auto simp: root_def)
    ultimately have "n < immortal" using rest(2) by fastforce
    moreover have "0 < n" using countedD [OF counted, of i] i(1) by auto
    ultimately have "0 < count (refs (status h) R) i" using countedD [OF counted, of i] i(1) by auto
    moreover have "i \<notin># R" using i(2) reach_root [of v\<^sub>0 R i] by (auto simp: root_def)
    ultimately have "i \<in># held (status h)" by (simp add: refs_def not_in_iff)
    then obtain j where j: "i \<in> set (status_refs (status h j))" by (auto simp: held_member)
    have "\<And>q. status h j \<noteq> Queued q" using countedD [OF counted, of j] by (metis count_ok.simps(3) empty_iff empty_set)
    with j obtain m q where alive: "status h j = Alive m q" "i \<in> set (payload_refs q)" by (cases "status h j") auto
    have "\<not> reach v\<^sub>0 R j"
    proof
      assume "reach v\<^sub>0 R j"
      moreover obtain m' where "v\<^sub>0 j = Alive m' q" using swept_alive [OF swept alive(1)] by blast
      ultimately have "reach v\<^sub>0 R i" using reach_edge [of v\<^sub>0 R j i] alive(2) by simp
      with i(2) show False ..
    qed
    with alive show ?thesis by blast
  qed
  assume "\<not> reach v\<^sub>0 R i"
  then obtain j m q where j: "status h j = Alive m q" "i \<in> set (payload_refs q)" "\<not> reach v\<^sub>0 R j"
    using referrer [OF i] by blast
  then obtain k m' q' where k: "status h k = Alive m' q'" "j \<in> set (payload_refs q')" "\<not> reach v\<^sub>0 R k"
    using referrer [of j] by blast
  have "\<not> is_anchor j" "\<not> is_anchor k" using anchors j k by blast+
  with passive_edges [OF k(1) _ k(2)] have kind: "raw_kind j \<in> {StringNode, BigIntNode}" by (auto simp: is_anchor_def)
  obtain data where "q = NodePayload data" using j(2) by (cases q) auto
  with status_kind j(1) kind show False by (metis data_kind_node insertE singletonD)
qed

lemma no_zombie:
  assumes "arena_wf h" "\<And>i n. status h i \<noteq> Undead n"
  shows "\<not> has_zombie h"
proof
  assume "has_zombie h"
  then obtain slot where slot: "slot \<in> set (heap_slots h)" "case slot_state slot of Zombie _ _ \<Rightarrow> True | _ \<Rightarrow> False"
    unfolding has_zombie_def by blast
  from slot(2) obtain kind strong where "slot_state slot = Zombie kind strong" by (cases "slot_state slot") auto
  with slot(1) obtain k where k: "k < length (heap_slots h)" "slot_state (heap_slots h ! k) = Zombie kind strong"
    by (metis in_set_conv_nth)
  have small: "k < 2 ^ 32" and kind: "kind \<noteq> StringNode" "kind \<noteq> BigIntNode"
    using assms(1) k by (auto simp: arena_wf_def)
  have "status h (raw_of kind (slot_id h k)) = Undead (unat strong)"
    using k small kind by (simp add: status_def slot_id_def names_slot_def unsigned_of_nat take_bit_nat_eq_self)
  with assms(2) show False by blast
qed

lemma held_mono:
  assumes "\<And>i. status_refs (w i) = [] \<or> status_refs (w i) = status_refs (v i)"
  shows "count (held w) j \<le> count (held v) j"
proof -
  have "count (mset (status_refs (w i))) j \<le> count (mset (status_refs (v i))) j" for i using assms [of i] by auto
  then show ?thesis by (simp add: held_def count_sum sum_mono)
qed

lemma collect_ok:
  assumes ok: "heap_ok h L R" and rest: "at_rest h"
  shows "\<exists>h' L' stats. run_gc_for_runtime_teardown h = Inr (h', stats) \<and> heap_ok h' L' R \<and> at_rest h'
    \<and> (\<forall>i. payload_of (status h' i) = (if reach (status h) R i then payload_of (status h i) else None))
    \<and> atoms_held (status h') + mset (cleanup_atoms (gc_cleanup stats)) = atoms_held (status h)"
proof -
  have queue: "zero_queue h = []" and undead: "\<And>i n. status h i \<noteq> Undead n" using rest by (auto simp: at_rest_def)
  have wf: "arena_wf h" using ok by (simp add: heap_ok_def arena_inv_def)
  obtain trial r c anchors where found: "trial_slots h (initial_trial h) (heap_slots h) = Inr trial"
      "mark_loop h (map is_external_root trial) (root_indices trial) = Inr r" "collect_anchors r 0 (heap_slots h) 0 [] = Inr (c, anchors)"
      "set anchors = {i. is_anchor i \<and> (\<exists>n p. status h i = Alive n p) \<and> \<not> reach (status h) R i}"
    using anchors_found [OF ok rest] by blast
  have "swept (status h) R (status h)" by (simp add: swept_def)
  then obtain h' L' c' where h': "finalize_anchors h anchors default_cleanup = Inr (h', c')" "heap_ok h' L' R"
      "swept (status h) R (status h')" "zero_queue h' = []" "\<forall>a \<in> set anchors. \<forall>n p. status h' a \<noteq> Alive n p"
      "\<forall>i n p. status h' i = Alive n p \<longrightarrow> (\<exists>m. status h i = Alive m p)"
      "atoms_held (status h') + mset (cleanup_atoms c') = atoms_held (status h) + mset (cleanup_atoms default_cleanup)"
    using finalize_anchors_ok [OF ok _ queue, of "status h" anchors default_cleanup] found(4) by blast
  have counted: "counted (status h') [] R" using h'(2,4) by (simp add: heap_ok_def)
  have queued: "status h' i \<noteq> Queued p" for i p using countedD [OF counted, of i] by (metis count_ok.simps(3) empty_iff empty_set)
  have gone: "reach (status h) R i" if "status h' i = Alive n p \<or> status h' i = Undead n" for i n p
    using h'(2,4,3) undead alive_bound _ that
  proof (rule garbage_gone)
    fix i n p assume "is_anchor i" "status h' i = Alive n p"
    then show "reach (status h) R i" using h'(5,6) unfolding found(4) by blast
  qed
  have kept: "\<exists>n m p. status h' i = Alive n p \<and> status h i = Alive m p" if "reach (status h) R i" for i
    using reach_alive [OF h'(2,3) undead that] .
  have undead': "status h' i \<noteq> Undead n" for i n using gone [of i n] kept [of i] by auto
  have payload: "payload_of (status h' i) = (if reach (status h) R i then payload_of (status h i) else None)" for i
    using kept [of i] gone [of i] queued [of i] by (cases "status h' i") (auto split: if_splits)
  have edges: "status_refs (status h' i) = [] \<or> status_refs (status h' i) = status_refs (status h i)" for i
    using kept [of i] gone [of i] queued [of i] by (cases "status h' i") auto
  have "count (held (status h')) i < immortal" if now: "status h' i = Alive immortal p" for i p
  proof -
    obtain m where m: "status h i = Alive m p" "immortal \<le> m" using swept_alive [OF h'(3) now] by blast
    with alive_bound [OF m(1)] rest have "count (held (status h)) i < immortal" by (auto simp: at_rest_def)
    with held_mono [of "status h'" "status h" i, OF edges] show ?thesis by linarith
  qed
  with h'(4) undead' have rest': "at_rest h'" by (simp add: at_rest_def)
  have "\<not> has_zombie h" "\<not> has_zombie h'"
    using no_zombie [OF wf undead] no_zombie [OF _ undead'] h'(2) by (auto simp: heap_ok_def arena_inv_def)
  then have "\<exists>stats. run_gc_for_runtime_teardown h = Inr (h', stats) \<and> gc_cleanup stats = merge_cleanup c' default_cleanup"
    using queue h'(1,4) found(1-3) by (simp add: run_gc_for_runtime_teardown_def drain_zero_queue_def Let_def)
  with h'(2,7) rest' payload show ?thesis by (auto simp: default_cleanup_def)
qed

end
