(* ===== verification/Heap_Runs.thy ===== *)
theory Heap_Runs
  imports Heap_Reachability
begin

text \<open>
  Clients of the heap: a run is any sequence of allocations, retains, releases and collections in which
  the client releases only references that it owns. The theorems about the heap are stated here.
\<close>

section \<open>Leaves\<close>

abbreviation leaf_room :: "heap \<Rightarrow> bool" where
  "leaf_room h \<equiv> leaf_free h \<noteq> [] \<or> length (leaf_slots h) < 2 ^ 32"

abbreviation new_leaf :: leaf_slot where
  "new_leaf \<equiv> \<lparr>leaf_generation = 1, leaf_strong = 0, leaf_value = LeafVacant\<rparr>"

lemma append_leaf:
  assumes "arena_inv h L" "length (leaf_slots h) < 2 ^ 32"
  shows "arena_inv (h\<lparr>leaf_slots := leaf_slots h @ [new_leaf]\<rparr>) L" "status (h\<lparr>leaf_slots := leaf_slots h @ [new_leaf]\<rparr>) = status h"
proof -
  let ?h = "h\<lparr>leaf_slots := leaf_slots h @ [new_leaf]\<rparr>"
  have "linked ?h L" using assms(1) by (subst linked_cong [of _ h]) (simp_all add: arena_inv_def)
  with assms show "arena_inv ?h L" by (auto simp: arena_inv_def arena_wf_def nth_append)
  show "status ?h = status h"
    by (rule ext) (auto simp: status_def names_leaf_def nth_append Let_def less_Suc_eq)
qed

lemma leaf_reserve_ok:
  assumes inv: "arena_inv h L" and room: "leaf_room h"
  shows "\<exists>index h'. leaf_reserve_vacant h = Inr ((index, leaf_generation (leaf_slots h' ! unat index)), h') \<and> arena_inv h' L
    \<and> unat index < length (leaf_slots h') \<and> leaf_value (leaf_slots h' ! unat index) = LeafVacant \<and> index \<notin> set (leaf_free h')
    \<and> status h' = status h \<and> zero_queue h' = zero_queue h"
proof (cases "leaf_free h = []")
  case True
  let ?h = "h\<lparr>leaf_slots := leaf_slots h @ [new_leaf]\<rparr>" let ?index = "of_nat (length (leaf_slots h)) :: u32"
  have small: "length (leaf_slots h) < 2 ^ 32" using room True by simp
  then have index: "unat ?index = length (leaf_slots h)" by (simp add: unsigned_of_nat take_bit_nat_eq_self)
  have "leaf_reserve_vacant h = Inr ((?index, 1), ?h)"
    using True small index by (simp add: leaf_reserve_vacant_def vec_pop_def vec_get_opt_def)
  then show ?thesis using append_leaf [OF inv small] index True by (intro exI [of _ ?index] exI [of _ ?h]) simp
next
  case False
  let ?index = "last (leaf_free h)" let ?h = "h\<lparr>leaf_free := butlast (leaf_free h)\<rparr>"
  have wf: "arena_wf h" using inv by (simp add: arena_inv_def)
  have split: "leaf_free h = butlast (leaf_free h) @ [?index]" using False by simp
  have fresh: "?index \<notin> set (butlast (leaf_free h))" "distinct (butlast (leaf_free h))"
    using wf split by (metis arena_wf_def distinct_append not_distinct_conv_prefix, metis arena_wf_def distinct_butlast)
  have k: "unat ?index < length (leaf_slots h)" "leaf_value (leaf_slots h ! unat ?index) = LeafVacant"
    using wf False by (auto simp: arena_wf_def)
  have "leaf_reserve_vacant h = Inr ((?index, leaf_generation (leaf_slots h ! unat ?index)), ?h)"
    using False k by (simp add: leaf_reserve_vacant_def vec_pop_def vec_get_opt_def)
  moreover have "linked ?h L" using inv by (subst linked_cong [of _ h]) (simp_all add: arena_inv_def)
  then have "arena_inv ?h L" using inv fresh by (auto simp: arena_inv_def arena_wf_def dest: in_set_butlastD)
  moreover have "status ?h = status h" by (rule status_same_slots) simp_all
  ultimately show ?thesis using fresh k by (intro exI [of _ ?index] exI [of _ ?h]) auto
qed

lemma allocate_leaf_ok:
  assumes ok: "heap_ok h L R" and room: "leaf_room h" and kind: "leaf_kind value = Some kind"
  shows "\<exists>n h1. leaf_reserve_vacant h = Inr ((node_index n, node_generation n), h1) \<and> status h (raw_of kind n) = Absent
    \<and> status (set_leaf h1 (unat (node_index n)) 1 value) = (status h)(raw_of kind n := Alive 1 (LeafPayload value))
    \<and> heap_ok (set_leaf h1 (unat (node_index n)) 1 value) L (add_mset (raw_of kind n) R)
    \<and> zero_queue (set_leaf h1 (unat (node_index n)) 1 value) = zero_queue h"
proof -
  have inv: "arena_inv h L" and L: "set L = weak_ids (status h)" and counted: "counted (status h) (zero_queue h) R"
    using ok by (simp_all add: heap_ok_def)
  obtain index h1 where h1: "leaf_reserve_vacant h = Inr ((index, leaf_generation (leaf_slots h1 ! unat index)), h1)" "arena_inv h1 L"
    "unat index < length (leaf_slots h1)" "leaf_value (leaf_slots h1 ! unat index) = LeafVacant" "index \<notin> set (leaf_free h1)"
    "status h1 = status h" "zero_queue h1 = zero_queue h" using leaf_reserve_ok [OF inv room] by blast
  let ?n = "\<lparr>node_index = index, node_generation = leaf_generation (leaf_slots h1 ! unat index)\<rparr>"
  let ?i = "raw_of kind ?n" let ?h = "set_leaf h1 (unat index) 1 value"
  have leaf: "is_leaf ?i" using kind by (cases "value") auto
  have absent: "status h1 ?i = Absent" using leaf h1(3,4) by (simp add: status_def names_leaf_def)
  let ?s = "(leaf_slots h1 ! unat index)\<lparr>leaf_strong := 1, leaf_value := value\<rparr>"
  have "status ?h = (status h1)(?i := leaf_status ?s)"
    by (rule status_write_leaf) (use h1(3,4) leaf kind in \<open>simp_all add: set_leaf_def\<close>)
  then have v: "status ?h = (status h)(?i := Alive 1 (LeafPayload value))" using h1(6) kind by (simp add: leaf_status_def)
  have other: "\<forall>j \<in> set (leaf_free h1). unat j \<noteq> unat index" using h1(5) by (metis word_unat_eq_iff)
  have "linked ?h L" using h1(2) by (subst linked_cong [of _ h1]) (simp_all add: arena_inv_def)
  then have "arena_inv ?h L" using h1(2) other by (auto simp: arena_inv_def arena_wf_def set_leaf_nth)
  moreover have "weak_ids (status ?h) = weak_ids (status h)" unfolding v by (rule leaf_no_payload [OF leaf])
  moreover have "counted (status ?h) (zero_queue ?h) (add_mset ?i R)"
    unfolding v using counted_publish [of "status h" "zero_queue h" R "LeafPayload value" ?i] counted absent h1(6,7) by simp
  ultimately have "heap_ok ?h L (add_mset ?i R)" using L by (simp add: heap_ok_def)
  with h1 v absent show ?thesis by (intro exI [of _ ?n] exI [of _ h1]) simp
qed

section \<open>Runs\<close>

inductive heap_run :: "(raw_id list \<Rightarrow> raw_id list) \<Rightarrow> heap \<Rightarrow> raw_id multiset \<Rightarrow> bool" for hash_order where
  run_new: "heap_run hash_order new_heap {#}"
| run_retain: "heap_run hash_order h R \<Longrightarrow> retain_raw_shared h i = Inr h' \<Longrightarrow> heap_run hash_order h' (add_mset i R)"
| run_retain_fast: "heap_run hash_order h R \<Longrightarrow> is_live h i \<Longrightarrow> retain_raw_fast h i = Inr h' \<Longrightarrow>
    heap_run hash_order h' (add_mset i R)"
| run_release: "heap_run hash_order h (add_mset i R) \<Longrightarrow> release_reference h i = Inr (cleanup, h') \<Longrightarrow>
    heap_run hash_order h' R"
| run_string: "heap_run hash_order h R \<Longrightarrow> allocate_string_leaf h units = Inr (n, h') \<Longrightarrow>
    heap_run hash_order h' (add_mset (RString n) R)"
| run_bigint: "heap_run hash_order h R \<Longrightarrow> allocate_bigint_leaf h value = Inr (n, h') \<Longrightarrow>
    heap_run hash_order h' (add_mset (RBigInt n) R)"
| run_object: "heap_run hash_order h R \<Longrightarrow> allocate_object_inner hash_order h object = (result, h') \<Longrightarrow>
    heap_run hash_order h' (case result of Inr n \<Rightarrow> add_mset (RObject n) R | Inl _ \<Rightarrow> R)"
| run_shape: "heap_run hash_order h R \<Longrightarrow> allocate_shape hash_order h shape = (result, h') \<Longrightarrow>
    heap_run hash_order h' (case result of Inr n \<Rightarrow> add_mset (RShape n) R | Inl _ \<Rightarrow> R)"
| run_context: "heap_run hash_order h R \<Longrightarrow> allocate_context hash_order h context = (result, h') \<Longrightarrow>
    heap_run hash_order h' (case result of Inr n \<Rightarrow> add_mset (RContext n) R | Inl _ \<Rightarrow> R)"
| run_var_ref: "heap_run hash_order h R \<Longrightarrow> allocate_var_ref hash_order h value = (result, h') \<Longrightarrow>
    heap_run hash_order h' (case result of Inr n \<Rightarrow> add_mset (RVarRef n) R | Inl _ \<Rightarrow> R)"
| run_collect: "heap_run hash_order h R \<Longrightarrow> at_rest h \<Longrightarrow> run_gc_for_runtime_teardown h = Inr (h', stats) \<Longrightarrow>
    heap_run hash_order h' R"

definition quiet :: "heap \<Rightarrow> raw_id multiset \<Rightarrow> bool" where
  "quiet h R \<longleftrightarrow> (\<exists>L. heap_ok h L R) \<and> zero_queue h = [] \<and> (\<forall>i n. status h i \<noteq> Undead n)"

lemma status_new: "status new_heap = (\<lambda>_. Absent)"
  by (rule ext) (simp add: status_def new_heap_def Let_def)

lemma quiet_new: "quiet new_heap {#}"
proof -
  have "heap_ok new_heap [] {#}"
    unfolding heap_ok_def status_new
    by (simp add: arena_inv_def arena_wf_def linked_def first_of_def weak_ids_def counted_def refs_def held_def new_heap_def)
  moreover have "zero_queue new_heap = []" by (simp add: new_heap_def)
  ultimately show ?thesis by (auto simp: quiet_def status_new)
qed

lemma retain_raw_room: "retain_raw h i k = Inr h' \<Longrightarrow> room (status h) i (unat k)"
proof (cases "is_leaf i")
  case True
  assume "retain_raw h i k = Inr h'"
  with True show ?thesis
    by (cases rule: live_leaf_cases [where h = h])
      (auto simp: True retain_raw_def retain_leaf_raw_def checked_add_u32_def room_def split: if_splits)
next
  case False
  assume "retain_raw h i k = Inr h'"
  with False show ?thesis
    by (cases rule: live_node_cases [where h = h])
      (auto simp: False retain_raw_def checked_add_u32_def room_def split: if_splits)
qed

lemma shared_is_raw: "retain_raw_shared h i = retain_raw h i 1"
  by (simp add: retain_raw_shared_def retain_leaf_shared_def retain_raw_def retain_leaf_raw_def)

lemma quiet_retain:
  assumes "quiet h R" "retain_raw_shared h i = Inr h'"
  shows "quiet h' (add_mset i R)"
proof -
  obtain L where ok: "heap_ok h L R" using assms(1) by (auto simp: quiet_def)
  have step: "retain_raw h i 1 = Inr h'" using assms(2) by (simp add: shared_is_raw)
  have room: "room (status h) i 1" using retain_raw_room [OF step] by simp
  have inv: "arena_inv h L" using ok by (simp add: heap_ok_def)
  have "arena_inv h' L" "status h' = retain_all {#i#} (status h)" "zero_queue h' = zero_queue h"
    using retain_raw_ok [of h L i 1] inv room alive_positive [OF ok] step by auto
  moreover from this have "heap_ok h' L (R + {#i#})" using room by (intro heap_ok_retain_all [OF ok]) auto
  moreover have "retain_all {#i#} (status h) j \<noteq> Undead n" for j n
    using assms(1) by (auto simp: quiet_def retain_all_def split: node_status.split)
  ultimately show ?thesis using assms(1) by (auto simp: quiet_def)
qed

lemma decay_undead: "decay v w \<Longrightarrow> \<forall>i n. v i \<noteq> Undead n \<Longrightarrow> w i \<noteq> Undead n"
  using decayD [of v w i] by (auto simp: fades_def)

lemma quiet_release:
  assumes "quiet h (add_mset i R)"
  shows "\<exists>cleanup h'. release_reference h i = Inr (cleanup, h') \<and> quiet h' R \<and> decay (status h) (status h')
    \<and> atoms_held (status h') + mset (cleanup_atoms (cleanup_of cleanup)) = atoms_held (status h)"
proof -
  obtain L where ok: "heap_ok h L (add_mset i R)" using assms by (auto simp: quiet_def)
  from release_reference_ok [OF ok] obtain cleanup h' L' where h': "release_reference h i = Inr (cleanup, h')" "heap_ok h' L' R"
    "zero_queue h' = []" "decay (status h) (status h')"
    "atoms_held (status h') + mset (cleanup_atoms (cleanup_of cleanup)) = atoms_held (status h)" by blast
  then have "quiet h' R" using assms decay_undead [OF h'(4)] by (auto simp: quiet_def)
  with h' show ?thesis by blast
qed

definition orders_edges :: "(raw_id list \<Rightarrow> raw_id list) \<Rightarrow> bool" where
  "orders_edges hash_order \<longleftrightarrow> (\<forall>edges. distinct (hash_order edges) \<and> set (hash_order edges) = set edges)"

text \<open>The queue is empty exactly when no handle is queued.\<close>

fun settled :: "node_status \<Rightarrow> bool" where
  "settled (Queued _) \<longleftrightarrow> False"
| "settled (Undead _) \<longleftrightarrow> False"
| "settled _ \<longleftrightarrow> True"

lemma quiet_settled: "quiet h R \<longleftrightarrow> (\<exists>L. heap_ok h L R) \<and> (\<forall>i. settled (status h i))"
proof -
  have "zero_queue h = [] \<longleftrightarrow> (\<forall>i p. status h i \<noteq> Queued p)" if "heap_ok h L R" for L
  proof -
    have "i \<in> set (zero_queue h) \<longleftrightarrow> (\<exists>p. status h i = Queued p)" for i
      using that countedD [of "status h" "zero_queue h" R i] by (cases "status h i") (auto simp: heap_ok_def)
    then show ?thesis by (metis all_not_in_conv empty_set set_empty)
  qed
  moreover have "settled s \<longleftrightarrow> (\<forall>p. s \<noteq> Queued p) \<and> (\<forall>n. s \<noteq> Undead n)" for s by (cases s) auto
  ultimately show ?thesis by (auto simp: quiet_def)
qed

lemma settled_retain_all [simp]: "settled (retain_all M v i) \<longleftrightarrow> settled (v i)"
  by (simp add: retain_all_def split: node_status.split)

lemma settled_mark_view [simp]: "settled (mark_view prototype v i) \<longleftrightarrow> settled (v i)"
  by (auto simp: mark_view_def split: option.split node_status.split)

lemma quiet_allocated:
  assumes "quiet h R" "\<And>L. heap_ok h L R \<Longrightarrow> allocated h L R data (result, h')"
  shows "quiet h' (case result of Inr n \<Rightarrow> add_mset (raw_of (data_kind data) n) R | Inl _ \<Rightarrow> R)"
proof -
  obtain L where "heap_ok h L R" "\<forall>i. settled (status h i)" using assms(1) by (auto simp: quiet_settled)
  with assms(2) [of L] show ?thesis by (cases result) (auto simp: allocated_def quiet_settled)
qed

lemma quiet_object:
  assumes "orders_edges hash_order" "quiet h R" "allocate_object_inner hash_order h object = (result, h')"
  shows "quiet h' (case result of Inr n \<Rightarrow> add_mset (RObject n) R | Inl _ \<Rightarrow> R)"
  using quiet_allocated [OF assms(2), of "ObjectData object" result h'] allocate_object_ok [of h _ R hash_order object] assms(1,3)
  by (cases result) (simp_all add: orders_edges_def)

lemma quiet_context:
  assumes "orders_edges hash_order" "quiet h R" "allocate_context hash_order h context = (result, h')"
  shows "quiet h' (case result of Inr n \<Rightarrow> add_mset (RContext n) R | Inl _ \<Rightarrow> R)"
  using quiet_allocated [OF assms(2), of "ContextData context" result h'] allocate_plain [of h _ R hash_order "ContextData context"] assms(1,3)
  by (cases result) (simp_all add: orders_edges_def allocate_context_def)

lemma quiet_var_ref:
  assumes "orders_edges hash_order" "quiet h R" "allocate_var_ref hash_order h value = (result, h')"
  shows "quiet h' (case result of Inr n \<Rightarrow> add_mset (RVarRef n) R | Inl _ \<Rightarrow> R)"
  using quiet_allocated [OF assms(2), of "VarRefData value" result h'] allocate_plain [of h _ R hash_order "VarRefData value"] assms(1,3)
  by (cases result) (simp_all add: orders_edges_def allocate_var_ref_def)

lemma quiet_shape:
  assumes "orders_edges hash_order" "quiet h R" "allocate_shape hash_order h shape = (result, h')"
  shows "quiet h' (case result of Inr n \<Rightarrow> add_mset (RShape n) R | Inl _ \<Rightarrow> R)"
proof -
  obtain L where "heap_ok h L R" "\<forall>i. settled (status h i)" using assms(2) by (auto simp: quiet_settled)
  with allocate_shape_ok [of h L R hash_order shape] assms(1,3) show ?thesis
    by (cases result) (auto simp: orders_edges_def quiet_settled)
qed

lemma node_id_collapse [simp]: "\<lparr>node_index = node_index n, node_generation = node_generation n\<rparr> = (n :: node_id)"
  by simp

lemma quiet_leaf:
  assumes "quiet h R" "leaf_reserve_vacant h = Inr ((index, generation), h1)" "leaf_kind value = Some kind"
  shows "quiet (set_leaf h1 (unat index) 1 value) (add_mset (raw_of kind \<lparr>node_index = index, node_generation = generation\<rparr>) R)"
proof -
  obtain L where ok: "heap_ok h L R" and settled: "\<forall>i. settled (status h i)" using assms(1) by (auto simp: quiet_settled)
  have "leaf_room h"
    using assms(2) by (auto simp: leaf_reserve_vacant_def vec_pop_def and_then_eq_Inr split: if_splits)
  then obtain n where n: "n = \<lparr>node_index = index, node_generation = generation\<rparr>"
      and v: "status (set_leaf h1 (unat index) 1 value) = (status h)(raw_of kind n := Alive 1 (LeafPayload value))"
      and ok1: "heap_ok (set_leaf h1 (unat index) 1 value) L (add_mset (raw_of kind n) R)"
    using allocate_leaf_ok [OF ok _ assms(3)] assms(2) by auto
  show ?thesis using ok1 settled unfolding quiet_settled v n [symmetric] by auto
qed

lemma quiet_collect:
  assumes "quiet h R" "at_rest h" "run_gc_for_runtime_teardown h = Inr (h', stats)"
  shows "quiet h' R"
proof -
  obtain L where "heap_ok h L R" using assms(1) by (auto simp: quiet_def)
  with collect_ok [of h L R] assms(2,3) show ?thesis by (auto simp: quiet_def at_rest_def)
qed

lemma quiet_retain_fast:
  assumes "quiet h R" "is_live h i" "retain_raw_fast h i = Inr h'"
  shows "quiet h' (add_mset i R)"
proof -
  obtain L where ok: "heap_ok h L R" "\<forall>i. settled (status h i)" using assms(1) by (auto simp: quiet_settled)
  obtain n p where "status h i = Alive n p" using assms(2) by (auto simp: is_live_iff)
  from retain_raw_fast_ok [OF ok(1) this] ok(2) assms(3) show ?thesis by (auto simp: quiet_settled)
qed

lemma run_quiet:
  assumes "orders_edges hash_order" "heap_run hash_order h R"
  shows "quiet h R"
  using assms(2)
proof (induction rule: heap_run.induct)
  case (run_release h i R cleanup h')
  then show ?case using quiet_release [of h i R] by auto
next
  case (run_string h R units n h')
  then show ?case using quiet_leaf [of h R _ _ _ "LeafString units" StringNode]
    by (auto simp: allocate_string_leaf_def and_then_eq_Inr)
next
  case (run_bigint h R "value" n h')
  then show ?case using quiet_leaf [of h R _ _ _ "LeafBigInt value" BigIntNode]
    by (auto simp: allocate_bigint_leaf_def and_then_eq_Inr)
qed (use assms(1) in \<open>blast intro: quiet_new quiet_retain quiet_retain_fast quiet_object quiet_shape quiet_context
  quiet_var_ref quiet_collect\<close>)+

section \<open>An example\<close>

text \<open>An object and its shape that refer to each other, and a variable reference that a client owns.\<close>

abbreviation example_id :: "u32 \<Rightarrow> node_id" where
  "example_id index \<equiv> \<lparr>node_index = index, node_generation = 1\<rparr>"

definition example_object :: object_data where
  "example_object = \<lparr>object_shape = example_id 1, object_slots = [], object_payload = OtherPayload [] [9],
     private_brand_home = None, used_as_prototype = True\<rparr>"

definition example_shape :: shape_data where
  "example_shape = \<lparr>shape_prototype = Some (example_id 0), shape_atoms = [7]\<rparr>"

abbreviation example_slot :: "node_data \<Rightarrow> arena_slot" where
  "example_slot data \<equiv> \<lparr>slot_generation = 1, slot_state = Live \<lparr>node_strong = 1, node_payload = data\<rparr>,
     weak_prev = None, weak_next = None\<rparr>"

definition cyclic_heap :: heap where
  "cyclic_heap = new_heap\<lparr>heap_slots := [example_slot (ObjectData example_object), example_slot (ShapeData example_shape),
     example_slot (VarRefData (VInt 5))]\<rparr>"

abbreviation cyclic_view :: heap_view where
  "cyclic_view \<equiv> (\<lambda>_. Absent)(RObject (example_id 0) := Alive 1 (NodePayload (ObjectData example_object)),
     RShape (example_id 1) := Alive 1 (NodePayload (ShapeData example_shape)),
     RVarRef (example_id 2) := Alive 1 (NodePayload (VarRefData (VInt 5))))"

lemma cyclic_status: "status cyclic_heap = cyclic_view"
proof
  fix i
  have id: "n = example_id k \<longleftrightarrow> unat (node_index n) = unat k \<and> node_generation n = 1" for n k
    by (cases n) (auto simp: word_unat_eq_iff)
  have three: "j < Suc (Suc (Suc 0)) \<longleftrightarrow> j = 0 \<or> j = 1 \<or> j = 2" for j by auto
  show "status cyclic_heap i = cyclic_view i"
    by (cases i) (auto simp: status_def cyclic_heap_def new_heap_def names_slot_def Let_def three id)
qed

lemma held_add: "v i = Absent \<Longrightarrow> held (v(i := s)) = held v + mset (status_refs s)"
  using held_update [of v i s] by simp

lemma held_empty: "held (\<lambda>_. Absent) = {#}"
  by (simp add: held_def)

lemma cyclic_held: "held cyclic_view = {#RShape (example_id 1), RObject (example_id 0)#}"
  by (simp add: held_add held_empty object_edges_def example_object_def shape_edges_def example_shape_def raw_value_edges_def)

lemma cyclic_ok: "heap_ok cyclic_heap [] {#RVarRef (example_id 2)#}"
proof -
  have "arena_inv cyclic_heap []"
    by (auto simp: arena_inv_def arena_wf_def linked_def first_of_def cyclic_heap_def new_heap_def nth_Cons' next_of_notin)
  moreover have "weak_ids cyclic_view = {}"
    by (auto simp: weak_ids_def example_object_def)
  moreover have "counted cyclic_view [] {#RVarRef (example_id 2)#}"
    unfolding counted_def refs_def cyclic_held by auto
  ultimately show ?thesis unfolding heap_ok_def cyclic_status by (simp add: cyclic_heap_def new_heap_def)
qed

lemma example_order: "orders_edges remdups"
  by (simp add: orders_edges_def)

lemma cyclic_reach: "reach cyclic_view {#RVarRef (example_id 2)#} i \<Longrightarrow> i = RVarRef (example_id 2)"
  by (induction rule: reach.induct) (auto simp: root_def raw_value_edges_def split: if_splits)

lemma cyclic_rest: "at_rest cyclic_heap"
  unfolding at_rest_def cyclic_status by (simp add: cyclic_heap_def new_heap_def)

section \<open>Theorems\<close>

lemma quiet_reach_live:
  assumes "quiet h R" "reach (status h) R i"
  shows "is_live h i"
proof -
  obtain L where ok: "heap_ok h L R" and undead: "\<And>i n. status h i \<noteq> Undead n" using assms(1) by (auto simp: quiet_def)
  have "swept (status h) R (status h)" by (simp add: swept_def)
  from reach_alive [OF ok this undead assms(2)] show ?thesis by (auto simp: is_live_iff)
qed

text \<open>C19. Safety of the heap under any sequence of operations: after allocations, retains, collections and
  releases of owned references in any order, the reference counts and free lists are consistent, nothing
  waits in the zero queue, everything reachable from the references of the client is live, and each of
  these references can be released without an error.\<close>

theorem heap_run_safe:
  assumes "orders_edges hash_order" "heap_run hash_order h R"
  shows "(\<exists>L. heap_ok h L R) \<and> zero_queue h = [] \<and> (\<forall>i. reach (status h) R i \<longrightarrow> is_live h i)
    \<and> (\<forall>i. i \<in># R \<longrightarrow> (\<exists>cleanup h'. release_reference h i = Inr (cleanup, h') \<and> heap_run hash_order h' (R - {#i#})))"
proof -
  have quiet: "quiet h R" by (rule run_quiet [OF assms])
  have "\<exists>cleanup h'. release_reference h i = Inr (cleanup, h') \<and> heap_run hash_order h' (R - {#i#})" if "i \<in># R" for i
  proof -
    have R: "R = add_mset i (R - {#i#})" using that by simp
    then obtain cleanup h' where "release_reference h i = Inr (cleanup, h')" using quiet_release [of h i "R - {#i#}"] quiet by auto
    moreover from this R assms(2) have "heap_run hash_order h' (R - {#i#})" by (metis run_release)
    ultimately show ?thesis by blast
  qed
  with quiet quiet_reach_live [OF quiet] show ?thesis by (auto simp: quiet_def)
qed

theorem heap_run_safe_witness:
  "\<exists>h. heap_run remdups h {#RString (example_id 0)#} \<and> is_live h (RString (example_id 0))
     \<and> (\<exists>cleanup h'. release_reference h (RString (example_id 0)) = Inr (cleanup, h') \<and> heap_run remdups h' {#})"
proof -
  obtain h where "allocate_string_leaf new_heap [65] = Inr (example_id 0, h)"
    by (simp add: allocate_string_leaf_def leaf_reserve_vacant_def vec_pop_def vec_get_opt_def new_heap_def)
  with run_new [of remdups] have run: "heap_run remdups h {#RString (example_id 0)#}" by (rule run_string)
  moreover have "reach (status h) {#RString (example_id 0)#} (RString (example_id 0))" by (rule reach_root) (simp add: root_def)
  ultimately show ?thesis using heap_run_safe [OF example_order run] by auto
qed

text \<open>C20. Releasing an owned reference: \<open>release_reference\<close> never fails, drains the zero queue completely, keeps the
  invariant for the remaining references, only ever lowers counts and drops payloads, and hands every
  atom reference of a dropped payload to the caller, each exactly once.\<close>

theorem release_reference_correct:
  assumes "heap_ok h L (add_mset i R)"
  shows "\<exists>cleanup h' L'. release_reference h i = Inr (cleanup, h') \<and> heap_ok h' L' R \<and> zero_queue h' = []
    \<and> decay (status h) (status h')
    \<and> atoms_held (status h') + mset (cleanup_atoms (cleanup_of cleanup)) = atoms_held (status h)"
  by (rule release_reference_ok [OF assms])

theorem release_reference_correct_witness:
  "\<exists>cleanup h' L'. release_reference cyclic_heap (RVarRef (example_id 2)) = Inr (cleanup, h') \<and> heap_ok h' L' {#} \<and> zero_queue h' = []"
  using release_reference_correct [OF cyclic_ok] by blast



text \<open>C22. Allocation of an object: with a free slot and room in the counts of its edges it returns a handle that
  was not in use, alive with one reference, which owns its edges and is registered if it is weak;
  otherwise it returns an error, and the heap represents what it represented before.\<close>

theorem allocate_object_outcome:
  assumes "heap_ok h L R" "distinct (hash_order (object_edges object))" "set (hash_order (object_edges object)) = set (object_edges object)"
  shows "allocated h L R (ObjectData object) (allocate_object_inner hash_order h object)"
  using allocate_object_ok assms by blast

theorem allocate_object_outcome_witness:
  "allocated cyclic_heap [] {#RVarRef (example_id 2)#} (ObjectData example_object) (allocate_object_inner remdups cyclic_heap example_object)"
  by (rule allocate_object_outcome) (simp_all add: cyclic_ok)

text \<open>C23. The cycle collector is exact: from a heap at rest it succeeds, keeps every node that is reachable from
  an outside reference or an immortal node with its payload, frees every other node, cyclic or not, leaves a
  heap at rest, and hands over the atoms of the freed nodes, each exactly once.\<close>

theorem collector_exact:
  assumes "heap_ok h L R" "at_rest h"
  shows "\<exists>h' L' stats. run_gc_for_runtime_teardown h = Inr (h', stats) \<and> heap_ok h' L' R \<and> at_rest h'
    \<and> (\<forall>i. payload_of (status h' i) = (if reach (status h) R i then payload_of (status h i) else None))
    \<and> atoms_held (status h') + mset (cleanup_atoms (gc_cleanup stats)) = atoms_held (status h)"
  by (rule collect_ok [OF assms])

theorem collector_exact_witness:
  "\<exists>h' stats. run_gc_for_runtime_teardown cyclic_heap = Inr (h', stats) \<and> payload_of (status h' (RObject (example_id 0))) = None
     \<and> payload_of (status h' (RVarRef (example_id 2))) = Some (NodePayload (VarRefData (VInt 5)))"
proof -
  have "reach cyclic_view {#RVarRef (example_id 2)#} (RVarRef (example_id 2))" by (rule reach_root) (simp add: root_def)
  moreover have "\<not> reach cyclic_view {#RVarRef (example_id 2)#} (RObject (example_id 0))" using cyclic_reach by fastforce
  ultimately show ?thesis using collector_exact [OF cyclic_ok cyclic_rest] unfolding cyclic_status by fastforce
qed

text \<open>C24. The fast path for non-final releases agrees with the general one: \<open>try_release_nonfinal\<close> either does exactly
  what \<open>release_reference\<close> does, without a cleanup, or declines and changes nothing.\<close>

theorem nonfinal_release_agrees:
  "case try_release_nonfinal h i of (consumed, h') \<Rightarrow>
     if consumed then release_reference h i = Inr (None, h') \<and> zero_queue h' = [] else h' = h"
  using nonfinal_release [of h i] by (auto split: prod.split)

end
