(* ===== verification/Spec2Isabelle.thy ===== *)
theory Spec2Isabelle
  imports RegExp_Termination RegExp_Text Collection_Iteration Heap_Runs
begin

text \<open>
  A verification development for \<open>quickjs-oxide\<close>.
\<close>

end
